(* ===== verification/Prelude.thy ===== *)
theory Prelude
  imports Main "HOL-Library.Word" "HOL-Library.Signed_Division"
begin

unbundle bit_operations_syntax

text \<open>
  Shared vocabulary of the q2os development: the C integer types as words, the collections of
  rewrite rules the component theories extend, and the generic facts about words, bits and lists
  that several components use.

  Conventions used throughout.  \<open>unsigned long\<close>, pointers and bit masks are 64-bit words;
  \<open>long\<close> values that are compared as signed numbers are 64-bit words read with
  \<^term>\<open>sint\<close>; \<open>long\<close> and \<open>int\<close> counters that the code only steps by small
  constants are integers.  A C structure is a record and the memory that holds the structures of
  one type is a function from their addresses.  A null pointer is the address 0.  Where the
  processor would fault or the C code would loop for ever the model returns \<^const>\<open>None\<close>.
\<close>

type_synonym u8 = "8 word"
type_synonym u16 = "16 word"
type_synonym u32 = "32 word"
type_synonym u64 = "64 word"
type_synonym addr = "64 word"

abbreviation (input) NULL :: addr where
  "NULL \<equiv> 0"

named_theorems kernel_defs \<open>definitions of the operations unfolded in refinement proofs\<close>
named_theorems frame_rules \<open>facts an operation leaves unchanged\<close>

section \<open>Bits of words\<close>

text \<open>The kernel addresses single bits of word arrays as \<open>1UL << n\<close>.\<close>

abbreviation (input) bit64 :: "nat \<Rightarrow> u64" where
  "bit64 n \<equiv> 2 ^ n"

lemma bit_bit64: "bit (bit64 n) i \<longleftrightarrow> i = n \<and> n < 64"
  by (auto simp: bit_simps)

lemma and_bit64_eq_0_iff:
  assumes "n < 64"
  shows "(w AND bit64 n) = 0 \<longleftrightarrow> \<not> bit w n"
proof
  assume "(w AND bit64 n) = 0"
  then have "bit (w AND bit64 n) n = bit (0 :: u64) n" by simp
  with assms show "\<not> bit w n" by (simp add: bit_simps)
next
  assume "\<not> bit w n"
  then show "(w AND bit64 n) = 0"
    by (auto intro!: bit_word_eqI simp: bit_simps)
qed

lemma bit_or_bit64: "n < 64 \<Longrightarrow> bit (w OR bit64 n) i \<longleftrightarrow> bit w i \<or> i = n"
  by (auto simp: bit_simps)

lemma bit_and_not_bit64: "bit (w AND NOT (bit64 n)) i \<longleftrightarrow> bit w i \<and> i \<noteq> n"
  using bit_imp_le_length [of w i] by (auto simp: bit_simps)

lemma bit_xor_bit64: "n < 64 \<Longrightarrow> bit (w XOR bit64 n) i \<longleftrightarrow> (if i = n then \<not> bit w i else bit w i)"
  by (auto simp: bit_simps)

lemma word_all_ones_iff: "w = (- 1 :: u64) \<longleftrightarrow> (\<forall>i < 64. bit w i)"
  by (auto simp: bit_simps intro!: bit_word_eqI)

lemma bit_mask_word: "bit (mask n :: u64) i \<longleftrightarrow> i < n \<and> i < 64"
  by (auto simp: bit_simps)

section \<open>Lists\<close>

lemma takeWhile_dropWhile_split:
  "xs = takeWhile P xs @ dropWhile P xs"
  by simp

lemma distinct_hd_notin_tl: "distinct xs \<Longrightarrow> xs \<noteq> [] \<Longrightarrow> hd xs \<notin> set (tl xs)"
  by (cases xs) auto

lemma in_set_takeWhileD: "x \<in> set (takeWhile P xs) \<Longrightarrow> x \<in> set xs \<and> P x"
  by (auto dest: set_takeWhileD)

lemma sorted_wrt_insert_split:
  assumes "sorted_wrt (\<lambda>a b. f a \<le> (f b :: 'b :: linorder)) xs"
  shows "sorted_wrt (\<lambda>a b. f a \<le> f b)
           (takeWhile (\<lambda>y. f y < f x) xs @ x # dropWhile (\<lambda>y. f y < f x) xs)"
  using assms
proof (induction xs)
  case Nil
  then show ?case by simp
next
  case (Cons y ys)
  show ?case
  proof (cases "f y < f x")
    case True
    have "set (takeWhile (\<lambda>y. f y < f x) ys) \<union> set (dropWhile (\<lambda>y. f y < f x) ys) = set ys"
      by (metis set_append takeWhile_dropWhile_id)
    with True Cons show ?thesis by auto
  next
    case False
    with Cons.prems show ?thesis by auto
  qed
qed

lemma sorted_wrt_key_cong:
  "(\<And>x. x \<in> set xs \<Longrightarrow> f x = g x) \<Longrightarrow>
   sorted_wrt (\<lambda>a b. f a \<le> (f b :: 'b :: linorder)) xs = sorted_wrt (\<lambda>a b. g a \<le> g b) xs"
  by (induction xs) auto

lemma find_SomeD: "find P xs = Some x \<Longrightarrow> x \<in> set xs \<and> P x"
  by (induction xs) (auto split: if_splits)

lemma length_takeWhile_le: "k < length xs \<Longrightarrow> \<not> P (xs ! k) \<Longrightarrow> length (takeWhile P xs) \<le> k"
  by (metis linorder_not_le nth_mem set_takeWhileD takeWhile_nth)

section \<open>Words as numbers\<close>

lemma unat_of_nat_small: "n < 2 ^ 64 \<Longrightarrow> unat (word_of_nat n :: u64) = n"
  by (simp add: unat_of_nat)

lemma unat_pred_less: "(w :: 'a :: len word) \<noteq> 0 \<Longrightarrow> unat (w - 1) < unat w"
  using measure_unat by (simp add: measure_unat)

lemma unat_less_2p64: "unat (w :: u64) < 2 ^ 64"
  using unsigned_less [of w] by simp

lemma sint_nonneg_eq_unat:
  assumes "0 \<le> sint (w :: u64)"
  shows "sint w = int (unat w)"
proof -
  from assms have nb: "\<not> bit (uint w) 63"
    by (simp add: sint_uint signed_take_bit_nonnegative_iff del: bit_uint_iff)
  have "uint w = take_bit (Suc 63) (uint w)"
    using unsigned_less [of w] by (intro take_bit_int_eq_self [symmetric]) simp_all
  then have "uint w = take_bit 63 (uint w)"
    using nb by (simp only: take_bit_Suc_from_most) simp
  with nb show ?thesis
    by (simp add: sint_uint signed_take_bit_eq_if_positive)
qed

lemma int_sdiv_pos: "int m sdiv int k = int (m div k)"
  by (cases "m = 0"; cases "k = 0") (simp_all add: signed_divide_int_def zdiv_int)

lemma sint_of_int_small:
  "- (2 ^ 63) \<le> i \<Longrightarrow> i < 2 ^ 63 \<Longrightarrow> sint (word_of_int i :: u64) = i"
  by transfer (simp add: signed_take_bit_int_eq_self)

lemma unat_less_2p32: "unat (w :: u32) < 2 ^ 32"
  using unsigned_less [of w] by simp

lemma unat_ucast_32 [simp]: "unat (ucast (w :: u32) :: u64) = unat w"
  using unat_less_2p32 [of w] by (simp add: unsigned_ucast_eq take_bit_nat_eq_self)

section \<open>Little-endian bytes\<close>

definition byte_of :: "nat \<Rightarrow> u64 \<Rightarrow> u8" where
  "byte_of k w = ucast (drop_bit (8 * k) w)"

fun le_word :: "u8 list \<Rightarrow> u64" where
  "le_word [] = 0"
| "le_word (b # bs) = ucast b OR push_bit 8 (le_word bs)"

lemma bit_le_word: "bit (le_word bs) i \<longleftrightarrow> i < 64 \<and> i div 8 < length bs \<and> bit (bs ! (i div 8)) (i mod 8)"
proof (induction bs arbitrary: i)
  case Nil
  then show ?case by simp
next
  case (Cons b bs)
  show ?case
  proof (cases "i < 8")
    case True
    then show ?thesis by (simp add: bit_simps)
  next
    case False
    then obtain j where j: "i = j + 8" by (metis le_add_diff_inverse2 not_less)
    have d: "(j + 8) div 8 = Suc (j div 8)" by simp
    show ?thesis using Cons [of j] unfolding j by (auto simp add: bit_simps d impossible_bit)
  qed
qed

lemma le_word_bytes: "le_word (map (\<lambda>k. byte_of k w) [0..<n]) = take_bit (8 * n) w"
proof (rule bit_word_eqI)
  fix i
  assume i: "i < LENGTH(64)"
  have "8 * (i div 8) + i mod 8 = i" "i mod 8 < 8" by simp_all
  moreover have "i div 8 < n \<longleftrightarrow> i < 8 * n" by (simp add: div_less_iff_less_mult mult.commute)
  ultimately show "bit (le_word (map (\<lambda>k. byte_of k w) [0..<n])) i = bit (take_bit (8 * n) w) i"
    using i by (auto simp: bit_le_word byte_of_def bit_simps)
qed

end
