(* ===== verification/KList.thy ===== *)
theory KList
  imports Prelude "HOL-Library.Monad_Syntax"
begin

text \<open>
  The intrusive circular doubly linked list of \<open>src/lib.h\<close> (\<open>struct List\<close> and the
  functions \<open>list_init\<close> to \<open>list_next\<close>).  The task queues, wait queues, timer list,
  disk requests and slab rings are built on it.

  The two pointer fields of all list nodes form a split heap.  \<open>container_of\<close> converts
  between the address of a structure and the address of the list node inside it; the model
  identifies the two, so a node is named by the address of its structure.

  \<open>ring h a xs\<close> says that the node \<open>a\<close> is the head of a well-formed ring whose other
  nodes are, in forward order, \<open>xs\<close>.  The locale \<open>ring_list\<close> states the laws its clients
  use and the locale \<open>ring_walk\<close> the loop that looks for an insertion point; both are
  interpreted here on the code's operations.
\<close>

section \<open>The operations\<close>

record links =
  nxt :: "addr \<Rightarrow> addr"
  prv :: "addr \<Rightarrow> addr"

definition list_init :: "links \<Rightarrow> addr \<Rightarrow> links" where
  "list_init h l =
     (let h = h\<lparr>prv := (prv h)(l := l)\<rparr>
      in h\<lparr>nxt := (nxt h)(l := l)\<rparr>)"

definition list_add_to_behind :: "links \<Rightarrow> addr \<Rightarrow> addr \<Rightarrow> links" where
  "list_add_to_behind h entry new =
     (let h = h\<lparr>nxt := (nxt h)(new := nxt h entry)\<rparr>;
          h = h\<lparr>prv := (prv h)(new := entry)\<rparr>;
          h = h\<lparr>prv := (prv h)(nxt h new := new)\<rparr>
      in h\<lparr>nxt := (nxt h)(entry := new)\<rparr>)"

definition list_add_to_before :: "links \<Rightarrow> addr \<Rightarrow> addr \<Rightarrow> links" where
  "list_add_to_before h entry new =
     (let h = h\<lparr>nxt := (nxt h)(new := entry)\<rparr>;
          h = h\<lparr>nxt := (nxt h)(prv h entry := new)\<rparr>;
          h = h\<lparr>prv := (prv h)(new := prv h entry)\<rparr>
      in h\<lparr>prv := (prv h)(entry := new)\<rparr>)"

definition list_del :: "links \<Rightarrow> addr \<Rightarrow> links" where
  "list_del h entry =
     (let h = h\<lparr>prv := (prv h)(nxt h entry := prv h entry)\<rparr>
      in h\<lparr>nxt := (nxt h)(prv h entry := nxt h entry)\<rparr>)"

definition list_is_empty :: "links \<Rightarrow> addr \<Rightarrow> bool" where
  "list_is_empty h entry \<longleftrightarrow> entry = nxt h entry \<and> prv h entry = entry"

definition list_prev :: "links \<Rightarrow> addr \<Rightarrow> addr" where
  "list_prev h entry = (if prv h entry \<noteq> NULL then prv h entry else NULL)"

definition list_next :: "links \<Rightarrow> addr \<Rightarrow> addr" where
  "list_next h entry = (if nxt h entry \<noteq> NULL then nxt h entry else NULL)"

lemma list_next_eq [simp]: "list_next h e = nxt h e"
  by (simp add: list_next_def)

lemma list_prev_eq [simp]: "list_prev h e = prv h e"
  by (simp add: list_prev_def)

section \<open>Segments and rings\<close>

text \<open>\<open>dseg h a xs b\<close>: the nodes \<open>xs\<close> link \<open>a\<close> to \<open>b\<close> in both directions.\<close>

fun dseg :: "links \<Rightarrow> addr \<Rightarrow> addr list \<Rightarrow> addr \<Rightarrow> bool" where
  "dseg h a [] b \<longleftrightarrow> nxt h a = b \<and> prv h b = a"
| "dseg h a (x # xs) b \<longleftrightarrow> nxt h a = x \<and> prv h x = a \<and> dseg h x xs b"

definition ring :: "links \<Rightarrow> addr \<Rightarrow> addr list \<Rightarrow> bool" where
  "ring h a xs \<longleftrightarrow> distinct (a # xs) \<and> dseg h a xs a"

lemma dseg_append [simp]:
  "dseg h a (xs @ y # ys) b \<longleftrightarrow> dseg h a xs y \<and> dseg h y ys b"
  by (induction xs arbitrary: a) auto

lemma dseg_frame:
  assumes "\<And>p. p \<in> set (a # xs) \<Longrightarrow> nxt h' p = nxt h p"
    and "\<And>p. p \<in> set (xs @ [b]) \<Longrightarrow> prv h' p = prv h p"
  shows "dseg h' a xs b = dseg h a xs b"
  using assms by (induction xs arbitrary: a) auto

lemma dseg_snoc_prv: "dseg h a xs b \<Longrightarrow> prv h b = last (a # xs)"
  by (induction xs arbitrary: a) auto

lemma dseg_cons_nxt: "dseg h a xs b \<Longrightarrow> nxt h a = hd (xs @ [b])"
  by (cases xs) auto

lemma ring_distinct: "ring h a xs \<Longrightarrow> distinct (a # xs)"
  by (simp add: ring_def)

lemma ring_nxt_head: "ring h a xs \<Longrightarrow> nxt h a = hd (xs @ [a])"
  by (simp add: ring_def dseg_cons_nxt)

lemma ring_prv_head: "ring h a xs \<Longrightarrow> prv h a = last (a # xs)"
  unfolding ring_def using dseg_snoc_prv by blast

lemma ring_nxt_elem: "ring h a (xs @ y # ys) \<Longrightarrow> nxt h y = hd (ys @ [a])"
  by (auto simp: ring_def dest: dseg_cons_nxt)

lemma ring_unique: "ring h a xs \<Longrightarrow> ring h a ys \<Longrightarrow> xs = ys"
proof -
  have "dseg h p xs a \<Longrightarrow> dseg h p ys a \<Longrightarrow> a \<notin> set xs \<Longrightarrow> a \<notin> set ys \<Longrightarrow> xs = ys" for p
  proof (induction xs arbitrary: p ys)
    case Nil
    then show ?case by (cases ys) auto
  next
    case (Cons x xs)
    then show ?case by (cases ys) auto
  qed
  then show "ring h a xs \<Longrightarrow> ring h a ys \<Longrightarrow> xs = ys"
    by (auto simp: ring_def)
qed

section \<open>Each operation on a ring\<close>

lemmas list_ops [kernel_defs] =
  list_init_def list_add_to_behind_def list_add_to_before_def list_del_def Let_def

lemma list_init_ring: "ring (list_init h a) a []"
  by (simp add: ring_def kernel_defs)

lemma list_is_empty_ring: "ring h a xs \<Longrightarrow> list_is_empty h a \<longleftrightarrow> xs = []"
  by (cases xs) (auto simp: ring_def list_is_empty_def)

lemma behind_head:
  assumes "ring h a xs" and "new \<notin> set (a # xs)"
  shows "ring (list_add_to_behind h a new) a (new # xs)"
proof (cases xs)
  case Nil
  with assms show ?thesis by (auto simp: ring_def kernel_defs)
next
  case (Cons x ys)
  have "dseg (list_add_to_behind h a new) x ys a = dseg h x ys a"
    using assms Cons by (intro dseg_frame) (auto simp: ring_def kernel_defs)
  with assms Cons show ?thesis by (auto simp: ring_def kernel_defs)
qed

lemma behind_elem:
  assumes "ring h a (xs @ y # ys)" and "new \<notin> set (a # xs @ y # ys)"
  shows "ring (list_add_to_behind h y new) a (xs @ y # new # ys)"
proof -
  let ?h = "list_add_to_behind h y new"
  have front: "dseg ?h a xs y = dseg h a xs y"
    using assms by (intro dseg_frame; cases ys; auto simp: ring_def kernel_defs)
  have rear: "dseg ?h y (new # ys) a"
  proof (cases ys)
    case Nil
    with assms show ?thesis by (auto simp: ring_def kernel_defs)
  next
    case (Cons z zs)
    have "dseg ?h z zs a = dseg h z zs a"
      using assms Cons by (intro dseg_frame; auto simp: ring_def kernel_defs)
    with assms Cons show ?thesis by (auto simp: ring_def kernel_defs)
  qed
  from front rear assms show ?thesis by (auto simp: ring_def)
qed

lemma before_elem:
  assumes "ring h a (xs @ y # ys)" and "new \<notin> set (a # xs @ y # ys)"
  shows "ring (list_add_to_before h y new) a (xs @ new # y # ys)"
proof -
  let ?h = "list_add_to_before h y new"
  have pre: "prv h y = last (a # xs)"
    using assms(1) by (auto simp: ring_def dest: dseg_snoc_prv)
  have rear: "dseg ?h y ys a = dseg h y ys a"
    using assms pre by (intro dseg_frame; cases xs rule: rev_cases; auto simp: ring_def kernel_defs)
  have front: "dseg ?h a (xs @ [new]) y"
  proof (cases xs rule: rev_cases)
    case Nil
    with assms show ?thesis by (auto simp: ring_def kernel_defs)
  next
    case (snoc zs z)
    have "dseg ?h a zs z = dseg h a zs z"
      using assms snoc pre by (intro dseg_frame; auto simp: ring_def kernel_defs)
    with assms snoc show ?thesis by (auto simp: ring_def kernel_defs)
  qed
  from front rear assms show ?thesis by (auto simp: ring_def)
qed

lemma before_head:
  assumes "ring h a xs" and "new \<notin> set (a # xs)"
  shows "ring (list_add_to_before h a new) a (xs @ [new])"
proof (cases xs rule: rev_cases)
  case Nil
  with assms show ?thesis by (auto simp: ring_def kernel_defs)
next
  case (snoc ys y)
  have "dseg (list_add_to_before h a new) a ys y = dseg h a ys y"
    using assms snoc by (intro dseg_frame; auto simp: ring_def kernel_defs)
  with assms snoc show ?thesis by (auto simp: ring_def kernel_defs)
qed

lemma del_elem:
  assumes "ring h a (xs @ y # ys)"
  shows "ring (list_del h y) a (xs @ ys)"
proof -
  let ?h = "list_del h y"
  have p: "prv h y = last (a # xs)" and n: "nxt h y = hd (ys @ [a])"
    using assms by (auto simp: ring_def dest: dseg_snoc_prv dseg_cons_nxt)
  show ?thesis
  proof (cases xs rule: rev_cases)
    case Nil
    show ?thesis
    proof (cases ys)
      case Nil
      with \<open>xs = []\<close> assms show ?thesis by (auto simp: ring_def kernel_defs)
    next
      case (Cons z zs)
      have "dseg ?h z zs a = dseg h z zs a"
        using assms Cons Nil by (intro dseg_frame; auto simp: ring_def kernel_defs)
      with Cons \<open>xs = []\<close> assms show ?thesis by (auto simp: ring_def kernel_defs)
    qed
  next
    case (snoc us u)
    have front: "dseg ?h a us u = dseg h a us u"
      using assms snoc p n by (intro dseg_frame; cases ys; auto simp: ring_def kernel_defs)
    have rear: "dseg ?h u ys a"
    proof (cases ys)
      case Nil
      with snoc assms show ?thesis by (auto simp: ring_def kernel_defs)
    next
      case (Cons z zs)
      have "dseg ?h z zs a = dseg h z zs a"
        using assms Cons snoc by (intro dseg_frame; auto simp: ring_def kernel_defs)
      with Cons snoc assms show ?thesis by (auto simp: ring_def kernel_defs)
    qed
    from front rear snoc assms show ?thesis by (auto simp: ring_def)
  qed
qed

text \<open>An operation on one ring leaves every disjoint ring as it is.\<close>

lemma ring_frame:
  assumes "\<And>p. p \<in> set (b # zs) \<Longrightarrow> nxt h' p = nxt h p \<and> prv h' p = prv h p"
  shows "ring h' b zs = ring h b zs"
  unfolding ring_def using dseg_frame [of b zs h' h b] assms by auto

lemma ring_closed:
  assumes r: "ring h a xs" and p: "p \<in> set (a # xs)"
  shows "nxt h p \<in> set (a # xs)" and "prv h p \<in> set (a # xs)"
proof -
  have "nxt h p \<in> set (a # xs) \<and> prv h p \<in> set (a # xs)"
  proof (cases "p = a")
    case True
    with ring_nxt_head [OF r] ring_prv_head [OF r] show ?thesis
      by (cases xs) auto
  next
    case False
    with p obtain us vs where xs: "xs = us @ p # vs" by (auto dest: split_list)
    with r have "nxt h p = hd (vs @ [a])" and "prv h p = last (a # us)"
      by (auto simp: ring_def dest: dseg_cons_nxt dseg_snoc_prv)
    moreover have "hd (vs @ [a]) \<in> set (vs @ [a])" and "last (a # us) \<in> set (a # us)"
      by (rule hd_in_set, simp) (rule last_in_set, simp)
    ultimately show ?thesis unfolding xs by auto
  qed
  then show "nxt h p \<in> set (a # xs)" and "prv h p \<in> set (a # xs)" by simp_all
qed

lemma before_other:
  "p \<noteq> new \<Longrightarrow> p \<noteq> y \<Longrightarrow> p \<noteq> prv h y \<Longrightarrow>
   nxt (list_add_to_before h y new) p = nxt h p \<and> prv (list_add_to_before h y new) p = prv h p"
  by (simp add: kernel_defs)

lemma behind_other:
  "p \<noteq> new \<Longrightarrow> p \<noteq> y \<Longrightarrow> p \<noteq> nxt h y \<Longrightarrow>
   nxt (list_add_to_behind h y new) p = nxt h p \<and> prv (list_add_to_behind h y new) p = prv h p"
  by (auto simp add: kernel_defs)

lemma del_other:
  "p \<noteq> prv h y \<Longrightarrow> p \<noteq> nxt h y \<Longrightarrow> nxt h y \<noteq> y \<or> prv h y = y \<Longrightarrow>
   nxt (list_del h y) p = nxt h p \<and> prv (list_del h y) p = prv h p"
  by (auto simp add: kernel_defs)

lemma before_frame [frame_rules]:
  assumes "ring h a xs" and "y \<in> set (a # xs)" and b: "ring h b zs"
    and "set (b # zs) \<inter> set (a # xs) = {}" and "new \<notin> set (b # zs)"
  shows "ring (list_add_to_before h y new) b zs"
proof (rule iffD2 [OF ring_frame b])
  fix p assume "p \<in> set (b # zs)"
  with assms ring_closed(2) [OF assms(1,2)] have "p \<noteq> new \<and> p \<noteq> y \<and> p \<noteq> prv h y" by blast
  then show "nxt (list_add_to_before h y new) p = nxt h p \<and>
      prv (list_add_to_before h y new) p = prv h p" by (simp add: before_other)
qed

lemma behind_frame [frame_rules]:
  assumes "ring h a xs" and "y \<in> set (a # xs)" and b: "ring h b zs"
    and "set (b # zs) \<inter> set (a # xs) = {}" and "new \<notin> set (b # zs)"
  shows "ring (list_add_to_behind h y new) b zs"
proof (rule iffD2 [OF ring_frame b])
  fix p assume "p \<in> set (b # zs)"
  with assms ring_closed(1) [OF assms(1,2)] have "p \<noteq> new \<and> p \<noteq> y \<and> p \<noteq> nxt h y" by blast
  then show "nxt (list_add_to_behind h y new) p = nxt h p \<and>
      prv (list_add_to_behind h y new) p = prv h p" by (simp add: behind_other)
qed

lemma del_frame [frame_rules]:
  assumes r: "ring h a xs" and y: "y \<in> set xs" and b: "ring h b zs"
    and "set (b # zs) \<inter> set (a # xs) = {}"
  shows "ring (list_del h y) b zs"
proof (rule iffD2 [OF ring_frame b])
  fix p assume "p \<in> set (b # zs)"
  moreover from y have "y \<in> set (a # xs)" by simp
  ultimately have "p \<noteq> prv h y \<and> p \<noteq> nxt h y" using assms ring_closed [OF r] by blast
  moreover have "nxt h y \<noteq> y"
  proof -
    from y obtain us vs where xs: "xs = us @ y # vs" by (auto dest: split_list)
    with r ring_nxt_elem [of h a us y vs] ring_distinct [OF r] show ?thesis by (cases vs) auto
  qed
  ultimately show "nxt (list_del h y) p = nxt h p \<and> prv (list_del h y) p = prv h p"
    by (simp add: del_other)
qed

lemma init_frame [frame_rules]:
  assumes "ring h b zs" and "l \<notin> set (b # zs)"
  shows "ring (list_init h l) b zs"
  using assms by (subst ring_frame) (auto simp: kernel_defs)

section \<open>The interface its clients rely on\<close>

locale ring_list =
  fixes rep :: "'h \<Rightarrow> 'p \<Rightarrow> 'p list \<Rightarrow> bool"
    and init :: "'h \<Rightarrow> 'p \<Rightarrow> 'h"
    and before :: "'h \<Rightarrow> 'p \<Rightarrow> 'p \<Rightarrow> 'h"
    and behind :: "'h \<Rightarrow> 'p \<Rightarrow> 'p \<Rightarrow> 'h"
    and del :: "'h \<Rightarrow> 'p \<Rightarrow> 'h"
    and empty :: "'h \<Rightarrow> 'p \<Rightarrow> bool"
    and succ :: "'h \<Rightarrow> 'p \<Rightarrow> 'p"
  assumes rep_init: "rep (init h a) a []"
    and rep_distinct: "rep h a xs \<Longrightarrow> distinct (a # xs)"
    and rep_empty: "rep h a xs \<Longrightarrow> empty h a \<longleftrightarrow> xs = []"
    and rep_succ: "rep h a xs \<Longrightarrow> succ h a = hd (xs @ [a])"
    and rep_before_head: "rep h a xs \<Longrightarrow> new \<notin> set (a # xs) \<Longrightarrow> rep (before h a new) a (xs @ [new])"
    and rep_before: "rep h a (xs @ y # ys) \<Longrightarrow> new \<notin> set (a # xs @ y # ys) \<Longrightarrow>
      rep (before h y new) a (xs @ new # y # ys)"
    and rep_behind_head: "rep h a xs \<Longrightarrow> new \<notin> set (a # xs) \<Longrightarrow> rep (behind h a new) a (new # xs)"
    and rep_behind: "rep h a (xs @ y # ys) \<Longrightarrow> new \<notin> set (a # xs @ y # ys) \<Longrightarrow>
      rep (behind h y new) a (xs @ y # new # ys)"
    and rep_del: "rep h a (xs @ y # ys) \<Longrightarrow> rep (del h y) a (xs @ ys)"
begin

lemma insert_before_suffix:
  assumes "rep h a (us @ vs)" and "new \<notin> set (a # us @ vs)"
  shows "rep (before h (hd (vs @ [a])) new) a (us @ new # vs)"
proof (cases vs)
  case Nil
  with assms rep_before_head [of h a us new] show ?thesis by simp
next
  case (Cons v ws)
  with assms rep_before [of h a us v ws new] show ?thesis by simp
qed

lemma insert_behind_suffix:
  assumes "rep h a (us @ vs)" and "new \<notin> set (a # us @ vs)"
  shows "rep (behind h (hd (vs @ [a])) new) a
     (case vs of [] \<Rightarrow> new # us | v # ws \<Rightarrow> us @ v # new # ws)"
proof (cases vs)
  case Nil
  with assms rep_behind_head [of h a us new] show ?thesis by simp
next
  case (Cons v ws)
  with assms rep_behind [of h a us v ws new] show ?thesis by simp
qed

lemma pop_front:
  assumes "rep h a (x # xs)"
  shows "succ h a = x" and "rep (del h (succ h a)) a xs"
  using rep_succ [OF assms] rep_del [of h a "[]" x xs] assms by simp_all

lemma fifo:
  assumes "rep h a (x # xs)" and "new \<notin> set (a # x # xs)"
  shows "succ (before h a new) a = x"
    and "rep (del (before h a new) (succ (before h a new) a)) a (xs @ [new])"
  using pop_front [of "before h a new" a x "xs @ [new]"] rep_before_head [OF assms] by simp_all

lemma del_member:
  assumes "rep h a xs" and "y \<in> set xs"
  shows "rep (del h y) a (remove1 y xs)"
proof -
  from assms(2) obtain us vs where xs: "xs = us @ y # vs" and "y \<notin> set us"
    by (blast dest: split_list_first)
  with assms(1) rep_del [of h a us y vs] show ?thesis by (simp add: remove1_append)
qed

end

interpretation kl: ring_list ring list_init list_add_to_before list_add_to_behind list_del
  list_is_empty list_next
  by unfold_locales
    (auto simp: list_init_ring list_is_empty_ring ring_nxt_head before_head before_elem
      behind_head behind_elem del_elem dest: ring_distinct)

text \<open>
  The search loop \<open>while (small (tmp)) tmp = next (tmp);\<close> of the scheduler and of the timer
  list: over a chain that ends in a node that is not small it returns the first node of the
  chain that is not small.
\<close>

fun follows :: "('p \<Rightarrow> 'p) \<Rightarrow> 'p list \<Rightarrow> 'p \<Rightarrow> bool" where
  "follows f [] b \<longleftrightarrow> True"
| "follows f (x # xs) b \<longleftrightarrow> f x = hd (xs @ [b]) \<and> follows f xs b"

lemma dseg_follows: "dseg h a xs b \<Longrightarrow> follows (nxt h) xs b"
  by (induction xs arbitrary: a) (auto dest: dseg_cons_nxt)

lemma ring_follows: "ring h a xs \<Longrightarrow> follows (nxt h) xs a"
  by (auto simp: ring_def dest: dseg_follows)

locale ring_walk =
  fixes step :: "'p \<Rightarrow> 'p"
    and small :: "'p \<Rightarrow> bool"
    and walk :: "'p \<Rightarrow> 'p option"
  assumes walk_unfold: "walk p = (if small p then walk (step p) else Some p)"
begin

lemma walk_chain:
  "follows step xs b \<Longrightarrow> \<not> small b \<Longrightarrow> walk (hd (xs @ [b])) = Some (hd (dropWhile small xs @ [b]))"
proof (induction xs)
  case Nil
  then show ?case by (simp add: walk_unfold [of b])
next
  case (Cons x xs)
  then show ?case by (simp add: walk_unfold [of x])
qed

end

text \<open>
  The search loop \<open>do { if (hit (p)) return; p = next (p); } while (p != pool);\<close> of the object
  allocators, which starts at \<open>pool\<close> and visits every node of its ring once.
\<close>

locale ring_search =
  fixes step :: "'p \<Rightarrow> 'p"
    and hit :: "'p \<Rightarrow> bool"
    and pool :: 'p
    and found :: "'p \<Rightarrow> 'r"
    and missing :: 'r
    and search :: "'p \<Rightarrow> 'r"
  assumes search_unfold:
    "search p = (if hit p then found p else if step p \<noteq> pool then search (step p) else missing)"
begin

lemma search_suffix:
  "follows step (x # xs) pool \<Longrightarrow> pool \<notin> set xs \<Longrightarrow>
   search x = (case find hit (x # xs) of Some y \<Rightarrow> found y | None \<Rightarrow> missing)"
proof (induction xs arbitrary: x)
  case Nil
  then show ?case by (simp add: search_unfold [of x])
next
  case (Cons y ys)
  then have "search y = (case find hit (y # ys) of Some z \<Rightarrow> found z | None \<Rightarrow> missing)" by simp
  moreover have "step x = y" "y \<noteq> pool" using Cons.prems by auto
  ultimately show ?case by (simp add: search_unfold [of x])
qed

end

lemma ring_follows_head: "ring h a xs \<Longrightarrow> follows (nxt h) (a # xs) a"
  by (simp add: ring_follows ring_nxt_head)

end
