(* ===== verification/Schedule.thy ===== *)
theory Schedule
  imports KList
begin

text \<open>
  The run queues of \<open>src/schedule.c\<close>, the wait queues and semaphores of
  \<open>src/semaphore.h\<close>, and the two timer interrupts that account run time
  (\<open>HPET_handler\<close> in \<open>src/HPET.c\<close>, \<open>IPI_0x200\<close> in \<open>src/SMP.c\<close>).

  A task is named by the address of its \<open>task_struct\<close>; the wait queue entries and queue heads
  by the address of their \<open>wait_queue_T\<close>.  The state is that of one processor:
  \<open>cur\<close> is its \<open>current\<close> pointer.  The context switch macros \<open>switch_mm\<close> and
  \<open>switch_to\<close> become the update of \<open>cr3\<close> and \<open>cur\<close>.
\<close>

section \<open>State\<close>

record task =
  ts_state :: u64
  ts_flags :: u64
  ts_cpu_id :: nat
  ts_pgd :: addr
  ts_pid :: int
  ts_priority :: int
  ts_vrun_time :: u64

record sched =
  running_task_count :: int
  CPU_exec_task_jiffies :: int
  task_queue :: addr

record ksched =
  lnk :: links
  tsk :: "addr \<Rightarrow> task"
  task_schedule :: "nat \<Rightarrow> sched"
  init_task :: "nat \<Rightarrow> addr"
  wait_tsk :: "addr \<Rightarrow> addr"
  cur :: addr
  cr3 :: addr

definition TASK_RUNNING :: u64 where "TASK_RUNNING = 1"
definition TASK_INTERRUPTIBLE :: u64 where "TASK_INTERRUPTIBLE = 2"
definition TASK_UNINTERRUPTIBLE :: u64 where "TASK_UNINTERRUPTIBLE = 4"
definition TASK_ZOMBIE :: u64 where "TASK_ZOMBIE = 8"
definition NEED_SCHEDULE :: u64 where "NEED_SCHEDULE = 2"
definition NR_CPUS :: nat where "NR_CPUS = 8"

lemmas task_consts = TASK_RUNNING_def TASK_INTERRUPTIBLE_def TASK_UNINTERRUPTIBLE_def
  TASK_ZOMBIE_def NEED_SCHEDULE_def NR_CPUS_def

lemma sleeping_not_running [simp]:
  "TASK_UNINTERRUPTIBLE \<noteq> TASK_RUNNING" "TASK_INTERRUPTIBLE \<noteq> TASK_RUNNING"
  by (simp_all add: task_consts)

text \<open>\<open>SMP_cpu_id()\<close> reads the processor number from the current task.\<close>

definition SMP_cpu_id :: "ksched \<Rightarrow> nat" where
  "SMP_cpu_id s = ts_cpu_id (tsk s (cur s))"

definition upd_task :: "addr \<Rightarrow> (task \<Rightarrow> task) \<Rightarrow> ksched \<Rightarrow> ksched" where
  "upd_task t f s = s\<lparr>tsk := (tsk s)(t := f (tsk s t))\<rparr>"

definition upd_sched :: "nat \<Rightarrow> (sched \<Rightarrow> sched) \<Rightarrow> ksched \<Rightarrow> ksched" where
  "upd_sched c f s = s\<lparr>task_schedule := (task_schedule s)(c := f (task_schedule s c))\<rparr>"

section \<open>The run queue\<close>

definition get_next_task :: "ksched \<Rightarrow> addr \<times> ksched" where
  "get_next_task s =
     (let c = SMP_cpu_id s; q = task_queue (task_schedule s c)
      in if list_is_empty (lnk s) q then (init_task s c, s)
         else let t = list_next (lnk s) q;
                  s = s\<lparr>lnk := list_del (lnk s) t\<rparr>;
                  s = upd_sched c (\<lambda>r. r\<lparr>running_task_count := running_task_count r - 1\<rparr>) s
              in (t, s))"

text \<open>The loop \<open>while(tmp->vrun_time < tsk->vrun_time)\<close>; the comparison is signed.\<close>

partial_function (option) insert_walk :: "ksched \<Rightarrow> addr \<Rightarrow> addr \<Rightarrow> addr option" where
  "insert_walk s t tmp =
     (if sint (ts_vrun_time (tsk s tmp)) < sint (ts_vrun_time (tsk s t))
      then insert_walk s t (list_next (lnk s) tmp) else Some tmp)"

definition insert_task_queue :: "ksched \<Rightarrow> addr \<Rightarrow> ksched option" where
  "insert_task_queue s t =
     (let c = SMP_cpu_id s; q = task_queue (task_schedule s c)
      in if t = init_task s c then Some s
         else do {
           tmp \<leftarrow> (if list_is_empty (lnk s) q then Some (list_next (lnk s) q)
                   else insert_walk s t (list_next (lnk s) q));
           let s = s\<lparr>lnk := list_add_to_before (lnk s) tmp t\<rparr>;
           Some (upd_sched c (\<lambda>r. r\<lparr>running_task_count := running_task_count r + 1\<rparr>) s)
         })"

text \<open>
  The refill of the time slice.  \<open>None\<close> is the divide fault of \<open>4/running_task_count\<close>.
\<close>

definition refill_slice :: "nat \<Rightarrow> addr \<Rightarrow> ksched \<Rightarrow> ksched option" where
  "refill_slice c t s =
     (let r = task_schedule s c
      in if CPU_exec_task_jiffies r \<noteq> 0 then Some s
         else if running_task_count r = 0 then None
         else let q = 4 sdiv running_task_count r;
                  j = (if ts_priority (tsk s t) = 0 \<or> ts_priority (tsk s t) = 1 then q else q * 3)
              in Some (upd_sched c (\<lambda>r. r\<lparr>CPU_exec_task_jiffies := j\<rparr>) s))"

definition switch_mm :: "addr \<Rightarrow> ksched \<Rightarrow> ksched" where
  "switch_mm next s = s\<lparr>cr3 := ts_pgd (tsk s next)\<rparr>"

definition switch_to :: "addr \<Rightarrow> ksched \<Rightarrow> ksched" where
  "switch_to next s = s\<lparr>cur := next\<rparr>"

definition schedule :: "ksched \<Rightarrow> ksched option" where
  "schedule s =
     (let c = SMP_cpu_id s;
          s = upd_task (cur s) (\<lambda>k. k\<lparr>ts_flags := ts_flags k AND NOT NEED_SCHEDULE\<rparr>) s;
          (t, s) = get_next_task s;
          me = tsk s (cur s)
      in if sint (ts_vrun_time me) \<ge> sint (ts_vrun_time (tsk s t)) \<or> ts_state me \<noteq> TASK_RUNNING
         then do {
           s \<leftarrow> (if ts_state me = TASK_RUNNING then insert_task_queue s (cur s) else Some s);
           s \<leftarrow> refill_slice c t s;
           Some (switch_to t (switch_mm t s))
         }
         else do {
           s \<leftarrow> insert_task_queue s t;
           refill_slice c t s
         })"

text \<open>\<open>schedule_init\<close>; the loop over the \<open>NR_CPUS\<close> processors.\<close>

definition schedule_init_one :: "nat \<Rightarrow> ksched \<Rightarrow> ksched" where
  "schedule_init_one i s =
     (let q = task_queue (task_schedule s i);
          s = s\<lparr>lnk := list_init (lnk s) q\<rparr>;
          s = upd_task q (\<lambda>k. k\<lparr>ts_vrun_time := 0x7fffffffffffffff\<rparr>) s
      in upd_sched i (\<lambda>r. r\<lparr>running_task_count := 1, CPU_exec_task_jiffies := 4\<rparr>) s)"

definition zero_task :: task where
  "zero_task = \<lparr>ts_state = 0, ts_flags = 0, ts_cpu_id = 0, ts_pgd = 0, ts_pid = 0,
     ts_priority = 0, ts_vrun_time = 0\<rparr>"

definition schedule_init :: "ksched \<Rightarrow> ksched" where
  "schedule_init s =
     (let s = fold (\<lambda>i s. upd_task (task_queue (task_schedule s i)) (\<lambda>_. zero_task) s) [0..<NR_CPUS] s
      in fold schedule_init_one [0..<NR_CPUS] s)"

section \<open>The timer interrupts\<close>

text \<open>The accounting part shared, line for line, by \<open>HPET_handler\<close> and \<open>IPI_0x200\<close>.\<close>

definition account_tick :: "ksched \<Rightarrow> ksched" where
  "account_tick s =
     (let c = SMP_cpu_id s; p = ts_priority (tsk s (cur s));
          n = (if p = 0 \<or> p = 1 then 1 else 2 :: nat);
          s = upd_sched c (\<lambda>r. r\<lparr>CPU_exec_task_jiffies := CPU_exec_task_jiffies r - int n\<rparr>) s;
          s = upd_task (cur s) (\<lambda>k. k\<lparr>ts_vrun_time := ts_vrun_time k + of_nat n\<rparr>) s
      in if CPU_exec_task_jiffies (task_schedule s c) \<le> 0
         then upd_task (cur s) (\<lambda>k. k\<lparr>ts_flags := ts_flags k OR NEED_SCHEDULE\<rparr>) s
         else s)"

definition IPI_0x200 :: "ksched \<Rightarrow> ksched" where
  "IPI_0x200 s = account_tick s"

section \<open>Wait queues and semaphores\<close>

definition wait_queue_init :: "addr \<Rightarrow> addr \<Rightarrow> ksched \<Rightarrow> ksched" where
  "wait_queue_init w t s = s\<lparr>lnk := list_init (lnk s) w, wait_tsk := (wait_tsk s)(w := t)\<rparr>"

text \<open>
  \<open>sleep_on\<close>, \<open>interruptible_sleep_on\<close> and \<open>__down\<close> put an entry that lives on the
  kernel stack of the sleeping task into the queue; its address is the parameter \<open>w\<close>.
\<close>

definition sleep_enqueue :: "addr \<Rightarrow> addr \<Rightarrow> u64 \<Rightarrow> ksched \<Rightarrow> ksched" where
  "sleep_enqueue w head st s =
     (let s = wait_queue_init w (cur s) s;
          s = upd_task (cur s) (\<lambda>k. k\<lparr>ts_state := st\<rparr>) s
      in s\<lparr>lnk := list_add_to_before (lnk s) head w\<rparr>)"

definition sleep_on :: "addr \<Rightarrow> addr \<Rightarrow> ksched \<Rightarrow> ksched option" where
  "sleep_on w head s = schedule (sleep_enqueue w head TASK_UNINTERRUPTIBLE s)"

definition interruptible_sleep_on :: "addr \<Rightarrow> addr \<Rightarrow> ksched \<Rightarrow> ksched option" where
  "interruptible_sleep_on w head s = schedule (sleep_enqueue w head TASK_INTERRUPTIBLE s)"

definition wakeup_process :: "addr \<Rightarrow> ksched \<Rightarrow> ksched option" where
  "wakeup_process t s = do {
     let s = upd_task t (\<lambda>k. k\<lparr>ts_state := TASK_RUNNING\<rparr>) s;
     s \<leftarrow> insert_task_queue s t;
     Some (upd_task (cur s) (\<lambda>k. k\<lparr>ts_flags := ts_flags k OR NEED_SCHEDULE\<rparr>) s)
   }"

definition wakeup :: "addr \<Rightarrow> u64 \<Rightarrow> ksched \<Rightarrow> ksched option" where
  "wakeup head st s =
     (if list_is_empty (lnk s) head then Some s
      else let w = list_next (lnk s) head
           in if ts_state (tsk s (wait_tsk s w)) AND st \<noteq> 0
              then wakeup_process (wait_tsk s w) (s\<lparr>lnk := list_del (lnk s) w\<rparr>)
              else Some s)"

record semaphore =
  counter :: int
  wait :: addr

definition semaphore_init :: "addr \<Rightarrow> int \<Rightarrow> ksched \<Rightarrow> semaphore \<times> ksched" where
  "semaphore_init w n s = (\<lparr>counter = n, wait = w\<rparr>, wait_queue_init w NULL s)"

definition up_wait :: "semaphore \<Rightarrow> ksched \<Rightarrow> ksched option" where
  "up_wait m s =
     (let w = list_next (lnk s) (wait m);
          s = s\<lparr>lnk := list_del (lnk s) w\<rparr>;
          s = upd_task (wait_tsk s w) (\<lambda>k. k\<lparr>ts_state := TASK_RUNNING\<rparr>) s
      in do {
        s \<leftarrow> insert_task_queue s (wait_tsk s w);
        Some (upd_task (cur s) (\<lambda>k. k\<lparr>ts_flags := ts_flags k OR NEED_SCHEDULE\<rparr>) s)
      })"

definition semaphore_up :: "semaphore \<Rightarrow> ksched \<Rightarrow> (semaphore \<times> ksched) option" where
  "semaphore_up m s =
     (if list_is_empty (lnk s) (wait m) then Some (m\<lparr>counter := counter m + 1\<rparr>, s)
      else do { s \<leftarrow> up_wait m s; Some (m, s) })"

definition semaphore_down :: "addr \<Rightarrow> semaphore \<Rightarrow> ksched \<Rightarrow> (semaphore \<times> ksched) option" where
  "semaphore_down w m s =
     (if counter m > 0 then Some (m\<lparr>counter := counter m - 1\<rparr>, s)
      else do { s \<leftarrow> schedule (sleep_enqueue w (wait m) TASK_UNINTERRUPTIBLE s); Some (m, s) })"

section \<open>The run queue invariant\<close>

abbreviation vrt :: "ksched \<Rightarrow> addr \<Rightarrow> int" where
  "vrt s t \<equiv> sint (ts_vrun_time (tsk s t))"

abbreviation rqhead :: "ksched \<Rightarrow> nat \<Rightarrow> addr" where
  "rqhead s c \<equiv> task_queue (task_schedule s c)"

text \<open>
  \<open>runq s c xs\<close>: the queue of processor \<open>c\<close> holds the tasks \<open>xs\<close>, in order of their run
  time; the queue head carries the largest \<open>long\<close>; the idle task is never queued; and the count
  is one more than the length of the queue (\<open>schedule_init\<close> counts the running task).
\<close>

definition runq :: "ksched \<Rightarrow> nat \<Rightarrow> addr list \<Rightarrow> bool" where
  "runq s c xs \<longleftrightarrow>
     ring (lnk s) (rqhead s c) xs \<and>
     sorted_wrt (\<lambda>a b. vrt s a \<le> vrt s b) xs \<and>
     ts_vrun_time (tsk s (rqhead s c)) = 0x7fffffffffffffff \<and>
     init_task s c \<notin> set xs \<and>
     running_task_count (task_schedule s c) = 1 + int (length xs)"

text \<open>The abstract queue: insertion in front of the first task that has not run less.\<close>

definition rq_insert :: "('a \<Rightarrow> int) \<Rightarrow> 'a \<Rightarrow> 'a list \<Rightarrow> 'a list" where
  "rq_insert key t xs =
     takeWhile (\<lambda>y. key y < key t) xs @ t # dropWhile (\<lambda>y. key y < key t) xs"

lemma set_rq_insert [simp]: "set (rq_insert key t xs) = insert t (set xs)"
  unfolding rq_insert_def
  by (metis Un_insert_right list.simps(15) set_append takeWhile_dropWhile_id)

lemma length_rq_insert [simp]: "length (rq_insert key t xs) = Suc (length xs)"
proof -
  have "length (takeWhile P xs) + length (dropWhile P xs) = length xs" for P
    by (metis length_append takeWhile_dropWhile_id)
  then show ?thesis by (simp add: rq_insert_def)
qed

lemma sorted_rq_insert:
  "sorted_wrt (\<lambda>a b. key a \<le> key b) xs \<Longrightarrow> sorted_wrt (\<lambda>a b. key a \<le> key b) (rq_insert key t xs)"
  unfolding rq_insert_def by (rule sorted_wrt_insert_split)

lemma rq_insert_min:
  "sorted_wrt (\<lambda>a b. key a \<le> key b) (x # xs) \<Longrightarrow> rq_insert key x xs = x # xs"
  by (cases xs) (auto simp: rq_insert_def)

lemma sint_le_long_max: "sint (w :: u64) \<le> sint (0x7fffffffffffffff :: u64)"
  using sint_lt [of w] by simp

interpretation sw: ring_walk "nxt (lnk s)"
  "\<lambda>p. sint (ts_vrun_time (tsk s p)) < sint (ts_vrun_time (tsk s t))" "insert_walk s t" for s t
  by unfold_locales (subst insert_walk.simps, simp)

lemma insert_point:
  assumes "runq s c xs"
  shows "(if list_is_empty (lnk s) (rqhead s c) then Some (list_next (lnk s) (rqhead s c))
          else insert_walk s t (list_next (lnk s) (rqhead s c))) =
         Some (hd (dropWhile (\<lambda>y. vrt s y < vrt s t) xs @ [rqhead s c]))"
proof -
  let ?q = "rqhead s c"
  from assms have r: "ring (lnk s) ?q xs" and m: "ts_vrun_time (tsk s ?q) = 0x7fffffffffffffff"
    by (auto simp: runq_def)
  have "\<not> vrt s ?q < vrt s t"
    unfolding m using sint_le_long_max [of "ts_vrun_time (tsk s t)"] by (rule leD)
  with sw.walk_chain [OF ring_follows [OF r]]
  have "insert_walk s t (hd (xs @ [?q])) =
      Some (hd (dropWhile (\<lambda>y. vrt s y < vrt s t) xs @ [?q]))" by blast
  with kl.rep_succ [OF r] kl.rep_empty [OF r] show ?thesis by auto
qed

text \<open>What the queue operations leave alone: tasks, wait entries, the running task, the heads.\<close>

definition same_tasks :: "ksched \<Rightarrow> ksched \<Rightarrow> bool" where
  "same_tasks s s' \<longleftrightarrow> tsk s' = tsk s \<and> cur s' = cur s \<and> init_task s' = init_task s \<and>
     wait_tsk s' = wait_tsk s \<and> cr3 s' = cr3 s \<and> (\<forall>c. rqhead s' c = rqhead s c)"

lemma same_tasksD:
  assumes "same_tasks s s'"
  shows "tsk s' = tsk s" "cur s' = cur s" "init_task s' = init_task s"
    "wait_tsk s' = wait_tsk s" "rqhead s' c = rqhead s c" "SMP_cpu_id s' = SMP_cpu_id s"
    "cr3 s' = cr3 s"
  using assms by (auto simp: same_tasks_def SMP_cpu_id_def)

lemma same_tasks_refl [simp]: "same_tasks s s"
  by (simp add: same_tasks_def)

lemma same_tasks_trans: "same_tasks s s' \<Longrightarrow> same_tasks s' s'' \<Longrightarrow> same_tasks s s''"
  by (simp add: same_tasks_def)

text \<open>Every ring that avoids the nodes \<open>N\<close> is kept.\<close>

definition same_rings :: "addr set \<Rightarrow> ksched \<Rightarrow> ksched \<Rightarrow> bool" where
  "same_rings N s s' \<longleftrightarrow>
     (\<forall>b zs. set (b # zs) \<inter> N = {} \<longrightarrow> ring (lnk s) b zs \<longrightarrow> ring (lnk s') b zs)"

lemma same_rings_lnk: "lnk s' = lnk s \<Longrightarrow> same_rings N s s'"
  by (simp add: same_rings_def)

lemma same_rings_cong:
  "lnk r = lnk r' \<Longrightarrow> lnk s = lnk s' \<Longrightarrow> same_rings N r s = same_rings N r' s'"
  by (simp add: same_rings_def)

lemma same_rings_trans:
  assumes "same_rings N s s'" and "same_rings M s' s''" and "N \<union> M \<subseteq> K"
  shows "same_rings K s s''"
  unfolding same_rings_def
proof (intro allI impI)
  fix b zs assume "set (b # zs) \<inter> K = {}" and r: "ring (lnk s) b zs"
  with assms(3) have "set (b # zs) \<inter> N = {}" "set (b # zs) \<inter> M = {}" by blast+
  with r assms(1,2) show "ring (lnk s'') b zs" unfolding same_rings_def by blast
qed

lemma same_ringsD:
  "same_rings N s s' \<Longrightarrow> ring (lnk s) b zs \<Longrightarrow> set (b # zs) \<inter> N = {} \<Longrightarrow> ring (lnk s') b zs"
  by (simp add: same_rings_def)

lemma insert_task_queue_refines:
  assumes q: "runq s (SMP_cpu_id s) xs"
    and new: "t \<noteq> rqhead s (SMP_cpu_id s)" "t \<notin> set xs"
  obtains s' where "insert_task_queue s t = Some s'"
    and "runq s' (SMP_cpu_id s)
      (if t = init_task s (SMP_cpu_id s) then xs else rq_insert (vrt s) t xs)"
    and "same_tasks s s'" and "same_rings (insert t (set (rqhead s (SMP_cpu_id s) # xs))) s s'"
proof (cases "t = init_task s (SMP_cpu_id s)")
  case True
  with q show thesis
    by (intro that [of s]) (simp_all add: insert_task_queue_def same_rings_def)
next
  case False
  let ?c = "SMP_cpu_id s" and ?q = "rqhead s (SMP_cpu_id s)"
  let ?us = "takeWhile (\<lambda>y. vrt s y < vrt s t) xs" and ?vs = "dropWhile (\<lambda>y. vrt s y < vrt s t) xs"
  let ?s' = "upd_sched ?c (\<lambda>r. r\<lparr>running_task_count := running_task_count r + 1\<rparr>)
    (s\<lparr>lnk := list_add_to_before (lnk s) (hd (?vs @ [?q])) t\<rparr>)"
  have r: "ring (lnk s) ?q (?us @ ?vs)" using q by (simp add: runq_def)
  have "set (?us @ ?vs) = set xs" by simp
  with new have n: "t \<notin> set (?q # ?us @ ?vs)" by simp
  have ring': "ring (list_add_to_before (lnk s) (hd (?vs @ [?q])) t) ?q (rq_insert (vrt s) t xs)"
    using kl.insert_before_suffix [OF r n] by (simp add: rq_insert_def)
  have "insert_task_queue s t = Some ?s'"
    unfolding insert_task_queue_def Let_def insert_point [OF q] using False by simp
  moreover have "runq ?s' ?c (rq_insert (vrt s) t xs)"
    using q ring' False by (auto simp: runq_def upd_sched_def sorted_rq_insert)
  moreover have "hd (?vs @ [?q]) \<in> set (?vs @ [?q])" by (rule hd_in_set) simp
  then have "hd (?vs @ [?q]) \<in> set (?q # xs)" by (auto dest: set_dropWhileD)
  then have "same_rings (insert t (set (?q # xs))) s ?s'"
    using r n by (auto simp: same_rings_def upd_sched_def intro!: before_frame [of _ ?q xs])
  ultimately show thesis using False
    by (intro that [of ?s']) (simp_all add: upd_sched_def same_tasks_def)
qed

lemma get_next_task_empty:
  "runq s (SMP_cpu_id s) [] \<Longrightarrow> get_next_task s = (init_task s (SMP_cpu_id s), s)"
  using kl.rep_empty by (auto simp add: get_next_task_def runq_def Let_def)

lemma get_next_task_refines:
  assumes "runq s (SMP_cpu_id s) (x # xs)"
  obtains s' where "get_next_task s = (x, s')" and "runq s' (SMP_cpu_id s) xs"
    and "same_tasks s s'" and "same_rings (set (rqhead s (SMP_cpu_id s) # x # xs)) s s'"
proof -
  let ?c = "SMP_cpu_id s"
  let ?s' = "upd_sched ?c (\<lambda>r. r\<lparr>running_task_count := running_task_count r - 1\<rparr>)
    (s\<lparr>lnk := list_del (lnk s) x\<rparr>)"
  from assms have r: "ring (lnk s) (rqhead s ?c) (x # xs)" by (simp add: runq_def)
  from kl.pop_front [OF r] kl.rep_empty [OF r]
  have g: "get_next_task s = (x, ?s')" by (simp add: get_next_task_def Let_def)
  have "runq ?s' ?c xs"
    using assms kl.pop_front [OF r] by (auto simp: runq_def upd_sched_def)
  moreover have "same_rings (set (rqhead s ?c # x # xs)) s ?s'"
    using r by (auto simp: same_rings_def upd_sched_def intro!: del_frame [of _ "rqhead s ?c" "x # xs"])
  ultimately show thesis using g
    by (intro that [of ?s']) (simp_all add: upd_sched_def same_tasks_def)
qed

section \<open>The scheduler\<close>

text \<open>
  Well-formedness of a processor's scheduling state: the queue invariant, the running task is not
  queued, and all its tasks carry the number of this processor.
\<close>

definition sched_wf :: "ksched \<Rightarrow> addr list \<Rightarrow> bool" where
  "sched_wf s xs \<longleftrightarrow>
     (let c = SMP_cpu_id s; q = rqhead s c
      in runq s c xs \<and> cur s \<notin> set xs \<and> cur s \<noteq> q \<and> init_task s c \<noteq> q \<and>
         ts_cpu_id (tsk s (init_task s c)) = c \<and> (\<forall>t \<in> set xs. ts_cpu_id (tsk s t) = c))"

text \<open>What \<open>schedule\<close> is meant to do, on the abstract queue.\<close>

definition sched_pick :: "addr \<Rightarrow> addr list \<Rightarrow> addr \<times> addr list" where
  "sched_pick idle xs = (case xs of [] \<Rightarrow> (idle, []) | x # ys \<Rightarrow> (x, ys))"

definition sched_spec :: "(addr \<Rightarrow> int) \<Rightarrow> addr \<Rightarrow> addr \<Rightarrow> bool \<Rightarrow> addr list \<Rightarrow> addr \<times> addr list" where
  "sched_spec key idle me running xs =
     (let (t, ys) = sched_pick idle xs
      in if \<not> running then (t, ys)
         else if key t \<le> key me then (t, if me = idle then ys else rq_insert key me ys)
         else (me, xs))"

lemma refill_slice_frame:
  assumes "running_task_count (task_schedule s c) \<noteq> 0"
  obtains j where "refill_slice c t s = Some (upd_sched c (\<lambda>r. r\<lparr>CPU_exec_task_jiffies := j\<rparr>) s)"
proof (cases "CPU_exec_task_jiffies (task_schedule s c) = 0")
  case True
  with assms show thesis by (auto simp: refill_slice_def Let_def intro!: that)
next
  case False
  then have "refill_slice c t s = Some s" by (simp add: refill_slice_def Let_def)
  moreover have "upd_sched c (\<lambda>r. r\<lparr>CPU_exec_task_jiffies :=
      CPU_exec_task_jiffies (task_schedule s c)\<rparr>) s = s"
    by (simp add: upd_sched_def)
  ultimately show thesis
    by (intro that [of "CPU_exec_task_jiffies (task_schedule s c)"]) simp
qed

lemma runq_upd_jiffies [simp]:
  "runq (upd_sched c (\<lambda>r. r\<lparr>CPU_exec_task_jiffies := j\<rparr>) s) d xs = runq s d xs"
  by (auto simp: runq_def upd_sched_def)

lemma runq_switch [simp]:
  "runq (switch_to t (switch_mm t s)) c xs = runq s c xs"
  by (simp add: runq_def switch_to_def switch_mm_def)

lemma upd_task_frame [simp]:
  "cur (upd_task t g s) = cur s" "init_task (upd_task t g s) = init_task s"
  "lnk (upd_task t g s) = lnk s" "task_schedule (upd_task t g s) = task_schedule s"
  "wait_tsk (upd_task t g s) = wait_tsk s" "cr3 (upd_task t g s) = cr3 s"
  by (simp_all add: upd_task_def)

lemma upd_flags_task [simp]:
  "ts_vrun_time (tsk (upd_task t (\<lambda>k. k\<lparr>ts_flags := f k\<rparr>) s) u) = ts_vrun_time (tsk s u)"
  "ts_state (tsk (upd_task t (\<lambda>k. k\<lparr>ts_flags := f k\<rparr>) s) u) = ts_state (tsk s u)"
  "ts_cpu_id (tsk (upd_task t (\<lambda>k. k\<lparr>ts_flags := f k\<rparr>) s) u) = ts_cpu_id (tsk s u)"
  by (simp_all add: upd_task_def)

lemma upd_state_task [simp]:
  "ts_vrun_time (tsk (upd_task t (\<lambda>k. k\<lparr>ts_state := v\<rparr>) s) u) = ts_vrun_time (tsk s u)"
  "ts_cpu_id (tsk (upd_task t (\<lambda>k. k\<lparr>ts_state := v\<rparr>) s) u) = ts_cpu_id (tsk s u)"
  by (simp_all add: upd_task_def)

lemma SMP_cpu_id_upd [simp]:
  "SMP_cpu_id (upd_task t (\<lambda>k. k\<lparr>ts_flags := f k\<rparr>) s) = SMP_cpu_id s"
  "SMP_cpu_id (upd_task t (\<lambda>k. k\<lparr>ts_state := v\<rparr>) s) = SMP_cpu_id s"
  by (simp_all add: SMP_cpu_id_def)

lemma runq_upd_flags [simp]:
  "runq (upd_task t (\<lambda>k. k\<lparr>ts_flags := f k\<rparr>) s) c xs = runq s c xs"
  "runq (upd_task t (\<lambda>k. k\<lparr>ts_state := v\<rparr>) s) c xs = runq s c xs"
  by (simp_all add: runq_def)

lemma get_next_task_pick:
  assumes "runq s (SMP_cpu_id s) xs"
  obtains s' where
    "get_next_task s = (fst (sched_pick (init_task s (SMP_cpu_id s)) xs), s')"
    and "runq s' (SMP_cpu_id s) (snd (sched_pick (init_task s (SMP_cpu_id s)) xs))"
    and "same_tasks s s'" and "same_rings (set (rqhead s (SMP_cpu_id s) # xs)) s s'"
proof (cases xs)
  case Nil
  with assms get_next_task_empty [of s] show thesis
    by (intro that [of s]) (simp_all add: sched_pick_def same_rings_def)
next
  case (Cons x ys)
  with assms have "runq s (SMP_cpu_id s) (x # ys)" by simp
  then obtain s' where "get_next_task s = (x, s')" and "runq s' (SMP_cpu_id s) ys"
    and "same_tasks s s'" and "same_rings (set (rqhead s (SMP_cpu_id s) # x # ys)) s s'"
    by (rule get_next_task_refines)
  with Cons show thesis by (intro that [of s']) (simp_all add: sched_pick_def)
qed

lemma refill_slice_runq:
  assumes "runq s c xs"
  obtains s' where "refill_slice c t s = Some s'" and "runq s' c xs" and "same_tasks s s'"
    and "lnk s' = lnk s"
proof -
  from assms have "running_task_count (task_schedule s c) \<noteq> 0" by (simp add: runq_def)
  then obtain j where
    "refill_slice c t s = Some (upd_sched c (\<lambda>r. r\<lparr>CPU_exec_task_jiffies := j\<rparr>) s)"
    by (rule refill_slice_frame)
  moreover have "same_tasks s (upd_sched c (\<lambda>r. r\<lparr>CPU_exec_task_jiffies := j\<rparr>) s)"
    and "lnk (upd_sched c (\<lambda>r. r\<lparr>CPU_exec_task_jiffies := j\<rparr>) s) = lnk s"
    by (simp_all add: upd_sched_def same_tasks_def)
  ultimately show thesis using assms
    by (intro that [of "upd_sched c (\<lambda>r. r\<lparr>CPU_exec_task_jiffies := j\<rparr>) s"]) simp_all
qed

text \<open>The tasks after \<open>schedule\<close>: the flag of the caller is cleared, nothing else changes.\<close>

definition clear_need :: "ksched \<Rightarrow> ksched" where
  "clear_need s = upd_task (cur s) (\<lambda>k. k\<lparr>ts_flags := ts_flags k AND NOT NEED_SCHEDULE\<rparr>) s"

lemma clear_need_simps [simp]:
  "cur (clear_need s) = cur s" "init_task (clear_need s) = init_task s" "lnk (clear_need s) = lnk s"
  "wait_tsk (clear_need s) = wait_tsk s" "cr3 (clear_need s) = cr3 s" "task_schedule (clear_need s) = task_schedule s"
  "SMP_cpu_id (clear_need s) = SMP_cpu_id s" "runq (clear_need s) c xs = runq s c xs"
  "ts_vrun_time (tsk (clear_need s) u) = ts_vrun_time (tsk s u)"
  "ts_state (tsk (clear_need s) u) = ts_state (tsk s u)"
  "ts_cpu_id (tsk (clear_need s) u) = ts_cpu_id (tsk s u)"
  by (simp_all add: clear_need_def)

lemma runq_distinct: "runq s c xs \<Longrightarrow> distinct (rqhead s c # xs)"
  by (auto simp: runq_def dest: ring_distinct)

lemma sched_pick_props:
  assumes "sched_wf s xs" and "sched_pick (init_task s (SMP_cpu_id s)) xs = (t, ys)"
  shows "t \<noteq> rqhead s (SMP_cpu_id s)" "t \<notin> set ys" "ts_cpu_id (tsk s t) = SMP_cpu_id s"
    "set ys \<subseteq> set xs" "t = cur s \<longrightarrow> t = init_task s (SMP_cpu_id s)"
    "if t = init_task s (SMP_cpu_id s) then xs = [] \<and> ys = [] else xs = t # ys"
proof -
  let ?i = "init_task s (SMP_cpu_id s)"
  from assms(1) have q: "runq s (SMP_cpu_id s) xs" and c: "cur s \<notin> set xs"
    and i: "?i \<noteq> rqhead s (SMP_cpu_id s)" "?i \<notin> set xs" "ts_cpu_id (tsk s ?i) = SMP_cpu_id s"
    and a: "\<forall>t\<in>set xs. ts_cpu_id (tsk s t) = SMP_cpu_id s"
    by (auto simp: sched_wf_def Let_def runq_def)
  have d: "distinct (rqhead s (SMP_cpu_id s) # xs)" using q by (rule runq_distinct)
  show "t \<noteq> rqhead s (SMP_cpu_id s)" "t \<notin> set ys" "ts_cpu_id (tsk s t) = SMP_cpu_id s"
    "set ys \<subseteq> set xs" "t = cur s \<longrightarrow> t = ?i" "if t = ?i then xs = [] \<and> ys = [] else xs = t # ys"
    using assms(2) c i a d by (cases xs; auto simp: sched_pick_def)+
qed

lemma sched_wfI:
  assumes "runq s c xs" and "ts_cpu_id (tsk s (cur s)) = c" and "cur s \<notin> set xs"
    and "cur s \<noteq> rqhead s c" and "init_task s c \<noteq> rqhead s c"
    and "ts_cpu_id (tsk s (init_task s c)) = c" and "\<forall>t\<in>set xs. ts_cpu_id (tsk s t) = c"
  shows "sched_wf s xs"
  using assms by (auto simp: sched_wf_def Let_def SMP_cpu_id_def)

lemma sched_wfD:
  assumes "sched_wf s xs"
  shows "runq s (SMP_cpu_id s) xs" "cur s \<notin> set xs" "cur s \<noteq> rqhead s (SMP_cpu_id s)"
    "init_task s (SMP_cpu_id s) \<noteq> rqhead s (SMP_cpu_id s)"
    "ts_cpu_id (tsk s (init_task s (SMP_cpu_id s))) = SMP_cpu_id s"
    "t \<in> set xs \<Longrightarrow> ts_cpu_id (tsk s t) = SMP_cpu_id s"
  using assms by (auto simp: sched_wf_def Let_def)

definition sched_result :: "ksched \<Rightarrow> addr list \<Rightarrow> addr \<times> addr list" where
  "sched_result s xs = sched_spec (vrt s) (init_task s (SMP_cpu_id s)) (cur s)
     (ts_state (tsk s (cur s)) = TASK_RUNNING) xs"

lemma schedule_switch:
  assumes wf: "sched_wf s xs" and p: "sched_pick (init_task s (SMP_cpu_id s)) xs = (t, ys)"
    and take: "vrt s t \<le> vrt s (cur s) \<or> ts_state (tsk s (cur s)) \<noteq> TASK_RUNNING"
  obtains s' where "schedule s = Some s'" and "cur s' = t" and "cr3 s' = ts_pgd (tsk s' t)"
    and "runq s' (SMP_cpu_id s) (snd (sched_result s xs))"
    and "tsk s' = tsk (clear_need s)" and "init_task s' = init_task s"
    and "wait_tsk s' = wait_tsk s" and "\<forall>c. rqhead s' c = rqhead s c"
    and "same_rings (insert (cur s) (set (rqhead s (SMP_cpu_id s) # xs))) s s'"
proof -
  let ?c = "SMP_cpu_id s" and ?run = "ts_state (tsk s (cur s)) = TASK_RUNNING"
  note P = sched_pick_props [OF wf p] and W = sched_wfD [OF wf]
  from W(1) have "runq (clear_need s) (SMP_cpu_id (clear_need s)) xs" by simp
  from get_next_task_pick [OF this] p obtain s2
    where g: "get_next_task (clear_need s) = (t, s2)"
      and q2: "runq s2 ?c ys" and f2: "same_tasks (clear_need s) s2"
      and n2: "same_rings (set (rqhead s ?c # xs)) (clear_need s) s2" by auto
  note F = same_tasksD [OF f2]
  obtain s3 where i: "(if ?run then insert_task_queue s2 (cur s2) else Some s2) = Some s3"
    and q3: "runq s3 ?c (snd (sched_result s xs))" and f3: "same_tasks s2 s3"
    and n3: "same_rings (insert (cur s) (set (rqhead s ?c # ys))) s2 s3"
  proof (cases ?run)
    case True
    with take have le: "vrt s t \<le> vrt s (cur s)" by simp
    have "runq s2 (SMP_cpu_id s2) ys" "cur s2 \<noteq> rqhead s2 (SMP_cpu_id s2)" "cur s2 \<notin> set ys"
      using q2 W P by (auto simp: F)
    then obtain s3 where "insert_task_queue s2 (cur s2) = Some s3"
      and "runq s3 (SMP_cpu_id s2)
        (if cur s2 = init_task s2 (SMP_cpu_id s2) then ys else rq_insert (vrt s2) (cur s2) ys)"
      and "same_tasks s2 s3"
      and "same_rings (insert (cur s2) (set (rqhead s2 (SMP_cpu_id s2) # ys))) s2 s3" by (rule insert_task_queue_refines)
    with True le p show thesis
      by (intro that [of s3]) (simp_all add: F sched_result_def sched_spec_def split: if_splits)
  next
    case False
    with q2 p show thesis by (intro that [of s2]) (simp_all add: same_rings_def sched_result_def sched_spec_def)
  qed
  from refill_slice_runq [OF q3, of t] obtain s4 where r: "refill_slice ?c t s3 = Some s4"
    and q4: "runq s4 ?c (snd (sched_result s xs))" and f4: "same_tasks s3 s4" and n4: "lnk s4 = lnk s3" .
  have f: "same_tasks (clear_need s) s4" using f2 f3 f4 by (blast intro: same_tasks_trans)
  have "schedule s = Some (switch_to t (switch_mm t s4))"
    using g i r take F by (simp add: schedule_def clear_need_def [symmetric] Let_def)
  moreover have "same_rings (insert (cur s) (set (rqhead s ?c # xs))) (clear_need s) s3"
    using n2 n3 by (rule same_rings_trans) (use P(4) in auto)
  then have "same_rings (insert (cur s) (set (rqhead s ?c # xs))) s (switch_to t (switch_mm t s4))"
    by (rule iffD1 [OF same_rings_cong, rotated 2]) (simp_all add: n4 switch_to_def switch_mm_def)
  ultimately show thesis
    by (intro that) (use q4 same_tasksD [OF f] in \<open>simp_all add: switch_to_def switch_mm_def runq_def\<close>)
qed

lemma schedule_stay:
  assumes wf: "sched_wf s xs" and p: "sched_pick (init_task s (SMP_cpu_id s)) xs = (t, ys)"
    and stay: "vrt s (cur s) < vrt s t" "ts_state (tsk s (cur s)) = TASK_RUNNING"
  obtains s' where "schedule s = Some s'" and "cur s' = cur s" and "cr3 s' = cr3 s"
    and "runq s' (SMP_cpu_id s) xs"
    and "tsk s' = tsk (clear_need s)" and "init_task s' = init_task s"
    and "wait_tsk s' = wait_tsk s" and "\<forall>c. rqhead s' c = rqhead s c"
    and "same_rings (set (rqhead s (SMP_cpu_id s) # init_task s (SMP_cpu_id s) # xs)) s s'"
proof -
  let ?c = "SMP_cpu_id s"
  note P = sched_pick_props [OF wf p] and W = sched_wfD [OF wf]
  from W(1) have "runq (clear_need s) (SMP_cpu_id (clear_need s)) xs" by simp
  from get_next_task_pick [OF this] p obtain s2
    where g: "get_next_task (clear_need s) = (t, s2)"
      and q2: "runq s2 ?c ys" and f2: "same_tasks (clear_need s) s2"
      and n2: "same_rings (set (rqhead s ?c # xs)) (clear_need s) s2" by auto
  note F = same_tasksD [OF f2]
  have "runq s2 (SMP_cpu_id s2) ys" "t \<noteq> rqhead s2 (SMP_cpu_id s2)" "t \<notin> set ys"
    using q2 W P by (auto simp: F)
  then obtain s3 where i: "insert_task_queue s2 t = Some s3"
    and q3: "runq s3 (SMP_cpu_id s2)
        (if t = init_task s2 (SMP_cpu_id s2) then ys else rq_insert (vrt s2) t ys)"
    and f3: "same_tasks s2 s3"
    and n3: "same_rings (insert t (set (rqhead s2 (SMP_cpu_id s2) # ys))) s2 s3" by (rule insert_task_queue_refines)
  have "runq s3 ?c xs"
  proof (cases "t = init_task s ?c")
    case True
    with q3 P(6) show ?thesis by (simp add: F)
  next
    case False
    with P(6) W(1) have "rq_insert (vrt s) t ys = xs"
      by (auto simp: runq_def intro!: rq_insert_min)
    with q3 False show ?thesis by (simp add: F)
  qed
  from refill_slice_runq [OF this, of t] obtain s4 where r: "refill_slice ?c t s3 = Some s4"
    and q4: "runq s4 ?c xs" and f4: "same_tasks s3 s4" and n4: "lnk s4 = lnk s3" .
  have f: "same_tasks (clear_need s) s4" using f2 f3 f4 by (blast intro: same_tasks_trans)
  have "schedule s = Some s4"
    using g i r stay F by (simp add: schedule_def clear_need_def [symmetric] Let_def)
  moreover have "t \<in> insert (init_task s ?c) (set xs)" using P(6) by (auto split: if_splits)
  then have "same_rings (set (rqhead s ?c # init_task s ?c # xs)) (clear_need s) s3"
    using P(4) by (intro same_rings_trans [OF n2 n3]) (auto simp: F)
  then have "same_rings (set (rqhead s ?c # init_task s ?c # xs)) s s4"
    by (rule iffD1 [OF same_rings_cong, rotated 2]) (simp_all add: n4)
  ultimately show thesis
    by (intro that) (use q4 same_tasksD [OF f] in \<open>simp_all add: runq_def\<close>)
qed

lemma sched_result_props:
  assumes wf: "sched_wf s xs"
  shows "fst (sched_result s xs) \<notin> set (snd (sched_result s xs))"
    and "fst (sched_result s xs) \<noteq> rqhead s (SMP_cpu_id s)"
    and "ts_cpu_id (tsk s (fst (sched_result s xs))) = SMP_cpu_id s"
    and "\<forall>t\<in>set (snd (sched_result s xs)). ts_cpu_id (tsk s t) = SMP_cpu_id s"
proof -
  obtain t ys where p: "sched_pick (init_task s (SMP_cpu_id s)) xs = (t, ys)" by fastforce
  note P = sched_pick_props [OF wf p] and W = sched_wfD [OF wf]
  have c: "ts_cpu_id (tsk s (cur s)) = SMP_cpu_id s" by (simp add: SMP_cpu_id_def)
  show "fst (sched_result s xs) \<notin> set (snd (sched_result s xs))"
    "fst (sched_result s xs) \<noteq> rqhead s (SMP_cpu_id s)"
    "ts_cpu_id (tsk s (fst (sched_result s xs))) = SMP_cpu_id s"
    "\<forall>t\<in>set (snd (sched_result s xs)). ts_cpu_id (tsk s t) = SMP_cpu_id s"
    using p P W c by (auto simp: sched_result_def sched_spec_def)
qed

text \<open>The nodes that \<open>schedule\<close> may link or unlink.\<close>

definition sched_nodes :: "ksched \<Rightarrow> addr list \<Rightarrow> addr set" where
  "sched_nodes s xs =
     set (cur s # init_task s (SMP_cpu_id s) # rqhead s (SMP_cpu_id s) # xs)"

lemma same_rings_mono: "same_rings N s s' \<Longrightarrow> N \<subseteq> M \<Longrightarrow> same_rings M s s'"
  using same_rings_trans [of N s s' "{}" s' M] by (simp add: same_rings_def)

lemma schedule_refines:
  assumes wf: "sched_wf s xs"
  obtains s' where "schedule s = Some s'" and "sched_wf s' (snd (sched_result s xs))"
    and "cur s' = fst (sched_result s xs)" and "SMP_cpu_id s' = SMP_cpu_id s"
    and "tsk s' = tsk (clear_need s)" and "init_task s' = init_task s"
    and "cur s' \<noteq> cur s \<longrightarrow> cr3 s' = ts_pgd (tsk s' (cur s'))" and "wait_tsk s' = wait_tsk s"
    and "same_rings (sched_nodes s xs) s s'" and "\<forall>c. rqhead s' c = rqhead s c"
proof -
  obtain t ys where p: "sched_pick (init_task s (SMP_cpu_id s)) xs = (t, ys)" by fastforce
  obtain s' where s': "schedule s = Some s'" "cur s' = fst (sched_result s xs)"
    "runq s' (SMP_cpu_id s) (snd (sched_result s xs))" "tsk s' = tsk (clear_need s)"
    "init_task s' = init_task s" "\<forall>c. rqhead s' c = rqhead s c"
    "cur s' \<noteq> cur s \<longrightarrow> cr3 s' = ts_pgd (tsk s' (cur s'))" "wait_tsk s' = wait_tsk s"
    and n: "same_rings (sched_nodes s xs) s s'"
  proof (cases "vrt s t \<le> vrt s (cur s) \<or> ts_state (tsk s (cur s)) \<noteq> TASK_RUNNING")
    case True
    from schedule_switch [OF wf p this] obtain s' where "schedule s = Some s'" "cur s' = t"
      "cr3 s' = ts_pgd (tsk s' t)" "runq s' (SMP_cpu_id s) (snd (sched_result s xs))"
      "tsk s' = tsk (clear_need s)" "init_task s' = init_task s"
      "wait_tsk s' = wait_tsk s" "\<forall>c. rqhead s' c = rqhead s c"
      and n: "same_rings (insert (cur s) (set (rqhead s (SMP_cpu_id s) # xs))) s s'" .
    moreover have "same_rings (sched_nodes s xs) s s'"
      using n by (rule same_rings_mono) (auto simp: sched_nodes_def)
    ultimately show thesis using True p
      by (intro that [of s']) (auto simp: sched_result_def sched_spec_def)
  next
    case False
    then have "vrt s (cur s) < vrt s t" "ts_state (tsk s (cur s)) = TASK_RUNNING" by auto
    moreover from schedule_stay [OF wf p this] obtain s' where "schedule s = Some s'"
      "cur s' = cur s" "cr3 s' = cr3 s" "runq s' (SMP_cpu_id s) xs"
      "tsk s' = tsk (clear_need s)" "init_task s' = init_task s"
      "wait_tsk s' = wait_tsk s" "\<forall>c. rqhead s' c = rqhead s c"
      and n: "same_rings (set (rqhead s (SMP_cpu_id s) # init_task s (SMP_cpu_id s) # xs)) s s'" .
    moreover have "same_rings (sched_nodes s xs) s s'"
      using n by (rule same_rings_mono) (auto simp: sched_nodes_def)
    ultimately show thesis using p
      by (intro that [of s']) (auto simp: sched_result_def sched_spec_def)
  qed
  note R = sched_result_props [OF wf] and W = sched_wfD [OF wf]
  have "sched_wf s' (snd (sched_result s xs))"
    using s'(3) by (rule sched_wfI) (use s' R W in simp_all)
  moreover have "SMP_cpu_id s' = SMP_cpu_id s" using s' R by (simp add: SMP_cpu_id_def)
  ultimately show thesis using s' n by (intro that [of s'])
qed

lemma schedule_post:
  assumes "sched_wf s xs" and "schedule s = Some s'"
  shows "sched_wf s' (snd (sched_result s xs))" "cur s' = fst (sched_result s xs)"
    "SMP_cpu_id s' = SMP_cpu_id s" "tsk s' = tsk (clear_need s)" "init_task s' = init_task s"
    "cur s' \<noteq> cur s \<longrightarrow> cr3 s' = ts_pgd (tsk s' (cur s'))" "wait_tsk s' = wait_tsk s"
    "same_rings (sched_nodes s xs) s s'" "\<forall>c. rqhead s' c = rqhead s c"
  by (rule schedule_refines [OF assms(1)], use assms(2) in simp)+

lemma schedule_returns: "sched_wf s xs \<Longrightarrow> \<exists>s'. schedule s = Some s'"
  by (blast elim: schedule_refines)

lemma sched_result_min:
  assumes "sched_wf s xs" and "xs \<noteq> []" and "ts_state (tsk s (cur s)) = TASK_RUNNING"
    and "t \<in> set (cur s # xs)"
  shows "vrt s (fst (sched_result s xs)) \<le> vrt s t"
proof -
  from assms(2) obtain y ys where "xs = y # ys" by (cases xs) auto
  with assms sched_wfD(1) [OF assms(1)] show ?thesis
    by (auto simp: sched_result_def sched_spec_def sched_pick_def runq_def)
qed

lemma sched_result_set:
  assumes "sched_wf s xs" and "ts_state (tsk s (cur s)) = TASK_RUNNING"
  shows "insert (fst (sched_result s xs)) (set (snd (sched_result s xs))) - {init_task s (SMP_cpu_id s)}
    = insert (cur s) (set xs) - {init_task s (SMP_cpu_id s)}"
  using assms by (cases xs) (auto simp: sched_result_def sched_spec_def sched_pick_def)

lemma sched_result_sleep:
  assumes "ts_state (tsk s (cur s)) \<noteq> TASK_RUNNING"
  shows "sched_result s xs = sched_pick (init_task s (SMP_cpu_id s)) xs"
  using assms by (cases "sched_pick (init_task s (SMP_cpu_id s)) xs")
    (simp add: sched_result_def sched_spec_def)

section \<open>Ticks, wakeups and sleeps\<close>

lemma account_tick_wf:
  assumes "sched_wf s xs"
  shows "sched_wf (account_tick s) xs"
proof (rule sched_wfI [of _ "SMP_cpu_id s"])
  note W = sched_wfD [OF assms]
  have f: "lnk (account_tick s) = lnk s" "init_task (account_tick s) = init_task s"
    "cur (account_tick s) = cur s" "rqhead (account_tick s) c = rqhead s c"
    "running_task_count (task_schedule (account_tick s) c) = running_task_count (task_schedule s c)"
    "ts_cpu_id (tsk (account_tick s) t) = ts_cpu_id (tsk s t)"
    "t \<noteq> cur s \<Longrightarrow> ts_vrun_time (tsk (account_tick s) t) = ts_vrun_time (tsk s t)" for c t
    by (simp_all add: account_tick_def Let_def upd_task_def upd_sched_def)
  have "ts_vrun_time (tsk (account_tick s) t) = ts_vrun_time (tsk s t)" if "t \<in> set xs" for t
    using that W(2) f(7) by metis
  then have "sorted_wrt (\<lambda>a b. vrt (account_tick s) a \<le> vrt (account_tick s) b) xs =
      sorted_wrt (\<lambda>a b. vrt s a \<le> vrt s b) xs"
    by (intro sorted_wrt_key_cong) simp
  with W(1,3) f show "runq (account_tick s) (SMP_cpu_id s) xs" by (simp add: runq_def)
qed (use sched_wfD [OF assms] in \<open>simp_all add: account_tick_def Let_def upd_task_def upd_sched_def SMP_cpu_id_def\<close>)

lemma wakeup_process_refines:
  assumes wf: "sched_wf s xs" and new: "t \<noteq> cur s" "t \<notin> set xs"
    "t \<noteq> rqhead s (SMP_cpu_id s)" "t \<noteq> init_task s (SMP_cpu_id s)" "ts_cpu_id (tsk s t) = SMP_cpu_id s"
  obtains s' where "wakeup_process t s = Some s'" and "sched_wf s' (rq_insert (vrt s) t xs)"
    and "ts_state (tsk s' t) = TASK_RUNNING"
    and "\<forall>u. u \<noteq> t \<longrightarrow> ts_state (tsk s' u) = ts_state (tsk s u)"
    and "ts_flags (tsk s' (cur s)) = ts_flags (tsk s (cur s)) OR NEED_SCHEDULE"
    and "cur s' = cur s" and "wait_tsk s' = wait_tsk s"
    and "same_rings (insert t (set (rqhead s (SMP_cpu_id s) # xs))) s s'"
proof -
  let ?s1 = "upd_task t (\<lambda>k. k\<lparr>ts_state := TASK_RUNNING\<rparr>) s"
  note W = sched_wfD [OF wf]
  have q: "runq ?s1 (SMP_cpu_id ?s1) xs" and "t \<noteq> rqhead ?s1 (SMP_cpu_id ?s1)" "t \<notin> set xs"
    using W new by simp_all
  then obtain s2 where i: "insert_task_queue ?s1 t = Some s2"
    and q2: "runq s2 (SMP_cpu_id ?s1)
      (if t = init_task ?s1 (SMP_cpu_id ?s1) then xs else rq_insert (vrt ?s1) t xs)"
    and f: "same_tasks ?s1 s2"
    and n: "same_rings (insert t (set (rqhead ?s1 (SMP_cpu_id ?s1) # xs))) ?s1 s2"
    by (rule insert_task_queue_refines)
  note F = same_tasksD [OF f]
  let ?s' = "upd_task (cur s2) (\<lambda>k. k\<lparr>ts_flags := ts_flags k OR NEED_SCHEDULE\<rparr>) s2"
  have "wakeup_process t s = Some ?s'" by (simp add: wakeup_process_def i)
  moreover have "sched_wf ?s' (rq_insert (vrt s) t xs)"
    using q2 W new by (intro sched_wfI [of _ "SMP_cpu_id s"]) (auto simp: F SMP_cpu_id_def)
  moreover have "same_rings (insert t (set (rqhead s (SMP_cpu_id s) # xs))) s ?s'"
    using n by (simp add: same_rings_def)
  ultimately show thesis using new(1)
    by (intro that [of ?s']) (auto simp: F, auto simp: upd_task_def F)
qed

text \<open>
  A wait queue is a ring of entries apart from the nodes of the scheduler; \<open>waitq s head ws\<close>
  lists them, oldest first.
\<close>

definition waitq :: "ksched \<Rightarrow> addr list \<Rightarrow> addr \<Rightarrow> addr list \<Rightarrow> bool" where
  "waitq s xs head ws \<longleftrightarrow> ring (lnk s) head ws \<and> set (head # ws) \<inter> sched_nodes s xs = {}"

lemma sched_wf_lnk:
  assumes "sched_wf s xs" and "ring h (rqhead s (SMP_cpu_id s)) xs"
  shows "sched_wf (s\<lparr>lnk := h\<rparr>) xs"
  using assms by (simp add: sched_wf_def runq_def SMP_cpu_id_def Let_def)

lemma sched_wf_upd_state: "sched_wf (upd_task t (\<lambda>k. k\<lparr>ts_state := v\<rparr>) s) xs = sched_wf s xs"
  by (simp add: sched_wf_def)

lemma sleep_enqueue_refines:
  assumes wf: "sched_wf s xs" and q: "waitq s xs head ws"
    and w: "w \<notin> set (head # ws)" "w \<notin> sched_nodes s xs"
  shows "sched_wf (sleep_enqueue w head st s) xs" (is "sched_wf ?s' xs")
    and "waitq (sleep_enqueue w head st s) xs head (ws @ [w])"
    and "wait_tsk (sleep_enqueue w head st s) = (wait_tsk s)(w := cur s)"
    and "cur (sleep_enqueue w head st s) = cur s"
    and "ts_state (tsk (sleep_enqueue w head st s) t) = (if t = cur s then st else ts_state (tsk s t))"
proof -
  let ?q = "rqhead s (SMP_cpu_id s)" and ?h = "list_init (lnk s) w"
  note W = sched_wfD [OF wf]
  have d: "set (?q # xs) \<inter> set (head # ws) = {}" "w \<notin> set (?q # xs)"
    using q w by (auto simp: waitq_def sched_nodes_def)
  have r: "ring ?h head ws" using q w(1) by (auto simp: waitq_def intro: init_frame)
  then have r': "ring (list_add_to_before ?h head w) head (ws @ [w])"
    using w(1) by (rule kl.rep_before_head)
  have "ring (lnk s) ?q xs" using W(1) by (simp add: runq_def)
  then have "ring ?h ?q xs" using d(2) by (rule init_frame)
  then have rq: "ring (list_add_to_before ?h head w) ?q xs"
    using r d by (intro before_frame [of _ head ws]) auto
  have e: "?s' = (upd_task (cur s) (\<lambda>k. k\<lparr>ts_state := st\<rparr>)
      (s\<lparr>wait_tsk := (wait_tsk s)(w := cur s)\<rparr>))\<lparr>lnk := list_add_to_before ?h head w\<rparr>"
    by (simp add: sleep_enqueue_def wait_queue_init_def upd_task_def Let_def)
  show "sched_wf ?s' xs" unfolding e
    by (rule sched_wf_lnk) (use wf rq in \<open>simp_all add: sched_wf_upd_state, simp_all add: sched_wf_def runq_def SMP_cpu_id_def Let_def\<close>)
  show "waitq ?s' xs head (ws @ [w])"
    using r' q w unfolding e by (auto simp: waitq_def sched_nodes_def SMP_cpu_id_def upd_task_def)
  show "wait_tsk ?s' = (wait_tsk s)(w := cur s)" "cur ?s' = cur s"
    "ts_state (tsk ?s' t) = (if t = cur s then st else ts_state (tsk s t))"
    by (simp_all add: e upd_task_def)
qed

lemma waitq_keep:
  assumes "waitq s xs head ws" and "same_rings N s s'" and "N \<subseteq> sched_nodes s xs"
  shows "ring (lnk s') head ws"
  using assms by (intro same_ringsD [OF assms(2)]) (auto simp: waitq_def)

lemma wakeup_waiter:
  assumes wf: "sched_wf s xs" and q: "waitq s xs head (w # ws)"
    and t: "t \<noteq> cur s" "t \<notin> set xs" "t \<noteq> rqhead s (SMP_cpu_id s)"
      "t \<noteq> init_task s (SMP_cpu_id s)" "ts_cpu_id (tsk s t) = SMP_cpu_id s" "t \<notin> set (head # ws)"
  obtains s' where "wakeup_process t (s\<lparr>lnk := list_del (lnk s) w\<rparr>) = Some s'"
    and "sched_wf s' (rq_insert (vrt s) t xs)" and "ring (lnk s') head ws"
    and "ts_state (tsk s' t) = TASK_RUNNING"
    and "ts_flags (tsk s' (cur s)) = ts_flags (tsk s (cur s)) OR NEED_SCHEDULE"
proof -
  let ?q = "rqhead s (SMP_cpu_id s)" and ?s1 = "s\<lparr>lnk := list_del (lnk s) w\<rparr>"
  from q have r: "ring (lnk s) head (w # ws)" and d: "set (head # w # ws) \<inter> set (?q # xs) = {}"
    by (auto simp: waitq_def sched_nodes_def)
  have "ring (lnk s) ?q xs" using sched_wfD(1) [OF wf] by (simp add: runq_def)
  then have "ring (list_del (lnk s) w) ?q xs"
    using r d by (intro del_frame [of _ head "w # ws"]) auto
  with wf have wf1: "sched_wf ?s1 xs" by (rule sched_wf_lnk)
  have r1: "ring (lnk ?s1) head ws" using kl.pop_front [OF r] by simp
  have c: "SMP_cpu_id ?s1 = SMP_cpu_id s" by (simp add: SMP_cpu_id_def)
  have "t \<noteq> cur ?s1" "t \<notin> set xs" "t \<noteq> rqhead ?s1 (SMP_cpu_id ?s1)"
    "t \<noteq> init_task ?s1 (SMP_cpu_id ?s1)" "ts_cpu_id (tsk ?s1 t) = SMP_cpu_id ?s1"
    using t c by simp_all
  from wakeup_process_refines [OF wf1 this] obtain s' where
    s': "wakeup_process t ?s1 = Some s'" "sched_wf s' (rq_insert (vrt s) t xs)"
    "ts_state (tsk s' t) = TASK_RUNNING"
    "ts_flags (tsk s' (cur s)) = ts_flags (tsk s (cur s)) OR NEED_SCHEDULE"
    and n: "same_rings (insert t (set (?q # xs))) ?s1 s'" by (auto simp: c)
  have "ring (lnk s') head ws" using n r1 by (rule same_ringsD) (use d t(6) in auto)
  with s' show thesis by (intro that [of s'])
qed

lemma up_wait_eq:
  "up_wait m s = wakeup_process (wait_tsk s (list_next (lnk s) (wait m)))
     (s\<lparr>lnk := list_del (lnk s) (list_next (lnk s) (wait m))\<rparr>)"
  by (simp add: up_wait_def wakeup_process_def Let_def)

section \<open>Interleavings\<close>

text \<open>
  The events of one processor: a timer tick, a call of the scheduler, the wakeup of a sleeping
  task, and the running task putting itself to sleep.  \<open>T\<close> holds the addresses of the task
  structures and queue heads, to keep wait queue entries apart from them.
\<close>

inductive kstep :: "addr set \<Rightarrow> ksched \<Rightarrow> ksched \<Rightarrow> bool" for T where
  tick: "kstep T s (account_tick s)"
| resched: "schedule s = Some s' \<Longrightarrow> kstep T s s'"
| wake: "wakeup_process t s = Some s' \<Longrightarrow> t \<in> T \<Longrightarrow> t \<noteq> cur s \<Longrightarrow> t \<noteq> rqhead s (SMP_cpu_id s) \<Longrightarrow>
    ts_state (tsk s t) \<noteq> TASK_RUNNING \<Longrightarrow> ts_cpu_id (tsk s t) = SMP_cpu_id s \<Longrightarrow> kstep T s s'"
| sleep: "sleep_on w head s = Some s' \<Longrightarrow> ring (lnk s) head ws \<Longrightarrow> set (head # ws) \<inter> T = {} \<Longrightarrow>
    w \<notin> T \<union> set (head # ws) \<Longrightarrow> cur s \<noteq> init_task s (SMP_cpu_id s) \<Longrightarrow> kstep T s s'"

inductive_cases kstepE: "kstep T s s'"

definition kinv :: "addr set \<Rightarrow> ksched \<Rightarrow> addr list \<Rightarrow> bool" where
  "kinv T s xs \<longleftrightarrow> sched_wf s xs \<and> sched_nodes s xs \<subseteq> T \<and>
     (\<forall>t \<in> set (cur s # init_task s (SMP_cpu_id s) # xs). ts_state (tsk s t) = TASK_RUNNING)"

lemma sched_result_subset:
  "set (snd (sched_result s xs)) \<subseteq> insert (cur s) (set xs)"
  "fst (sched_result s xs) \<in> set (cur s # init_task s (SMP_cpu_id s) # xs)"
  by (cases xs; auto simp: sched_result_def sched_spec_def sched_pick_def)+

lemma kinv_schedule:
  assumes k: "kinv T s xs" and "schedule s = Some s'"
  shows "kinv T s' (snd (sched_result s xs))"
proof -
  from k have wf: "sched_wf s xs" by (simp add: kinv_def)
  note R = schedule_post [OF wf assms(2)]
  let ?c = "SMP_cpu_id s" and ?r = "sched_result s xs"
  have sub: "set (cur s' # init_task s' (SMP_cpu_id s') # snd ?r)
      \<subseteq> set (cur s # init_task s ?c # xs)"
    using sched_result_subset [where s = s and xs = xs] by (auto simp: R(2,3,5))
  then have "sched_nodes s' (snd ?r) \<subseteq> sched_nodes s xs"
    using R(3,9) by (auto simp: sched_nodes_def)
  moreover have "\<forall>t\<in>set (cur s' # init_task s' (SMP_cpu_id s') # snd ?r).
      ts_state (tsk s' t) = TASK_RUNNING"
    using k sub by (fastforce simp: kinv_def R(4))
  ultimately show ?thesis using k R(1) unfolding kinv_def by blast
qed

lemma kinv_tick: "kinv T s xs \<Longrightarrow> kinv T (account_tick s) xs"
proof -
  assume k: "kinv T s xs"
  have f: "ts_state (tsk (account_tick s) t) = ts_state (tsk s t)"
    "cur (account_tick s) = cur s" "init_task (account_tick s) = init_task s"
    "SMP_cpu_id (account_tick s) = SMP_cpu_id s" "rqhead (account_tick s) c = rqhead s c" for t c
    by (simp_all add: account_tick_def Let_def upd_task_def upd_sched_def SMP_cpu_id_def)
  from k account_tick_wf show ?thesis by (simp add: kinv_def sched_nodes_def f)
qed

lemma kinv_wake:
  assumes k: "kinv T s xs" and w: "wakeup_process t s = Some s'" and "t \<in> T" "t \<noteq> cur s"
    "t \<noteq> rqhead s (SMP_cpu_id s)" "ts_state (tsk s t) \<noteq> TASK_RUNNING"
    "ts_cpu_id (tsk s t) = SMP_cpu_id s"
  shows "kinv T s' (rq_insert (vrt s) t xs)"
proof -
  from k assms have wf: "sched_wf s xs"
    and t: "t \<noteq> cur s" "t \<notin> set xs" "t \<noteq> rqhead s (SMP_cpu_id s)"
      "t \<noteq> init_task s (SMP_cpu_id s)" "ts_cpu_id (tsk s t) = SMP_cpu_id s"
    by (auto simp: kinv_def)
  from wakeup_process_refines [OF wf t] w
  have s': "sched_wf s' (rq_insert (vrt s) t xs)" "ts_state (tsk s' t) = TASK_RUNNING"
    "\<forall>u. u \<noteq> t \<longrightarrow> ts_state (tsk s' u) = ts_state (tsk s u)" by auto
  have f: "cur s' = cur s \<and> init_task s' = init_task s \<and> SMP_cpu_id s' = SMP_cpu_id s \<and>
      rqhead s' (SMP_cpu_id s) = rqhead s (SMP_cpu_id s)"
    using w by (auto simp: wakeup_process_def insert_task_queue_def upd_task_def upd_sched_def
        SMP_cpu_id_def Let_def split: if_splits bind_splits)
  from s' f k \<open>t \<in> T\<close> show ?thesis by (auto simp: kinv_def sched_nodes_def)
qed

lemma kinv_sleep:
  assumes k: "kinv T s xs" and sl: "sleep_on w head s = Some s'"
    and r: "ring (lnk s) head ws" "set (head # ws) \<inter> T = {}" "w \<notin> T \<union> set (head # ws)"
    and busy: "cur s \<noteq> init_task s (SMP_cpu_id s)"
  shows "kinv T s' (snd (sched_pick (init_task s (SMP_cpu_id s)) xs))"
proof -
  let ?e = "sleep_enqueue w head TASK_UNINTERRUPTIBLE s"
  from k have wf: "sched_wf s xs" and sub: "sched_nodes s xs \<subseteq> T"
    and run: "\<forall>t \<in> set (cur s # init_task s (SMP_cpu_id s) # xs). ts_state (tsk s t) = TASK_RUNNING"
    by (auto simp: kinv_def)
  from r sub have q: "waitq s xs head ws" "w \<notin> set (head # ws)" "w \<notin> sched_nodes s xs"
    by (auto simp: waitq_def)
  note E = sleep_enqueue_refines [OF wf q, of TASK_UNINTERRUPTIBLE]
  have e: "init_task ?e = init_task s" "SMP_cpu_id ?e = SMP_cpu_id s" "rqhead ?e c = rqhead s c" for c
    by (simp_all add: sleep_enqueue_def wait_queue_init_def upd_task_def SMP_cpu_id_def Let_def)
  obtain t ys where p: "sched_pick (init_task s (SMP_cpu_id s)) xs = (t, ys)" by fastforce
  have "ts_state (tsk ?e (cur ?e)) \<noteq> TASK_RUNNING" by (simp add: E(4,5))
  then have res: "sched_result ?e xs = (t, ys)" by (simp add: sched_result_sleep e p)
  note R = schedule_post [OF E(1) sl [unfolded sleep_on_def], unfolded res fst_conv snd_conv e]
  have m: "set (t # ys) \<subseteq> set (init_task s (SMP_cpu_id s) # xs)" "cur s \<notin> set (t # ys)"
    using p sched_wfD(2) [OF wf] busy by (cases xs; auto simp: sched_pick_def)+
  have st: "ts_state (tsk s' u) = ts_state (tsk s u)" if "u \<noteq> cur s" for u
    using that by (simp add: R(4) E(5))
  have "sched_nodes s' ys \<subseteq> T"
    using m(1) sub R(2,3,5,9) by (auto simp: sched_nodes_def)
  moreover have "\<forall>u\<in>set (cur s' # init_task s' (SMP_cpu_id s') # ys). ts_state (tsk s' u) = TASK_RUNNING"
  proof
    fix u assume "u \<in> set (cur s' # init_task s' (SMP_cpu_id s') # ys)"
    then have "u \<in> set (init_task s (SMP_cpu_id s) # t # ys)" using R(2,3,5) by auto
    with m busy have "u \<noteq> cur s" "u \<in> set (cur s # init_task s (SMP_cpu_id s) # xs)" by auto
    moreover from this run have "ts_state (tsk s u) = TASK_RUNNING" by blast
    ultimately show "ts_state (tsk s' u) = TASK_RUNNING" by (simp add: st)
  qed
  ultimately show ?thesis using R(1) p by (simp add: kinv_def)
qed

text \<open>
  The invariant is kept by every interleaving, and the scheduler returns from every state that
  satisfies it.
\<close>

lemma kstep_kinv: "kstep T s s' \<Longrightarrow> kinv T s xs \<Longrightarrow> \<exists>ys. kinv T s' ys"
proof (induction rule: kstep.cases)
  case (tick s)
  then show ?case using kinv_tick by blast
next
  case (resched s s')
  then show ?case using kinv_schedule by blast
next
  case (wake t s s')
  then show ?case using kinv_wake by blast
next
  case (sleep w head s s' ws)
  then show ?case using kinv_sleep by blast
qed

lemma kreach_kinv: "(kstep T)\<^sup>*\<^sup>* s s' \<Longrightarrow> \<exists>xs. kinv T s xs \<Longrightarrow> \<exists>ys. kinv T s' ys"
  by (induction rule: rtranclp_induct) (blast dest: kstep_kinv)+

section \<open>Initialisation\<close>

lemma schedule_init_one_frame:
  "rqhead (schedule_init_one i s) c = rqhead s c" "init_task (schedule_init_one i s) = init_task s"
  by (simp_all add: schedule_init_one_def upd_task_def upd_sched_def Let_def)

lemma schedule_init_one_runq:
  "runq (schedule_init_one i s) i []"
  using list_init_ring
  by (simp add: schedule_init_one_def upd_task_def upd_sched_def runq_def Let_def)

lemma schedule_init_one_other:
  assumes "runq s c []" and "rqhead s i \<noteq> rqhead s c"
  shows "runq (schedule_init_one i s) c []"
  using assms init_frame [of "lnk s" "rqhead s c" "[]" "rqhead s i"]
  by (auto simp: schedule_init_one_def upd_task_def upd_sched_def runq_def Let_def)

lemma schedule_init_loop_head: "rqhead (fold schedule_init_one cs s) c = rqhead s c"
  by (induction cs arbitrary: s) (simp_all add: schedule_init_one_frame)

lemma schedule_init_loop:
  assumes "inj_on (rqhead s) (set cs)" and "c \<in> set cs"
  shows "runq (fold schedule_init_one cs s) c []"
  using assms
proof (induction cs rule: rev_induct)
  case (snoc i cs)
  show ?case
  proof (cases "c = i")
    case True
    then show ?thesis by (simp add: schedule_init_one_runq)
  next
    case False
    with snoc.prems have "c \<in> set cs" "inj_on (rqhead s) (set cs)" "rqhead s i \<noteq> rqhead s c"
      by (auto simp: inj_on_def)
    with snoc.IH show ?thesis
      by (simp add: schedule_init_one_other schedule_init_loop_head)
  qed
qed simp

section \<open>The negative time slice\<close>

text \<open>
  \<open>schedule\<close> refills the slice only when it is exactly 0; a tick of a task of priority 2
  takes 2 from it.  A slice that has jumped over 0 stays negative.
\<close>

lemma refill_slice_neg:
  "CPU_exec_task_jiffies (task_schedule s c) < 0 \<Longrightarrow> refill_slice c t s = Some s"
  by (simp add: refill_slice_def Let_def)

lemma queue_ops_slice:
  "insert_task_queue s t = Some s' \<Longrightarrow>
   CPU_exec_task_jiffies (task_schedule s' c) = CPU_exec_task_jiffies (task_schedule s c)"
  "CPU_exec_task_jiffies (task_schedule (snd (get_next_task s)) c) =
   CPU_exec_task_jiffies (task_schedule s c)"
  by (auto simp: insert_task_queue_def get_next_task_def upd_sched_def Let_def
      split: if_splits bind_splits)

lemma schedule_slice_neg:
  assumes "schedule s = Some s'" and neg: "CPU_exec_task_jiffies (task_schedule s (SMP_cpu_id s)) < 0"
  shows "CPU_exec_task_jiffies (task_schedule s' (SMP_cpu_id s)) =
         CPU_exec_task_jiffies (task_schedule s (SMP_cpu_id s))"
proof -
  obtain t s2 where g: "get_next_task (clear_need s) = (t, s2)" by fastforce
  let ?j = "\<lambda>s'. CPU_exec_task_jiffies (task_schedule s' (SMP_cpu_id s))"
  have j2: "?j s2 = ?j s" using queue_ops_slice(2) [of "clear_need s"] g by simp
  have ins: "?j s3 = ?j s" if "insert_task_queue s2 u = Some s3" for u s3
    using queue_ops_slice(1) [OF that] j2 by simp
  from assms(1) show ?thesis
    using ins j2 neg
    by (auto simp: schedule_def clear_need_def [symmetric] g Let_def refill_slice_neg
        switch_to_def switch_mm_def split: if_splits bind_splits)
qed

section \<open>Properties\<close>

text \<open>
  A concrete processor: queue head \<open>0x1000\<close>, the tasks \<open>0x2000\<close> and \<open>0x3000\<close> queued,
  \<open>0x4000\<close> running, \<open>0x5000\<close> idle, \<open>0x6000\<close> asleep on the wait queue \<open>0x8000\<close>
  through the entry \<open>0x9000\<close>.
\<close>

definition demo_task :: "u64 \<Rightarrow> u64 \<Rightarrow> task" where
  "demo_task st v = zero_task\<lparr>ts_state := st, ts_priority := 2, ts_vrun_time := v, ts_pgd := v + 0x100000\<rparr>"

definition demo_sched :: ksched where
  "demo_sched = \<lparr>
     lnk = \<lparr>nxt = (\<lambda>_. 0)(0x1000 := 0x2000, 0x2000 := 0x3000, 0x3000 := 0x1000,
              0x8000 := 0x9000, 0x9000 := 0x8000),
            prv = (\<lambda>_. 0)(0x2000 := 0x1000, 0x3000 := 0x2000, 0x1000 := 0x3000,
              0x8000 := 0x9000, 0x9000 := 0x8000)\<rparr>,
     tsk = (\<lambda>_. zero_task)(0x1000 := zero_task\<lparr>ts_vrun_time := 0x7fffffffffffffff\<rparr>,
       0x2000 := demo_task 1 3, 0x3000 := demo_task 1 7, 0x4000 := demo_task 1 5,
       0x5000 := demo_task 1 1, 0x6000 := demo_task 4 4),
     task_schedule = (\<lambda>_. \<lparr>running_task_count = 3, CPU_exec_task_jiffies = -1, task_queue = 0x1000\<rparr>),
     init_task = (\<lambda>_. 0x5000), wait_tsk = (\<lambda>_. 0)(0x9000 := 0x6000), cur = 0x4000, cr3 = 0x100005\<rparr>"

lemma demo_wf: "sched_wf demo_sched [0x2000, 0x3000]"
  by (simp add: sched_wf_def runq_def ring_def demo_sched_def demo_task_def zero_task_def
      SMP_cpu_id_def)

lemma demo_kinv: "kinv {0x1000, 0x2000, 0x3000, 0x4000, 0x5000, 0x6000} demo_sched [0x2000, 0x3000]"
  unfolding kinv_def using demo_wf
  by (simp add: sched_nodes_def demo_sched_def demo_task_def zero_task_def SMP_cpu_id_def task_consts)

lemma demo_waitq: "waitq demo_sched [0x2000, 0x3000] 0x8000 [0x9000]"
  by (simp add: waitq_def ring_def sched_nodes_def demo_sched_def demo_task_def zero_task_def
      SMP_cpu_id_def)

text \<open>C1.  On a well-formed processor \<open>schedule()\<close> returns (its queue walk ends and it does not
  divide by zero) and refines the abstract scheduler: the task it leaves running and the queue it
  leaves behind are those of \<open>sched_spec\<close>, the queue invariant holds again, the page table
  root is the one of the new task, and no field of any task but the caller's \<open>NEED_SCHEDULE\<close>
  flag changes.\<close>

theorem schedule_correct:
  assumes "sched_wf s xs"
  shows "\<exists>s'. schedule s = Some s' \<and> cur s' = fst (sched_result s xs) \<and>
     sched_wf s' (snd (sched_result s xs)) \<and> tsk s' = tsk (clear_need s) \<and>
     (cur s' \<noteq> cur s \<longrightarrow> cr3 s' = ts_pgd (tsk s' (cur s')))"
proof -
  obtain s' where "schedule s = Some s'" using schedule_returns [OF assms] by blast
  with schedule_post [OF assms this] show ?thesis by blast
qed

theorem schedule_correct_witness:
  "sched_wf demo_sched [0x2000, 0x3000] \<and>
   (\<exists>s'. schedule demo_sched = Some s' \<and> cur s' = 0x2000 \<and> sched_wf s' [0x4000, 0x3000])"
proof -
  have "sched_result demo_sched [0x2000, 0x3000] = (0x2000, [0x4000, 0x3000])"
    by (simp add: sched_result_def sched_spec_def sched_pick_def rq_insert_def demo_sched_def
        demo_task_def zero_task_def SMP_cpu_id_def task_consts)
  with schedule_correct [OF demo_wf] demo_wf show ?thesis by auto
qed

text \<open>C2.  Fairness of the choice: when the caller is runnable and the queue is not empty, the task
  that runs after \<open>schedule()\<close> has the least virtual run time of the caller and all queued
  tasks.\<close>

theorem schedule_picks_min:
  assumes "sched_wf s xs" and "xs \<noteq> []" and "ts_state (tsk s (cur s)) = TASK_RUNNING"
    and "t \<in> set (cur s # xs)"
  shows "\<exists>s'. schedule s = Some s' \<and>
     sint (ts_vrun_time (tsk s (cur s'))) \<le> sint (ts_vrun_time (tsk s t))"
proof -
  obtain s' where "schedule s = Some s'" using schedule_returns [OF assms(1)] by blast
  with schedule_post(2) [OF assms(1) this] sched_result_min [OF assms] show ?thesis by simp
qed

theorem schedule_picks_min_witness:
  "\<exists>s'. schedule demo_sched = Some s' \<and>
     sint (ts_vrun_time (tsk demo_sched (cur s'))) \<le> sint (ts_vrun_time (tsk demo_sched 0x3000))"
  by (rule schedule_picks_min [OF demo_wf])
    (simp_all add: demo_sched_def demo_task_def zero_task_def task_consts)

text \<open>No task is lost or duplicated by \<open>schedule()\<close>: if the caller is runnable, the
  tasks running or queued are, the idle task apart, the same before and after, and a queue never
  holds a task twice or the task that runs.\<close>

theorem schedule_conserves_tasks:
  assumes "sched_wf s xs" and "ts_state (tsk s (cur s)) = TASK_RUNNING"
  shows "\<exists>s' ys. schedule s = Some s' \<and> ring (lnk s') (rqhead s (SMP_cpu_id s)) ys \<and>
     distinct (cur s' # ys) \<and>
     set (cur s' # ys) - {init_task s (SMP_cpu_id s)} = set (cur s # xs) - {init_task s (SMP_cpu_id s)}"
proof -
  obtain s' where s': "schedule s = Some s'" using schedule_returns [OF assms(1)] by blast
  note R = schedule_post [OF assms(1) s']
  have "ring (lnk s') (rqhead s (SMP_cpu_id s)) (snd (sched_result s xs))"
    using sched_wfD(1) [OF R(1)] R(3,9) by (simp add: runq_def)
  moreover from ring_distinct [OF this] sched_wfD(2) [OF R(1)]
  have "distinct (cur s' # snd (sched_result s xs))" by simp
  ultimately show ?thesis using s' sched_result_set [OF assms] R(2)
    by (intro exI [of _ s'] exI [of _ "snd (sched_result s xs)"]) simp
qed

theorem schedule_conserves_tasks_witness:
  "\<exists>s' ys. schedule demo_sched = Some s' \<and> ring (lnk s') (rqhead demo_sched (SMP_cpu_id demo_sched)) ys \<and>
     distinct (cur s' # ys) \<and>
     set (cur s' # ys) - {init_task demo_sched (SMP_cpu_id demo_sched)} =
     set (cur demo_sched # [0x2000, 0x3000]) - {init_task demo_sched (SMP_cpu_id demo_sched)}"
  by (rule schedule_conserves_tasks [OF demo_wf])
    (simp add: demo_sched_def demo_task_def zero_task_def task_consts)

text \<open>C3.  Under every interleaving of timer ticks, scheduler calls, wakeups and sleeps, from any
  state that satisfies the invariant, the processor's queue stays a sorted ring of runnable tasks
  with a correct count, and a call of \<open>schedule()\<close> returns.\<close>

theorem scheduler_invariant_reachable:
  assumes "(kstep T)\<^sup>*\<^sup>* s s'" and "kinv T s xs"
  shows "(\<exists>ys. kinv T s' ys) \<and> (\<exists>s''. schedule s' = Some s'')"
proof -
  from kreach_kinv [OF assms(1)] assms(2) obtain ys where "kinv T s' ys" by blast
  moreover from this have "sched_wf s' ys" by (simp add: kinv_def)
  ultimately show ?thesis using schedule_returns by blast
qed

theorem scheduler_invariant_reachable_witness:
  "(\<exists>ys. kinv {0x1000, 0x2000, 0x3000, 0x4000, 0x5000, 0x6000} (account_tick demo_sched) ys) \<and>
   (\<exists>s''. schedule (account_tick demo_sched) = Some s'')"
  by (rule scheduler_invariant_reachable [OF _ demo_kinv]) (rule r_into_rtranclp, rule kstep.tick)

text \<open>C4.  \<open>semaphore_up\<close> on a semaphore with waiters hands the unit to the oldest one:
  its entry leaves the wait queue (the others keep their order), its task becomes runnable and is
  inserted into the run queue by its virtual run time, the caller is asked to reschedule and the
  counter does not change.\<close>

theorem semaphore_up_wakes_oldest:
  assumes "sched_wf s xs" and "waitq s xs (wait m) (w # ws)"
    and "wait_tsk s w \<noteq> cur s" and "wait_tsk s w \<notin> set xs" and "wait_tsk s w \<noteq> rqhead s (SMP_cpu_id s)"
    and "wait_tsk s w \<noteq> init_task s (SMP_cpu_id s)" and "ts_cpu_id (tsk s (wait_tsk s w)) = SMP_cpu_id s"
    and "wait_tsk s w \<notin> set (wait m # ws)"
  shows "\<exists>s'. semaphore_up m s = Some (m, s') \<and> ring (lnk s') (wait m) ws \<and>
     sched_wf s' (rq_insert (\<lambda>t. sint (ts_vrun_time (tsk s t))) (wait_tsk s w) xs) \<and>
     ts_state (tsk s' (wait_tsk s w)) = TASK_RUNNING \<and>
     ts_flags (tsk s' (cur s)) = ts_flags (tsk s (cur s)) OR NEED_SCHEDULE"
proof -
  from assms(2) have r: "ring (lnk s) (wait m) (w # ws)" by (simp add: waitq_def)
  have "\<not> list_is_empty (lnk s) (wait m)" using kl.rep_empty [OF r] by simp
  then have "semaphore_up m s = wakeup_process (wait_tsk s w) (s\<lparr>lnk := list_del (lnk s) w\<rparr>)
      \<bind> (\<lambda>s'. Some (m, s'))"
    using kl.pop_front(1) [OF r] by (simp add: semaphore_up_def up_wait_eq)
  with wakeup_waiter [OF assms] show ?thesis by fastforce
qed

theorem semaphore_up_wakes_oldest_witness:
  "\<exists>s'. semaphore_up \<lparr>counter = 0, wait = 0x8000\<rparr> demo_sched = Some (\<lparr>counter = 0, wait = 0x8000\<rparr>, s') \<and>
     ring (lnk s') 0x8000 [] \<and> sched_wf s' [0x2000, 0x6000, 0x3000]"
proof -
  have "rq_insert (\<lambda>t. sint (ts_vrun_time (tsk demo_sched t))) (wait_tsk demo_sched 0x9000)
      [0x2000, 0x3000] = [0x2000, 0x6000, 0x3000]"
    by (simp add: rq_insert_def demo_sched_def demo_task_def zero_task_def)
  moreover have "\<exists>s'. semaphore_up \<lparr>counter = 0, wait = 0x8000\<rparr> demo_sched = Some (\<lparr>counter = 0, wait = 0x8000\<rparr>, s') \<and>
     ring (lnk s') (wait \<lparr>counter = 0, wait = 0x8000\<rparr>) [] \<and>
     sched_wf s' (rq_insert (\<lambda>t. sint (ts_vrun_time (tsk demo_sched t))) (wait_tsk demo_sched 0x9000)
       [0x2000, 0x3000]) \<and>
     ts_state (tsk s' (wait_tsk demo_sched 0x9000)) = TASK_RUNNING \<and>
     ts_flags (tsk s' (cur demo_sched)) = ts_flags (tsk demo_sched (cur demo_sched)) OR NEED_SCHEDULE"
    by (rule semaphore_up_wakes_oldest [OF demo_wf, where w = "0x9000" and ws = "[]"])
      (use demo_waitq in \<open>simp_all add: demo_sched_def demo_task_def zero_task_def SMP_cpu_id_def\<close>)
  ultimately show ?thesis by auto
qed

text \<open>\<open>semaphore_down\<close> on an exhausted semaphore puts the caller's entry at the end of the
  wait queue, marks the caller uninterruptible and gives the processor to the task with the least
  virtual run time (the idle task if none is queued); the caller is not queued and the counter does
  not change.\<close>

theorem semaphore_down_blocks:
  assumes "sched_wf s xs" and "waitq s xs (wait m) ws" and "\<not> counter m > 0"
    and "w \<notin> set (wait m # ws)" and "w \<notin> sched_nodes s xs"
  shows "\<exists>s'. semaphore_down w m s = Some (m, s') \<and> ring (lnk s') (wait m) (ws @ [w]) \<and>
     wait_tsk s' w = cur s \<and> ts_state (tsk s' (cur s)) = TASK_UNINTERRUPTIBLE \<and>
     (cur s', tl xs) = sched_pick (init_task s (SMP_cpu_id s)) xs \<and> sched_wf s' (tl xs)"
proof -
  let ?e = "sleep_enqueue w (wait m) TASK_UNINTERRUPTIBLE s"
  note E = sleep_enqueue_refines [OF assms(1,2,4,5), of TASK_UNINTERRUPTIBLE]
  have e: "init_task ?e = init_task s" "SMP_cpu_id ?e = SMP_cpu_id s"
    by (simp_all add: sleep_enqueue_def wait_queue_init_def upd_task_def SMP_cpu_id_def Let_def)
  obtain s' where s': "schedule ?e = Some s'" using schedule_returns [OF E(1)] by blast
  note R = schedule_post [OF E(1) s']
  have res: "sched_result ?e xs = sched_pick (init_task s (SMP_cpu_id s)) xs"
    by (simp add: sched_result_sleep E(4,5) e)
  have "snd (sched_pick (init_task s (SMP_cpu_id s)) xs) = tl xs"
    by (cases xs) (simp_all add: sched_pick_def)
  moreover have "ring (lnk s') (wait m) (ws @ [w])" using E(2) R(8) by (rule waitq_keep) simp
  ultimately show ?thesis
    using assms(3) s' R(1,2,4,7) E(3,4,5) res
    by (intro exI [of _ s']) (simp add: semaphore_down_def prod_eq_iff)
qed

theorem semaphore_down_blocks_witness:
  "\<exists>s'. semaphore_down 0xa000 \<lparr>counter = 0, wait = 0x8000\<rparr> demo_sched = Some (\<lparr>counter = 0, wait = 0x8000\<rparr>, s') \<and>
     ring (lnk s') (wait \<lparr>counter = 0, wait = 0x8000\<rparr>) ([0x9000] @ [0xa000]) \<and> wait_tsk s' 0xa000 = cur demo_sched \<and>
     ts_state (tsk s' (cur demo_sched)) = TASK_UNINTERRUPTIBLE \<and>
     (cur s', tl [0x2000, 0x3000]) =
       sched_pick (init_task demo_sched (SMP_cpu_id demo_sched)) [0x2000, 0x3000] \<and>
     sched_wf s' (tl [0x2000, 0x3000])"
  by (rule semaphore_down_blocks [OF demo_wf])
    (use demo_waitq in \<open>simp_all add: sched_nodes_def demo_sched_def demo_task_def zero_task_def SMP_cpu_id_def\<close>)

text \<open>\<open>schedule_init\<close> leaves every processor with an empty, well-formed run queue whose
  count is 1, provided the \<open>NR_CPUS\<close> queue heads are distinct.\<close>

theorem schedule_init_empty_queues:
  assumes "inj_on (rqhead s) {..<NR_CPUS}" and "c < NR_CPUS"
  shows "runq (schedule_init s) c []"
proof -
  let ?z = "fold (\<lambda>i s. upd_task (task_queue (task_schedule s i)) (\<lambda>_. zero_task) s) [0..<NR_CPUS] s"
  have "task_schedule (fold (\<lambda>i s. upd_task (task_queue (task_schedule s i)) (\<lambda>_. zero_task) s) is s)
      = task_schedule s" for "is" by (induction "is" arbitrary: s) simp_all
  then have "inj_on (rqhead ?z) (set [0..<NR_CPUS])" using assms(1) by (simp add: atLeast0LessThan)
  then show ?thesis unfolding schedule_init_def Let_def
    by (rule schedule_init_loop) (use assms(2) in simp)
qed

theorem schedule_init_empty_queues_witness:
  "runq (schedule_init (demo_sched\<lparr>task_schedule :=
     (\<lambda>i. \<lparr>running_task_count = 0, CPU_exec_task_jiffies = 0, task_queue = word_of_nat i\<rparr>)\<rparr>)) 3 []"
proof (rule schedule_init_empty_queues)
  show "inj_on (rqhead (demo_sched\<lparr>task_schedule :=
     (\<lambda>i. \<lparr>running_task_count = 0, CPU_exec_task_jiffies = 0, task_queue = word_of_nat i\<rparr>)\<rparr>)) {..<NR_CPUS}"
    by (auto simp: inj_on_def NR_CPUS_def word_of_nat_eq_iff take_bit_nat_eq_self)
qed (simp add: NR_CPUS_def)

text \<open>A time slice that has become negative is never refilled: \<open>schedule()\<close> keeps its
  value, whatever task it picks, and every further tick lowers it and asks for rescheduling again.\<close>

theorem negative_slice_persists:
  assumes "CPU_exec_task_jiffies (task_schedule s (SMP_cpu_id s)) < 0"
  shows "(\<forall>s'. schedule s = Some s' \<longrightarrow> CPU_exec_task_jiffies (task_schedule s' (SMP_cpu_id s)) =
      CPU_exec_task_jiffies (task_schedule s (SMP_cpu_id s))) \<and>
    CPU_exec_task_jiffies (task_schedule (account_tick s) (SMP_cpu_id s)) <
      CPU_exec_task_jiffies (task_schedule s (SMP_cpu_id s)) \<and>
    ts_flags (tsk (account_tick s) (cur s)) = ts_flags (tsk s (cur s)) OR NEED_SCHEDULE"
proof (intro conjI allI impI)
  fix s' assume "schedule s = Some s'"
  then show "CPU_exec_task_jiffies (task_schedule s' (SMP_cpu_id s)) =
      CPU_exec_task_jiffies (task_schedule s (SMP_cpu_id s))" using assms by (rule schedule_slice_neg)
qed (use assms in \<open>simp_all add: account_tick_def upd_sched_def upd_task_def Let_def\<close>)

theorem negative_slice_persists_witness:
  "CPU_exec_task_jiffies (task_schedule demo_sched (SMP_cpu_id demo_sched)) = -1 \<and>
   CPU_exec_task_jiffies (task_schedule (account_tick demo_sched) (SMP_cpu_id demo_sched)) < -1 \<and>
   (\<exists>s'. schedule demo_sched = Some s' \<and>
     CPU_exec_task_jiffies (task_schedule s' (SMP_cpu_id demo_sched)) = -1)"
proof -
  have d: "CPU_exec_task_jiffies (task_schedule demo_sched (SMP_cpu_id demo_sched)) = -1"
    by (simp add: demo_sched_def)
  obtain s' where "schedule demo_sched = Some s'" using schedule_returns [OF demo_wf] by blast
  with d negative_slice_persists [of demo_sched] show ?thesis by auto
qed

end
