(* ===== verification/Timer.thy ===== *)
theory Timer
  imports Schedule
begin

text \<open>
  Soft interrupts and kernel timers of \<open>src/main.c\<close> (\<open>register_softirq\<close> to
  \<open>timer_init\<close>) and the clock interrupt \<open>HPET_handler\<close> of \<open>src/HPET.c\<close>.

  The functions that soft interrupts and timers point to are code addresses.  What a call does is
  the parameter \<open>cb\<close> of the operations that make one; \<open>calls\<close> records the calls in order.
  A call through a null pointer faults (\<^const>\<open>None\<close>).
\<close>

section \<open>State\<close>

record timer_list =
  expect_jiffies :: u64
  tl_func :: addr
  tl_data :: addr

record softirq =
  action :: addr
  sq_data :: addr

record timers =
  tl_lnk :: links
  tm :: "addr \<Rightarrow> timer_list"
  timer_list_head :: addr
  jiffies :: u64
  softirq_status :: u64
  softirq_vector :: "nat \<Rightarrow> softirq"
  calls :: "(addr \<times> addr) list"

type_synonym callbacks = "addr \<Rightarrow> addr \<Rightarrow> timers \<Rightarrow> timers option"

definition invoke :: "callbacks \<Rightarrow> addr \<Rightarrow> addr \<Rightarrow> timers \<Rightarrow> timers option" where
  "invoke cb f d s = (if f = NULL then None else cb f d (s\<lparr>calls := calls s @ [(f, d)]\<rparr>))"

section \<open>Soft interrupts\<close>

definition register_softirq :: "nat \<Rightarrow> addr \<Rightarrow> addr \<Rightarrow> timers \<Rightarrow> timers" where
  "register_softirq nr f d s =
     s\<lparr>softirq_vector := (softirq_vector s)(nr := \<lparr>action = f, sq_data = d\<rparr>)\<rparr>"

definition unregister_softirq :: "nat \<Rightarrow> timers \<Rightarrow> timers" where
  "unregister_softirq nr s =
     s\<lparr>softirq_vector := (softirq_vector s)(nr := \<lparr>action = NULL, sq_data = NULL\<rparr>)\<rparr>"

definition set_softirq_status :: "u64 \<Rightarrow> timers \<Rightarrow> timers" where
  "set_softirq_status status s = s\<lparr>softirq_status := softirq_status s OR status\<rparr>"

definition get_softirq_status :: "timers \<Rightarrow> u64" where
  "get_softirq_status s = softirq_status s"

definition softirq_init :: "timers \<Rightarrow> timers" where
  "softirq_init s = s\<lparr>softirq_status := 0, softirq_vector := (\<lambda>_. \<lparr>action = NULL, sq_data = NULL\<rparr>)\<rparr>"

text \<open>
  \<open>1 << i\<close> is an \<open>int\<close>: the processor takes the shift count modulo 32, and the result is
  sign-extended when it meets the 64-bit status.
\<close>

definition int_bit :: "nat \<Rightarrow> u64" where
  "int_bit i = scast (push_bit (i mod 32) 1 :: 32 word)"

definition softirq_one :: "callbacks \<Rightarrow> nat \<Rightarrow> timers \<Rightarrow> timers option" where
  "softirq_one cb i s =
     (if softirq_status s AND int_bit i \<noteq> 0
      then do {
        s \<leftarrow> invoke cb (action (softirq_vector s i)) (sq_data (softirq_vector s i)) s;
        Some (s\<lparr>softirq_status := softirq_status s AND NOT (int_bit i)\<rparr>)
      }
      else Some s)"

fun softirq_pass :: "callbacks \<Rightarrow> nat list \<Rightarrow> timers \<Rightarrow> timers option" where
  "softirq_pass cb [] s = Some s"
| "softirq_pass cb (i # is) s = do { s \<leftarrow> softirq_one cb i s; softirq_pass cb is s }"

partial_function (option) do_softirq :: "callbacks \<Rightarrow> timers \<Rightarrow> timers option" where
  "do_softirq cb s =
     (if softirq_status s = 0 then Some s
      else do { s \<leftarrow> softirq_pass cb [0..<64] s; do_softirq cb s })"

section \<open>Timers\<close>

definition init_timer :: "addr \<Rightarrow> addr \<Rightarrow> addr \<Rightarrow> u64 \<Rightarrow> timers \<Rightarrow> timers" where
  "init_timer t f d e s =
     s\<lparr>tl_lnk := list_init (tl_lnk s) t,
       tm := (tm s)(t := \<lparr>expect_jiffies = jiffies s + e, tl_func = f, tl_data = d\<rparr>)\<rparr>"

partial_function (option) timer_walk :: "timers \<Rightarrow> addr \<Rightarrow> addr \<Rightarrow> addr option" where
  "timer_walk s t tmp =
     (if expect_jiffies (tm s tmp) < expect_jiffies (tm s t)
      then timer_walk s t (list_next (tl_lnk s) tmp) else Some tmp)"

definition add_timer :: "addr \<Rightarrow> timers \<Rightarrow> timers option" where
  "add_timer t s = do {
     tmp \<leftarrow> (if list_is_empty (tl_lnk s) (timer_list_head s)
             then Some (list_next (tl_lnk s) (timer_list_head s))
             else timer_walk s t (list_next (tl_lnk s) (timer_list_head s)));
     Some (s\<lparr>tl_lnk := list_add_to_behind (tl_lnk s) tmp t\<rparr>)
   }"

definition del_timer :: "addr \<Rightarrow> timers \<Rightarrow> timers" where
  "del_timer t s = s\<lparr>tl_lnk := list_del (tl_lnk s) t\<rparr>"

partial_function (option) do_timer_loop :: "callbacks \<Rightarrow> addr \<Rightarrow> timers \<Rightarrow> timers option" where
  "do_timer_loop cb tmp s =
     (if \<not> list_is_empty (tl_lnk s) (timer_list_head s) \<and> expect_jiffies (tm s tmp) \<le> jiffies s
      then do {
        s \<leftarrow> invoke cb (tl_func (tm s tmp)) (tl_data (tm s tmp)) (del_timer tmp s);
        do_timer_loop cb (list_next (tl_lnk s) (timer_list_head s)) s
      }
      else Some s)"

definition do_timer :: "callbacks \<Rightarrow> timers \<Rightarrow> timers option" where
  "do_timer cb s = do_timer_loop cb (list_next (tl_lnk s) (timer_list_head s)) s"

text \<open>\<open>timer_init\<close>; \<open>tmp\<close> is the block \<open>kmalloc\<close> returns.\<close>

definition timer_init :: "addr \<Rightarrow> addr \<Rightarrow> addr \<Rightarrow> timers \<Rightarrow> timers option" where
  "timer_init do_timer_fn test_timer_fn tmp s = do {
     let s = s\<lparr>jiffies := 0\<rparr>;
     let s = init_timer (timer_list_head s) NULL NULL (- 1) s;
     let s = register_softirq 0 do_timer_fn NULL s;
     let s = init_timer tmp test_timer_fn NULL 5 s;
     add_timer tmp s
   }"

definition TIMER_SIRQ :: u64 where "TIMER_SIRQ = 1"

text \<open>The whole clock interrupt: the tick count, the pending timer check and the accounting.\<close>

definition HPET_handler :: "timers \<times> ksched \<Rightarrow> timers \<times> ksched" where
  "HPET_handler = (\<lambda>(s, k).
     let s = s\<lparr>jiffies := jiffies s + 1\<rparr>;
         s = (if expect_jiffies (tm s (list_next (tl_lnk s) (timer_list_head s))) \<le> jiffies s
              then set_softirq_status TIMER_SIRQ s else s)
     in (s, account_tick k))"

section \<open>Soft interrupt dispatch\<close>

lemma int_bit_low: "i < 31 \<Longrightarrow> int_bit i = bit64 i"
  by (rule bit_word_eqI) (auto simp: int_bit_def bit_simps)

lemma int_bit_31: "int_bit 31 = NOT (mask 31)"
  by (simp add: int_bit_def mask_eq_exp_minus_1)

text \<open>The handlers of this section leave the pending bits and the vector alone.\<close>

definition quiet :: "callbacks \<Rightarrow> timers \<Rightarrow> bool" where
  "quiet cb s0 \<longleftrightarrow> (\<forall>f d s. f \<noteq> NULL \<longrightarrow> softirq_vector s = softirq_vector s0 \<longrightarrow>
     (\<exists>s'. cb f d s = Some s' \<and> softirq_status s' = softirq_status s \<and>
           softirq_vector s' = softirq_vector s0 \<and> calls s' = calls s))"

definition pending :: "timers \<Rightarrow> nat list \<Rightarrow> nat list" where
  "pending s is = filter (\<lambda>i. bit (softirq_status s) i) is"

definition sq_call :: "timers \<Rightarrow> nat \<Rightarrow> addr \<times> addr" where
  "sq_call s i = (action (softirq_vector s i), sq_data (softirq_vector s i))"

lemma quietD:
  "quiet cb s0 \<Longrightarrow> f \<noteq> NULL \<Longrightarrow> softirq_vector s = softirq_vector s0 \<Longrightarrow>
   \<exists>s'. cb f d s = Some s' \<and> softirq_status s' = softirq_status s \<and>
     softirq_vector s' = softirq_vector s0 \<and> calls s' = calls s"
  by (simp add: quiet_def)

lemma softirq_one_quiet:
  assumes q: "quiet cb s0" and v: "softirq_vector s = softirq_vector s0" and i: "i < 31"
    and a: "bit (softirq_status s) i \<Longrightarrow> action (softirq_vector s0 i) \<noteq> NULL"
  shows "\<exists>s'. softirq_one cb i s = Some s' \<and> softirq_vector s' = softirq_vector s0 \<and>
     softirq_status s' = softirq_status s AND NOT (bit64 i) \<and>
     calls s' = calls s @ map (sq_call s0) (pending s [i])"
proof (cases "bit (softirq_status s) i")
  case True
  then have "softirq_status s AND int_bit i \<noteq> 0"
    using i by (simp add: int_bit_low and_bit64_eq_0_iff)
  moreover obtain s' where "cb (action (softirq_vector s0 i)) (sq_data (softirq_vector s0 i))
      (s\<lparr>calls := calls s @ [sq_call s0 i]\<rparr>) = Some s'"
    "softirq_status s' = softirq_status s" "softirq_vector s' = softirq_vector s0"
    "calls s' = calls s @ [sq_call s0 i]"
    using quietD [OF q a [OF True], of "s\<lparr>calls := calls s @ [sq_call s0 i]\<rparr>"] v by auto
  ultimately show ?thesis using True a [OF True] v i
    by (simp add: softirq_one_def invoke_def sq_call_def int_bit_low pending_def)
next
  case False
  then have "softirq_status s AND int_bit i = 0" "softirq_status s AND NOT (bit64 i) = softirq_status s"
    using i by (simp_all add: int_bit_low and_bit64_eq_0_iff)
      (auto intro!: bit_word_eqI simp: bit_and_not_bit64)
  with False v show ?thesis by (simp add: softirq_one_def pending_def)
qed

lemma softirq_pass_quiet:
  assumes q: "quiet cb s0"
    and "softirq_vector s = softirq_vector s0" and "distinct js" and "\<forall>i\<in>set js. i < 31"
    and "\<forall>i\<in>set js. bit (softirq_status s) i \<longrightarrow> action (softirq_vector s0 i) \<noteq> NULL"
  shows "\<exists>s'. softirq_pass cb js s = Some s' \<and> softirq_vector s' = softirq_vector s0 \<and>
     (\<forall>i. bit (softirq_status s') i \<longleftrightarrow> bit (softirq_status s) i \<and> i \<notin> set js) \<and>
     calls s' = calls s @ map (sq_call s0) (pending s js)"
  using assms(2-)
proof (induction js arbitrary: s)
  case Nil
  then show ?case by (simp add: pending_def)
next
  case (Cons i js)
  from Cons.prems have "i < 31" "bit (softirq_status s) i \<Longrightarrow> action (softirq_vector s0 i) \<noteq> NULL"
    by auto
  from softirq_one_quiet [OF q Cons.prems(1) this]
  obtain s1 where s1: "softirq_one cb i s = Some s1" "softirq_vector s1 = softirq_vector s0"
    "softirq_status s1 = softirq_status s AND NOT (bit64 i)"
    "calls s1 = calls s @ map (sq_call s0) (pending s [i])" by auto
  then have b: "bit (softirq_status s1) k \<longleftrightarrow> bit (softirq_status s) k \<and> k \<noteq> i" for k
    by (simp add: bit_and_not_bit64)
  from Cons.prems have "distinct js" "\<forall>k\<in>set js. k < 31"
    "\<forall>k\<in>set js. bit (softirq_status s1) k \<longrightarrow> action (softirq_vector s0 k) \<noteq> NULL"
    by (auto simp: b)
  from Cons.IH [OF s1(2) this] obtain s' where s': "softirq_pass cb js s1 = Some s'"
    "softirq_vector s' = softirq_vector s0"
    "\<forall>k. bit (softirq_status s') k \<longleftrightarrow> bit (softirq_status s1) k \<and> k \<notin> set js"
    "calls s' = calls s1 @ map (sq_call s0) (pending s1 js)" by auto
  have "pending s1 js = pending s js"
    using Cons.prems(2) by (auto simp: pending_def b intro!: filter_cong)
  then have "calls s' = calls s @ map (sq_call s0) (pending s (i # js))"
    using s'(4) s1(4) by (simp add: pending_def)
  moreover have "bit (softirq_status s') k \<longleftrightarrow> bit (softirq_status s) k \<and> k \<notin> set (i # js)" for k
    using s'(3) b by auto
  ultimately show ?case using s1(1) s'(1,2) by simp
qed

lemma softirq_pass_append:
  "softirq_pass cb (is1 @ is2) s = do { s \<leftarrow> softirq_pass cb is1 s; softirq_pass cb is2 s }"
  by (induction is1 arbitrary: s) (simp_all cong: Option.bind_cong)

lemma softirq_pass_idle: "softirq_status s = 0 \<Longrightarrow> softirq_pass cb js s = Some s"
  by (induction js) (simp_all add: softirq_one_def)

section \<open>The timer list\<close>

text \<open>
  The timers \<open>xs\<close> are queued in this order; the head carries the largest number, so that
  the search of \<open>add_timer\<close> ends.
\<close>

abbreviation expires :: "timers \<Rightarrow> addr \<Rightarrow> u64" where
  "expires s t \<equiv> expect_jiffies (tm s t)"

definition timerq :: "timers \<Rightarrow> addr list \<Rightarrow> bool" where
  "timerq s xs \<longleftrightarrow> ring (tl_lnk s) (timer_list_head s) xs \<and> expires s (timer_list_head s) = - 1"

text \<open>Where \<open>add_timer\<close> puts a new timer: behind the first one that does not expire earlier,
  and in front of all of them if there is none.\<close>

definition tq_insert :: "('a \<Rightarrow> u64) \<Rightarrow> 'a \<Rightarrow> 'a list \<Rightarrow> 'a list" where
  "tq_insert key t xs = (case dropWhile (\<lambda>y. key y < key t) xs of
      [] \<Rightarrow> t # xs
    | v # vs \<Rightarrow> takeWhile (\<lambda>y. key y < key t) xs @ v # t # vs)"

lemma tq_insert_alt:
  "tq_insert key t xs = (case dropWhile (\<lambda>y. key y < key t) xs of
      [] \<Rightarrow> t # takeWhile (\<lambda>y. key y < key t) xs
    | v # vs \<Rightarrow> takeWhile (\<lambda>y. key y < key t) xs @ v # t # vs)"
proof (cases "dropWhile (\<lambda>y. key y < key t) xs = []")
  case True
  with takeWhile_dropWhile_id [of "\<lambda>y. key y < key t" xs]
  have tw: "takeWhile (\<lambda>y. key y < key t) xs = xs" by simp
  show ?thesis unfolding tq_insert_def tw ..
qed (auto simp: tq_insert_def split: list.split)

interpretation tw: ring_walk "nxt (tl_lnk s)"
  "\<lambda>p. expect_jiffies (tm s p) < expect_jiffies (tm s t)" "timer_walk s t" for s t
  by unfold_locales (subst timer_walk.simps, simp)

lemma add_timer_refines:
  assumes q: "timerq s xs" and t: "t \<noteq> timer_list_head s" "t \<notin> set xs"
  obtains s' where "add_timer t s = Some s'" and "timerq s' (tq_insert (expires s) t xs)"
    and "tm s' = tm s" and "jiffies s' = jiffies s" and "calls s' = calls s"
    and "timer_list_head s' = timer_list_head s"
proof -
  let ?a = "timer_list_head s" and ?P = "\<lambda>y. expires s y < expires s t"
  let ?us = "takeWhile ?P xs" and ?vs = "dropWhile ?P xs"
  let ?s' = "s\<lparr>tl_lnk := list_add_to_behind (tl_lnk s) (hd (?vs @ [?a])) t\<rparr>"
  from q have r: "ring (tl_lnk s) ?a xs" and m: "expires s ?a = - 1" by (auto simp: timerq_def)
  have "\<not> ?P ?a" by (simp add: m)
  from tw.walk_chain [OF ring_follows [OF r], of t, OF this]
  have "timer_walk s t (hd (xs @ [?a])) = Some (hd (?vs @ [?a]))" .
  with kl.rep_succ [OF r] kl.rep_empty [OF r] have a: "add_timer t s = Some ?s'"
    by (auto simp: add_timer_def)
  have r2: "ring (tl_lnk s) ?a (?us @ ?vs)" using r by simp
  have "t \<notin> set (?a # ?us @ ?vs)" using t by simp
  from kl.insert_behind_suffix [OF r2 this]
  have "ring (tl_lnk ?s') ?a (tq_insert (expires s) t xs)" by (simp add: tq_insert_alt)
  with a m show thesis by (intro that [of ?s']) (simp_all add: timerq_def)
qed

text \<open>The timer functions of this section leave the timer list alone.\<close>

definition tm_quiet :: "callbacks \<Rightarrow> bool" where
  "tm_quiet cb \<longleftrightarrow> (\<forall>f d s. f \<noteq> NULL \<longrightarrow>
     (\<exists>s'. cb f d s = Some s' \<and> tl_lnk s' = tl_lnk s \<and> tm s' = tm s \<and> calls s' = calls s \<and>
           timer_list_head s' = timer_list_head s \<and> jiffies s' = jiffies s))"

lemma tm_quietD:
  "tm_quiet cb \<Longrightarrow> f \<noteq> NULL \<Longrightarrow>
   \<exists>s'. cb f d s = Some s' \<and> tl_lnk s' = tl_lnk s \<and> tm s' = tm s \<and> calls s' = calls s \<and>
     timer_list_head s' = timer_list_head s \<and> jiffies s' = jiffies s"
  by (simp add: tm_quiet_def)

definition tm_call :: "timers \<Rightarrow> addr \<Rightarrow> addr \<times> addr" where
  "tm_call s t = (tl_func (tm s t), tl_data (tm s t))"

text \<open>The timers a pass of \<open>do_timer\<close> fires: the expired ones at the front of the list.\<close>

definition due :: "timers \<Rightarrow> addr list \<Rightarrow> addr list" where
  "due s xs = takeWhile (\<lambda>t. expires s t \<le> jiffies s) xs"

lemma do_timer_loop_refines:
  assumes cb: "tm_quiet cb" and "timerq s xs" and "\<forall>t\<in>set (due s xs). tl_func (tm s t) \<noteq> NULL"
  shows "\<exists>s'. do_timer_loop cb (hd (xs @ [timer_list_head s])) s = Some s' \<and>
     timerq s' (drop (length (due s xs)) xs) \<and> calls s' = calls s @ map (tm_call s) (due s xs) \<and>
     jiffies s' = jiffies s \<and> tm s' = tm s"
  using assms(2,3)
proof (induction xs arbitrary: s)
  case Nil
  then have "list_is_empty (tl_lnk s) (timer_list_head s)"
    using kl.rep_empty [of "tl_lnk s" "timer_list_head s" "[]"] by (simp add: timerq_def)
  with Nil show ?case by (subst do_timer_loop.simps) (simp add: due_def)
next
  case (Cons x xs)
  from Cons.prems(1) have r: "ring (tl_lnk s) (timer_list_head s) (x # xs)" by (simp add: timerq_def)
  then have ne: "\<not> list_is_empty (tl_lnk s) (timer_list_head s)" using kl.rep_empty [OF r] by simp
  show ?case
  proof (cases "expires s x \<le> jiffies s")
    case True
    let ?d = "(del_timer x s)\<lparr>calls := calls s @ [tm_call s x]\<rparr>"
    from Cons.prems(2) True have f: "tl_func (tm s x) \<noteq> NULL" by (simp add: due_def)
    from tm_quietD [OF cb f, of "tl_data (tm s x)" ?d] obtain s1 where
      s1: "cb (tl_func (tm s x)) (tl_data (tm s x)) ?d = Some s1" "tl_lnk s1 = list_del (tl_lnk s) x"
      "tm s1 = tm s" "calls s1 = calls s @ [tm_call s x]"
      "timer_list_head s1 = timer_list_head s" "jiffies s1 = jiffies s"
      by (auto simp: del_timer_def)
    have q1: "timerq s1 xs" using kl.pop_front [OF r] Cons.prems(1) s1 by (simp add: timerq_def)
    have due: "due s (x # xs) = x # due s1 xs" using True s1 by (simp add: due_def)
    with Cons.prems(2) s1 have "\<forall>t\<in>set (due s1 xs). tl_func (tm s1 t) \<noteq> NULL" by simp
    from Cons.IH [OF q1 this] obtain s' where
      "do_timer_loop cb (hd (xs @ [timer_list_head s1])) s1 = Some s'"
      "timerq s' (drop (length (due s1 xs)) xs)" "calls s' = calls s1 @ map (tm_call s1) (due s1 xs)"
      "jiffies s' = jiffies s1" "tm s' = tm s1" by blast
    moreover have "nxt (tl_lnk s1) (timer_list_head s1) = hd (xs @ [timer_list_head s1])"
      using q1 kl.rep_succ by (simp add: timerq_def)
    moreover have "map (tm_call s1) ys = map (tm_call s) ys" for ys using s1 by (simp add: tm_call_def)
    ultimately show ?thesis using ne True f s1 due
      by (subst do_timer_loop.simps)
        (simp add: invoke_def tm_call_def del_timer_def)
  next
    case False
    with Cons.prems show ?thesis by (subst do_timer_loop.simps) (simp add: due_def)
  qed
qed

lemma timer_init_timerq:
  assumes "tmp \<noteq> timer_list_head s"
  shows "\<exists>s'. timer_init f g tmp s = Some s' \<and> timerq s' [tmp] \<and> expires s' tmp = 5"
proof -
  let ?a = "timer_list_head s"
  let ?s1 = "init_timer ?a NULL NULL (- 1) (s\<lparr>jiffies := 0\<rparr>)"
  let ?s2 = "init_timer tmp g NULL 5 (register_softirq 0 f NULL ?s1)"
  have "timerq ?s2 []"
    using assms init_frame [OF list_init_ring [of "tl_lnk s" ?a], of tmp]
    by (simp add: timerq_def init_timer_def register_softirq_def)
  moreover have "tmp \<noteq> timer_list_head ?s2" "tmp \<notin> set []"
    using assms by (simp_all add: init_timer_def register_softirq_def)
  ultimately obtain s' where "add_timer tmp ?s2 = Some s'"
    "timerq s' (tq_insert (expires ?s2) tmp [])" "tm s' = tm ?s2"
    by (rule add_timer_refines)
  then show ?thesis
    by (simp add: timer_init_def tq_insert_def Let_def)
      (simp add: init_timer_def register_softirq_def)
qed

section \<open>Properties\<close>

definition demo_timers :: timers where
  "demo_timers = \<lparr>
     tl_lnk = \<lparr>nxt = (\<lambda>_. 0)(0x100 := 0x200, 0x200 := 0x300, 0x300 := 0x100),
               prv = (\<lambda>_. 0)(0x200 := 0x100, 0x300 := 0x200, 0x100 := 0x300)\<rparr>,
     tm = (\<lambda>_. \<lparr>expect_jiffies = 40, tl_func = 0x7000, tl_data = 9\<rparr>)
       (0x100 := \<lparr>expect_jiffies = - 1, tl_func = 0, tl_data = 0\<rparr>,
        0x200 := \<lparr>expect_jiffies = 5, tl_func = 0x7000, tl_data = 1\<rparr>,
        0x300 := \<lparr>expect_jiffies = 12, tl_func = 0x7000, tl_data = 2\<rparr>),
     timer_list_head = 0x100, jiffies = 10, softirq_status = 5,
     softirq_vector = (\<lambda>i. \<lparr>action = 0x8000, sq_data = word_of_nat i\<rparr>), calls = []\<rparr>"

definition demo_cb :: callbacks where
  "demo_cb f d s = Some s"

lemma demo_timerq: "timerq demo_timers [0x200, 0x300]"
  by (simp add: timerq_def ring_def demo_timers_def)

lemma demo_cb_quiet: "quiet demo_cb s" "tm_quiet demo_cb"
  by (simp_all add: quiet_def tm_quiet_def demo_cb_def)

text \<open>C5.  \<open>do_softirq\<close> ends, calls the handler of every pending soft interrupt below 31 exactly
  once, in ascending order, and leaves no interrupt pending, if the handlers return and raise no
  new soft interrupt.\<close>

theorem do_softirq_dispatches:
  assumes "quiet cb s" and "\<forall>i. bit (softirq_status s) i \<longrightarrow> i < 31 \<and> action (softirq_vector s i) \<noteq> NULL"
  shows "\<exists>s'. do_softirq cb s = Some s' \<and> softirq_status s' = 0 \<and>
     calls s' = calls s @ map (\<lambda>i. (action (softirq_vector s i), sq_data (softirq_vector s i)))
       (filter (bit (softirq_status s)) [0..<31])"
proof (cases "softirq_status s = 0")
  case True
  then show ?thesis by (subst do_softirq.simps) simp
next
  case False
  from softirq_pass_quiet [OF assms(1), of s "[0..<31]"] assms(2) obtain s1 where
    s1: "softirq_pass cb [0..<31] s = Some s1"
    "\<forall>i. bit (softirq_status s1) i \<longleftrightarrow> bit (softirq_status s) i \<and> i \<notin> set [0..<31]"
    "calls s1 = calls s @ map (sq_call s) (pending s [0..<31])" by auto
  have z: "softirq_status s1 = 0" using s1(2) assms(2) by (intro bit_word_eqI) auto
  have "[0..<64::nat] = [0..<31] @ [31..<64]" using upt_add_eq_append [of 0 31 33] by simp
  then have "softirq_pass cb [0..<64] s = Some s1"
    by (simp only: softirq_pass_append s1(1) softirq_pass_idle [OF z] Option.bind.bind_lunit)
  then have "do_softirq cb s = Some s1"
    using False z by (simp add: do_softirq.simps [of cb s] do_softirq.simps [of cb s1])
  with z s1(3) show ?thesis by (simp add: sq_call_def pending_def)
qed

theorem do_softirq_dispatches_witness:
  "\<exists>s'. do_softirq demo_cb demo_timers = Some s' \<and> softirq_status s' = 0 \<and>
     calls s' = [(0x8000, 0), (0x8000, 2)]"
proof -
  have b: "bit (5 :: u64) i \<longleftrightarrow> i = 0 \<or> i = 2" for i
    by (auto simp: bit_simps bit_numeral_rec nat_less_le numeral_2_eq_2 split: nat.splits)
  have st: "softirq_status demo_timers = 5" by (simp add: demo_timers_def)
  have "\<forall>i. bit (softirq_status demo_timers) i \<longrightarrow>
      i < 31 \<and> action (softirq_vector demo_timers i) \<noteq> NULL"
    unfolding st b by (simp add: demo_timers_def)
  moreover have "filter (bit (softirq_status demo_timers)) [0..<31] = [0, 2]"
    by (simp add: st upt_rec)
  ultimately show ?thesis
    using do_softirq_dispatches [OF demo_cb_quiet(1), of demo_timers] by (simp add: demo_timers_def)
qed

text \<open>A soft interrupt number above 31 reaches the wrong handler: \<open>1 << i\<close> is an
  \<open>int\<close>, so with only bit \<open>i\<close> pending, \<open>32 \<le> i < 64\<close>, \<open>do_softirq\<close> calls handler 31 once,
  never handler \<open>i\<close>, and clears the bit.\<close>

theorem do_softirq_high_bit:
  assumes "quiet cb s" and "softirq_status s = push_bit i 1" and "32 \<le> i" and "i < 64"
    and "action (softirq_vector s 31) \<noteq> NULL"
  shows "\<exists>s'. do_softirq cb s = Some s' \<and> softirq_status s' = 0 \<and>
     calls s' = calls s @ [(action (softirq_vector s 31), sq_data (softirq_vector s 31))]"
proof -
  have st: "softirq_status s = bit64 i" using assms(2) by simp
  have low: "softirq_pass cb [0..<31] s = Some s"
  proof -
    have "\<forall>k\<in>set [0..<31]. \<not> bit (softirq_status s) k"
      unfolding st using assms(3) by (auto simp: bit_bit64)
    then have "softirq_one cb k s = Some s" if "k < 31" for k
      using that by (simp add: softirq_one_def int_bit_low and_bit64_eq_0_iff del: bit_exp_iff)
    then have "softirq_pass cb ks s = Some s" if "\<forall>k\<in>set ks. k < 31" for ks
      using that by (induction ks) auto
    then show ?thesis by simp
  qed
  let ?f = "action (softirq_vector s 31)" and ?d = "sq_data (softirq_vector s 31)"
  from quietD [OF assms(1,5), of "s\<lparr>calls := calls s @ [(?f, ?d)]\<rparr>" ?d] obtain s1 where
    s1: "cb ?f ?d (s\<lparr>calls := calls s @ [(?f, ?d)]\<rparr>) = Some s1" "softirq_status s1 = bit64 i"
    "calls s1 = calls s @ [(?f, ?d)]" using st by auto
  have hit: "bit64 i AND int_bit 31 \<noteq> 0" "bit64 i AND NOT (int_bit 31) = 0"
    using assms(3,4) and_bit64_eq_0_iff [of i "int_bit 31"]
    by (auto simp: int_bit_31 bit_simps and.commute intro!: bit_word_eqI)
  let ?s' = "s1\<lparr>softirq_status := 0\<rparr>"
  have one: "softirq_one cb 31 s = Some ?s'"
    using hit s1 assms(5) st by (simp add: softirq_one_def invoke_def)
  have "[0..<64::nat] = [0..<31] @ 31 # [32..<64]"
    using upt_add_eq_append [of 0 31 33] by (simp add: upt_conv_Cons)
  then have "softirq_pass cb [0..<64] s = Some ?s'"
    using softirq_pass_idle [of ?s' cb "[32..<64]"]
    by (simp only: softirq_pass_append low one softirq_pass.simps Option.bind.bind_lunit) simp
  moreover have "softirq_status s \<noteq> 0" using st assms(4) by (simp add: exp_eq_0_imp_not_bit)
  ultimately have "do_softirq cb s = Some ?s'"
    by (simp add: do_softirq.simps [of cb s] do_softirq.simps [of cb ?s'])
  with s1(3) show ?thesis by simp
qed

theorem do_softirq_high_bit_witness:
  "\<exists>s'. do_softirq demo_cb (demo_timers\<lparr>softirq_status := push_bit 40 1\<rparr>) = Some s' \<and>
     softirq_status s' = 0 \<and> calls s' = [(0x8000, 31)]"
  using do_softirq_high_bit [OF demo_cb_quiet(1), of "demo_timers\<lparr>softirq_status := push_bit 40 1\<rparr>" 40]
  by (simp add: demo_timers_def)

text \<open>C6.  \<open>do_timer\<close> ends and fires, in list order and each once, exactly the expired timers at
  the front of the timer list, and removes exactly those, if the timer functions return and leave
  the list alone.\<close>

theorem do_timer_fires_due:
  assumes "tm_quiet cb" and "timerq s xs" and "\<forall>t\<in>set (due s xs). tl_func (tm s t) \<noteq> NULL"
  shows "\<exists>s'. do_timer cb s = Some s' \<and>
     calls s' = calls s @ map (\<lambda>t. (tl_func (tm s t), tl_data (tm s t))) (due s xs) \<and>
     timerq s' (drop (length (due s xs)) xs)"
proof -
  have "nxt (tl_lnk s) (timer_list_head s) = hd (xs @ [timer_list_head s])"
    using assms(2) kl.rep_succ by (simp add: timerq_def)
  with do_timer_loop_refines [OF assms] show ?thesis by (auto simp: do_timer_def tm_call_def)
qed

theorem do_timer_fires_due_witness:
  "\<exists>s'. do_timer demo_cb demo_timers = Some s' \<and> calls s' = [(0x7000, 1)] \<and> timerq s' [0x300]"
proof -
  have "due demo_timers [0x200, 0x300] = [0x200]" by (simp add: due_def demo_timers_def)
  with do_timer_fires_due [OF demo_cb_quiet(2) demo_timerq] show ?thesis
    by (simp add: demo_timers_def)
qed

text \<open>\<open>add_timer\<close> returns and puts the timer behind the first queued timer that does not
  expire earlier.  When every queued timer expires earlier it puts the new one in front of all of
  them, so that until it expires itself \<open>do_timer\<close> fires nothing, whatever has expired.\<close>

theorem add_timer_latest_blocks:
  assumes "timerq s xs" and "t \<noteq> timer_list_head s" and "t \<notin> set xs"
    and "\<forall>x\<in>set xs. expect_jiffies (tm s x) < expect_jiffies (tm s t)"
    and "jiffies s < expect_jiffies (tm s t)"
  shows "\<exists>s'. add_timer t s = Some s' \<and> timerq s' (t # xs) \<and> do_timer cb s' = Some s'"
proof -
  from add_timer_refines [OF assms(1-3)] obtain s' where s': "add_timer t s = Some s'"
    "timerq s' (tq_insert (expires s) t xs)" "tm s' = tm s" "jiffies s' = jiffies s"
    "timer_list_head s' = timer_list_head s" by blast
  have "dropWhile (\<lambda>y. expires s y < expires s t) xs = []" using assms(4) by simp
  then have "tq_insert (expires s) t xs = t # xs" by (simp only: tq_insert_def list.case)
  with s'(2) have q: "timerq s' (t # xs)" by simp
  then have "nxt (tl_lnk s') (timer_list_head s') = t"
    using kl.rep_succ [of "tl_lnk s'" "timer_list_head s'" "t # xs"] by (simp add: timerq_def)
  then have "do_timer cb s' = Some s'"
    using s' assms(5) by (simp add: do_timer_def do_timer_loop.simps [of _ _ s'] not_le [symmetric])
  with s'(1) q show ?thesis by blast
qed

theorem add_timer_latest_blocks_witness:
  "\<exists>s'. add_timer 0x400 demo_timers = Some s' \<and> timerq s' [0x400, 0x200, 0x300] \<and>
     do_timer demo_cb s' = Some s'"
  by (rule add_timer_latest_blocks [OF demo_timerq]) (simp_all add: demo_timers_def)

end
