(* ===== verification/Spinlock.thy ===== *)
theory Spinlock
  imports Prelude
begin

text \<open>
  The spin locks of \<open>src/task.h\<close>.  One lock is shared by \<open>N\<close> processors; each atomic
  memory access of the inline assembly is one step, and the steps of the processors interleave.
  The lock word is 1 when the lock is free; \<open>preempt_count\<close> is the counter of the task that
  runs on a processor.  Which code a processor executes while it holds the lock is left open.
\<close>

datatype spin_pc =
    Idle   \<comment> \<open>not in a lock function and not holding the lock\<close>
  | Try    \<comment> \<open>before \<open>lock decq\<close> at label 1\<close>
  | Spin   \<comment> \<open>in the waiting loop at label 2\<close>
  | Held   \<comment> \<open>behind label 3, until \<open>spin_unlock\<close>\<close>

record spinlock =
  lock_word :: u64
  spin_pc :: "nat \<Rightarrow> spin_pc"
  preempt_count :: "nat \<Rightarrow> int"

definition goto :: "nat \<Rightarrow> spin_pc \<Rightarrow> spinlock \<Rightarrow> spinlock" where
  "goto c p s = s\<lparr>spin_pc := (spin_pc s)(c := p)\<rparr>"

definition preempt_disable :: "nat \<Rightarrow> spinlock \<Rightarrow> spinlock" where
  "preempt_disable c s = s\<lparr>preempt_count := (preempt_count s)(c := preempt_count s c + 1)\<rparr>"

definition preempt_enable :: "nat \<Rightarrow> spinlock \<Rightarrow> spinlock" where
  "preempt_enable c s = s\<lparr>preempt_count := (preempt_count s)(c := preempt_count s c - 1)\<rparr>"

definition spin_init :: "spinlock \<Rightarrow> spinlock" where
  "spin_init s = s\<lparr>lock_word := 1\<rparr>"

section \<open>\<open>spin_lock\<close>, step by step\<close>

definition spin_lock_enter :: "nat \<Rightarrow> spinlock \<Rightarrow> spinlock" where
  "spin_lock_enter c s = goto c Try (preempt_disable c s)"

definition spin_lock_dec :: "nat \<Rightarrow> spinlock \<Rightarrow> spinlock" where
  "spin_lock_dec c s =
     (let s = s\<lparr>lock_word := lock_word s - 1\<rparr>
      in goto c (if 0 \<le> sint (lock_word s) then Held else Spin) s)"

definition spin_lock_wait :: "nat \<Rightarrow> spinlock \<Rightarrow> spinlock" where
  "spin_lock_wait c s = goto c (if sint (lock_word s) \<le> 0 then Spin else Try) s"

definition spin_unlock :: "nat \<Rightarrow> spinlock \<Rightarrow> spinlock" where
  "spin_unlock c s = preempt_enable c (goto c Idle (s\<lparr>lock_word := 1\<rparr>))"

text \<open>The result is the old lock word; the caller takes a result that is not 0 as success.\<close>

definition spin_trylock :: "nat \<Rightarrow> spinlock \<Rightarrow> u64 \<times> spinlock" where
  "spin_trylock c s =
     (let s = preempt_disable c s; tmp_value = lock_word s; s = s\<lparr>lock_word := 0\<rparr>
      in (tmp_value, if tmp_value = 0 then preempt_enable c s else goto c Held s))"

inductive spin_step :: "nat \<Rightarrow> spinlock \<Rightarrow> spinlock \<Rightarrow> bool" for N :: nat where
  enter: "c < N \<Longrightarrow> spin_pc s c = Idle \<Longrightarrow> spin_step N s (spin_lock_enter c s)"
| dec: "c < N \<Longrightarrow> spin_pc s c = Try \<Longrightarrow> spin_step N s (spin_lock_dec c s)"
| wait: "c < N \<Longrightarrow> spin_pc s c = Spin \<Longrightarrow> spin_step N s (spin_lock_wait c s)"
| unlock: "c < N \<Longrightarrow> spin_pc s c = Held \<Longrightarrow> spin_step N s (spin_unlock c s)"

inductive_cases spin_stepE: "spin_step N s s'"

definition spin_start :: spinlock where
  "spin_start = spin_init \<lparr>lock_word = 0, spin_pc = \<lambda>_. Idle, preempt_count = \<lambda>_. 0\<rparr>"

section \<open>The invariant\<close>

text \<open>A free lock is 1.  While one processor holds it the word is \<open>- k\<close>, where \<open>k\<close> is the
  number of processors that tried since, all of them still in the waiting loop.\<close>

definition spinners :: "nat \<Rightarrow> spinlock \<Rightarrow> nat set" where
  "spinners N s = {c. c < N \<and> spin_pc s c = Spin}"

definition holders :: "nat \<Rightarrow> spinlock \<Rightarrow> nat set" where
  "holders N s = {c. c < N \<and> spin_pc s c = Held}"

definition spin_inv :: "nat \<Rightarrow> spinlock \<Rightarrow> bool" where
  "spin_inv N s \<longleftrightarrow>
     (holders N s = {} \<and> lock_word s = 1 \<or>
      (\<exists>h k. holders N s = {h} \<and> k \<le> card (spinners N s) \<and> lock_word s = word_of_int (- int k))) \<and>
     (\<forall>c < N. preempt_count s c = of_bool (spin_pc s c \<noteq> Idle))"

lemmas spin_defs = spin_init_def goto_def preempt_disable_def preempt_enable_def spin_lock_enter_def
  spin_lock_dec_def spin_lock_wait_def spin_unlock_def Let_def

lemma sint_neg: "k \<le> 2 ^ 63 \<Longrightarrow> sint (word_of_int (- int k) :: u64) = - int k"
  by (rule sint_of_int_small) auto

lemma dec_neg: "word_of_int (- int k) - 1 = (word_of_int (- int (Suc k)) :: u64)"
  by (simp add: algebra_simps)

lemma sint_dec_neg: "Suc k \<le> 2 ^ 63 \<Longrightarrow> sint (word_of_int (- int k) - 1 :: u64) = - int (Suc k)"
  unfolding dec_neg by (rule sint_neg)

lemma card_spinners_le: "card (spinners N s) \<le> N"
  using card_mono [of "{..<N}" "spinners N s"] by (auto simp: spinners_def)

lemma finite_spinners [simp]: "finite (spinners N s)"
  by (simp add: spinners_def)

lemma spin_inv_start: "spin_inv N spin_start"
  by (simp add: spin_inv_def spin_start_def spin_defs holders_def)

lemma spin_inv_step:
  assumes "spin_step N s s'" and "spin_inv N s" and "N < 2 ^ 63"
  shows "spin_inv N s'"
  using assms(1)
proof cases
  case (enter c)
  then have "holders N s' = holders N s" "spinners N s' = spinners N s" "lock_word s' = lock_word s"
    by (auto simp: spin_defs holders_def spinners_def)
  with enter assms(2) show ?thesis by (auto simp: spin_inv_def spin_defs)
next
  case (dec c)
  show ?thesis
  proof (cases "holders N s = {}")
    case True
    with assms(2) have "lock_word s = 1" by (auto simp: spin_inv_def)
    then have "lock_word s' = word_of_int (- int 0)" "holders N s' = {c}"
      using dec True by (auto simp: spin_defs holders_def)
    with dec assms(2) show ?thesis
      unfolding spin_inv_def by (intro conjI disjI2 exI [of _ c] exI [of _ 0]) (auto simp: spin_defs)
  next
    case False
    with assms(2) obtain h k where hk: "holders N s = {h}" "k \<le> card (spinners N s)"
        "lock_word s = word_of_int (- int k)" by (auto simp: spin_inv_def)
    have "Suc k \<le> 2 ^ 63" using hk(2) card_spinners_le [of N s] assms(3) by simp
    then have "sint (lock_word s - 1) = - int (Suc k)"
      unfolding hk(3) by (rule sint_dec_neg)
    then have s': "s' = goto c Spin (s\<lparr>lock_word := lock_word s - 1\<rparr>)"
      using dec by (simp add: spin_lock_dec_def Let_def)
    have "lock_word s' = word_of_int (- int (Suc k))" using s' hk(3) dec_neg by (simp add: goto_def)
    moreover have "holders N s' = holders N s" using s' dec by (auto simp: holders_def goto_def)
    then have "holders N s' = {h}" using hk(1) by simp
    moreover have "spinners N s' = insert c (spinners N s)" "c \<notin> spinners N s"
      using s' dec by (auto simp: spinners_def goto_def)
    then have "Suc k \<le> card (spinners N s')" using hk(2) by simp
    moreover have "\<forall>d < N. preempt_count s' d = of_bool (spin_pc s' d \<noteq> Idle)"
      using assms(2) s' dec by (auto simp: spin_inv_def goto_def)
    ultimately show ?thesis unfolding spin_inv_def by blast
  qed
next
  case (wait c)
  show ?thesis
  proof (cases "holders N s = {}")
    case True
    with assms(2) wait show ?thesis
      by (auto simp: spin_inv_def spin_defs holders_def)
  next
    case False
    with assms(2) obtain h k where hk: "holders N s = {h}" "k \<le> card (spinners N s)"
        "lock_word s = word_of_int (- int k)" by (auto simp: spin_inv_def)
    have "k \<le> 2 ^ 63" using hk(2) card_spinners_le [of N s] assms(3) by simp
    from sint_neg [OF this] have "s' = goto c Spin s"
      using wait hk(3) by (simp add: spin_lock_wait_def)
    then have "s' = s" using wait by (simp add: goto_def fun_upd_idem)
    with assms(2) show ?thesis by simp
  qed
next
  case (unlock c)
  have "c \<in> holders N s" using unlock by (simp add: holders_def)
  with assms(2) have "holders N s = {c}" by (auto simp: spin_inv_def)
  moreover have "holders N s' = holders N s - {c}" using unlock by (auto simp: holders_def spin_defs)
  ultimately have "holders N s' = {}" by simp
  with assms(2) unlock show ?thesis by (auto simp: spin_inv_def spin_defs)
qed

lemma spin_inv_reachable:
  "(spin_step N)\<^sup>*\<^sup>* s s' \<Longrightarrow> spin_inv N s \<Longrightarrow> N < 2 ^ 63 \<Longrightarrow> spin_inv N s'"
  by (induction rule: rtranclp_induct) (auto intro: spin_inv_step)

section \<open>Properties\<close>

text \<open>C15.  Mutual exclusion: in every interleaving of lock and unlock operations of fewer than
  \<open>2^63\<close> processors at most one holds the lock, preemption is disabled exactly on the processors
  inside the lock functions or holding it, and when nobody holds it the next decrement obtains it.\<close>

theorem spinlock_mutual_exclusion:
  assumes "(spin_step N)\<^sup>*\<^sup>* spin_start s" and "N < 2 ^ 63" and "c < N" and "d < N"
    and "spin_pc s c = Held"
  shows "(spin_pc s d = Held \<longrightarrow> d = c) \<and> preempt_count s c = 1 \<and>
     (spin_pc s d = Try \<longrightarrow>
        spin_pc (spin_lock_dec d s) d = Spin \<and> spin_pc (spin_lock_dec d (spin_unlock c s)) d = Held)"
proof -
  have inv: "spin_inv N s" using spin_inv_reachable [OF assms(1) spin_inv_start assms(2)] .
  have c: "c \<in> holders N s" using assms(3,5) by (simp add: holders_def)
  with inv obtain k where hk: "holders N s = {c}" "k \<le> card (spinners N s)"
      "lock_word s = word_of_int (- int k)" by (auto simp: spin_inv_def)
  have "Suc k \<le> 2 ^ 63" using hk(2) card_spinners_le [of N s] assms(2) by simp
  then have "sint (lock_word s - 1) = - int (Suc k)" unfolding hk(3) by (rule sint_dec_neg)
  then have "spin_pc (spin_lock_dec d s) d = Spin" by (simp add: spin_defs)
  moreover have "spin_pc (spin_lock_dec d (spin_unlock c s)) d = Held" by (simp add: spin_defs)
  moreover have "spin_pc s d = Held \<Longrightarrow> d \<in> holders N s" using assms(4) by (simp add: holders_def)
  then have "spin_pc s d = Held \<longrightarrow> d = c" unfolding hk(1) by blast
  moreover have "preempt_count s c = 1" using inv assms(3,5) by (simp add: spin_inv_def)
  ultimately show ?thesis by blast
qed

theorem spinlock_mutual_exclusion_witness:
  "\<exists>s. (spin_step 2)\<^sup>*\<^sup>* spin_start s \<and> spin_pc s 0 = Held \<and> spin_pc s 1 \<noteq> Held"
proof -
  let ?s = "spin_lock_dec 0 (spin_lock_enter 0 spin_start)"
  have "spin_step 2 spin_start (spin_lock_enter 0 spin_start)"
    by (rule spin_step.enter) (simp_all add: spin_start_def spin_defs)
  moreover have "spin_step 2 (spin_lock_enter 0 spin_start) ?s"
    by (rule spin_step.dec) (simp_all add: spin_start_def spin_defs)
  ultimately have r: "(spin_step 2)\<^sup>*\<^sup>* spin_start ?s" by (meson converse_rtranclp_into_rtranclp rtranclp.rtrancl_refl)
  have h: "spin_pc ?s 0 = Held" by (simp add: spin_start_def spin_defs)
  from spinlock_mutual_exclusion [OF r, of 0 1] h r show ?thesis by auto
qed

text \<open>\<open>spin_trylock\<close> does not respect a contended lock: while one processor holds the lock
  and another has tried to take it, \<open>spin_trylock\<close> of a third one succeeds.\<close>

theorem spin_trylock_contended:
  assumes "spin_inv N s" and "spin_pc s h = Held" and "h < N" and "c < N" and "c \<noteq> h"
    and "sint (lock_word s) < 0"
  shows "fst (spin_trylock c s) \<noteq> 0 \<and> spin_pc (snd (spin_trylock c s)) c = Held \<and>
     spin_pc (snd (spin_trylock c s)) h = Held"
proof -
  have "lock_word s \<noteq> 0" using assms(6) by auto
  with assms show ?thesis by (simp add: spin_trylock_def spin_defs)
qed

theorem spin_trylock_contended_witness:
  "\<exists>s. (spin_step 3)\<^sup>*\<^sup>* spin_start s \<and> spin_pc (snd (spin_trylock 2 s)) 2 = Held \<and>
     spin_pc (snd (spin_trylock 2 s)) 0 = Held"
proof -
  let ?a = "spin_lock_enter 0 spin_start"
  let ?b = "spin_lock_dec 0 ?a" let ?c = "spin_lock_enter 1 ?b" let ?d = "spin_lock_dec 1 ?c"
  have "spin_step 3 spin_start ?a" by (rule spin_step.enter) (simp_all add: spin_start_def spin_defs)
  moreover have "spin_step 3 ?a ?b" by (rule spin_step.dec) (simp_all add: spin_start_def spin_defs)
  moreover have "spin_step 3 ?b ?c" by (rule spin_step.enter) (simp_all add: spin_start_def spin_defs)
  moreover have "spin_step 3 ?c ?d" by (rule spin_step.dec) (simp_all add: spin_start_def spin_defs)
  ultimately have r: "(spin_step 3)\<^sup>*\<^sup>* spin_start ?d"
    by (meson converse_rtranclp_into_rtranclp rtranclp.rtrancl_refl)
  have "spin_inv 3 ?d" by (rule spin_inv_reachable [OF r spin_inv_start]) simp
  moreover have "spin_pc ?d 0 = Held" "sint (lock_word ?d) < 0" by (simp_all add: spin_start_def spin_defs)
  ultimately show ?thesis using spin_trylock_contended [of 3 ?d 0 2] r by auto
qed

end
