(* ===== verification/KString.thy ===== *)
theory KString
  imports Prelude
begin

unbundle bit_operations_syntax

text \<open>
  The memory and string functions of \<open>src/lib.h\<close>, which are inline assembly over the string
  instructions of the processor, and the functions that copy between the kernel and a user address
  space.  Memory is a function from addresses to bytes.  A loop that runs until it meets a
  terminating zero is a partial function: it has no value when there is none.
\<close>

type_synonym mem = "addr \<Rightarrow> u8"

section \<open>String instructions\<close>

text \<open>\<open>movsb\<close>, \<open>movsw\<close>, \<open>movsl\<close> and \<open>movsq\<close> read \<open>k\<close> bytes and
  then store them.\<close>

definition movs :: "nat \<Rightarrow> addr \<Rightarrow> addr \<Rightarrow> mem \<Rightarrow> mem" where
  "movs k si di m = (\<lambda>a. if unat (a - di) < k then m (si + (a - di)) else m a)"

fun rep_movs :: "nat \<Rightarrow> nat \<Rightarrow> addr \<Rightarrow> addr \<Rightarrow> mem \<Rightarrow> addr \<times> addr \<times> mem" where
  "rep_movs k 0 si di m = (si, di, m)"
| "rep_movs k (Suc n) si di m = rep_movs k n (si + word_of_nat k) (di + word_of_nat k) (movs k si di m)"

text \<open>\<open>stosb\<close> to \<open>stosq\<close> store the low \<open>k\<close> bytes of \<open>rax\<close>, least significant
  first.\<close>

definition stos :: "nat \<Rightarrow> u64 \<Rightarrow> addr \<Rightarrow> mem \<Rightarrow> mem" where
  "stos k ax di m = (\<lambda>a. if unat (a - di) < k then ucast (drop_bit (8 * unat (a - di)) ax) else m a)"

fun rep_stos :: "nat \<Rightarrow> nat \<Rightarrow> u64 \<Rightarrow> addr \<Rightarrow> mem \<Rightarrow> addr \<times> mem" where
  "rep_stos k 0 ax di m = (di, m)"
| "rep_stos k (Suc n) ax di m = rep_stos k n ax (di + word_of_nat k) (stos k ax di m)"

text \<open>\<open>repne scasb\<close> with \<open>al = 0\<close>.\<close>

function scas0 :: "u64 \<Rightarrow> addr \<Rightarrow> mem \<Rightarrow> u64 \<times> addr" where
  "scas0 cx di m =
     (if cx = 0 then (cx, di)
      else if m di = 0 then (cx - 1, di + 1)
      else scas0 (cx - 1) (di + 1) m)"
  by pat_completeness auto
termination
  by (relation "measure (\<lambda>(cx, di, m). unat cx)") (auto intro: unat_pred_less simp del: unat_minus_one)

declare scas0.simps [simp del]

section \<open>Memory\<close>

text \<open>The signed quotient \<open>Num/8\<close> as the count of a \<open>rep\<close>, which is unsigned.\<close>

definition div8 :: "u64 \<Rightarrow> nat" where
  "div8 n = unat (word_of_int (sint n sdiv 8) :: u64)"

definition memcpy :: "addr \<Rightarrow> addr \<Rightarrow> u64 \<Rightarrow> mem \<Rightarrow> addr \<times> mem" where
  "memcpy From To Num m =
     (let (si, di, m) = rep_movs 8 (div8 Num) From To m;
          (si, di, m) = rep_movs 4 (if bit Num 2 then 1 else 0) si di m;
          (si, di, m) = rep_movs 2 (if bit Num 1 then 1 else 0) si di m;
          (si, di, m) = rep_movs 1 (if bit Num 0 then 1 else 0) si di m
      in (To, m))"

text \<open>\<open>repe cmpsb\<close>; the comparison of \<open>jl\<close> is signed.  With a count of 0 the flags are
  those of an earlier instruction and the result is undefined.\<close>

definition order_flag :: "u8 \<Rightarrow> u8 \<Rightarrow> int" where
  "order_flag s d = (if s = d then 0 else if sint s < sint d then 1 else - 1)"

fun cmps :: "nat \<Rightarrow> addr \<Rightarrow> addr \<Rightarrow> mem \<Rightarrow> int option" where
  "cmps 0 si di m = None"
| "cmps (Suc n) si di m =
     (if m si \<noteq> m di \<or> n = 0 then Some (order_flag (m si) (m di))
      else cmps n (si + 1) (di + 1) m)"

definition memcmp :: "addr \<Rightarrow> addr \<Rightarrow> u64 \<Rightarrow> mem \<Rightarrow> int option" where
  "memcmp FirstPart SecondPart Count m = cmps (unat Count) SecondPart FirstPart m"

definition memset :: "addr \<Rightarrow> u8 \<Rightarrow> u64 \<Rightarrow> mem \<Rightarrow> addr \<times> mem" where
  "memset Address C Count m =
     (let tmp = ucast C * 0x0101010101010101;
          (di, m) = rep_stos 8 (div8 Count) tmp Address m;
          (di, m) = rep_stos 4 (if bit Count 2 then 1 else 0) tmp di m;
          (di, m) = rep_stos 2 (if bit Count 1 then 1 else 0) tmp di m;
          (di, m) = rep_stos 1 (if bit Count 0 then 1 else 0) tmp di m
      in (Address, m))"

section \<open>Strings\<close>

partial_function (option) strcpy_loop :: "addr \<Rightarrow> addr \<Rightarrow> mem \<Rightarrow> mem option" where
  "strcpy_loop di si m =
     (let al = m si; m = m(di := al)
      in if al \<noteq> 0 then strcpy_loop (di + 1) (si + 1) m else Some m)"

definition strcpy :: "addr \<Rightarrow> addr \<Rightarrow> mem \<Rightarrow> (addr \<times> mem) option" where
  "strcpy Dest Src m = map_option (Pair Dest) (strcpy_loop Dest Src m)"

text \<open>\<open>n\<close> is the number of times \<open>decq\<close> leaves a count that is not negative.\<close>

fun strncpy_loop :: "nat \<Rightarrow> addr \<Rightarrow> addr \<Rightarrow> mem \<Rightarrow> mem" where
  "strncpy_loop 0 di si m = m"
| "strncpy_loop (Suc n) di si m =
     (let al = m si; m = m(di := al)
      in if al \<noteq> 0 then strncpy_loop n (di + 1) (si + 1) m
         else snd (rep_stos 1 n 0 (di + 1) m))"

definition dec_count :: "u64 \<Rightarrow> nat" where
  "dec_count Count = (if sint (Count - 1) < 0 then 0 else unat Count)"

definition strncpy :: "addr \<Rightarrow> addr \<Rightarrow> u64 \<Rightarrow> mem \<Rightarrow> addr \<times> mem" where
  "strncpy Dest Src Count m = (Dest, strncpy_loop (dec_count Count) Dest Src m)"

definition strcat :: "addr \<Rightarrow> addr \<Rightarrow> mem \<Rightarrow> (addr \<times> mem) option" where
  "strcat Dest Src m =
     map_option (Pair Dest) (strcpy_loop (snd (scas0 0xffffffff Dest m) - 1) Src m)"

partial_function (option) strcmp_loop :: "addr \<Rightarrow> addr \<Rightarrow> mem \<Rightarrow> int option" where
  "strcmp_loop si di m =
     (if m si \<noteq> m di then Some (order_flag (m si) (m di))
      else if m si \<noteq> 0 then strcmp_loop (si + 1) (di + 1) m
      else Some 0)"

definition strcmp :: "addr \<Rightarrow> addr \<Rightarrow> mem \<Rightarrow> int option" where
  "strcmp FirstPart SecondPart m = strcmp_loop SecondPart FirstPart m"

fun strncmp_loop :: "nat \<Rightarrow> addr \<Rightarrow> addr \<Rightarrow> mem \<Rightarrow> int" where
  "strncmp_loop 0 si di m = 0"
| "strncmp_loop (Suc n) si di m =
     (if m si \<noteq> m di then order_flag (m si) (m di)
      else if m si \<noteq> 0 then strncmp_loop n (si + 1) (di + 1) m
      else 0)"

definition strncmp :: "addr \<Rightarrow> addr \<Rightarrow> u64 \<Rightarrow> mem \<Rightarrow> int" where
  "strncmp FirstPart SecondPart Count m = strncmp_loop (dec_count Count) SecondPart FirstPart m"

text \<open>\<open>notl\<close> and \<open>decl\<close> work on the low 32 bits of the count.\<close>

definition strlen :: "addr \<Rightarrow> mem \<Rightarrow> u32" where
  "strlen String m = NOT (ucast (fst (scas0 0xffffffff String m))) - 1"

section \<open>Bits of a word in memory\<close>

definition lib_bit_set :: "u64 \<Rightarrow> nat \<Rightarrow> u64" where
  "lib_bit_set w nr = w OR push_bit (nr mod 64) 1"

definition lib_bit_get :: "u64 \<Rightarrow> nat \<Rightarrow> u64" where
  "lib_bit_get w nr = w AND push_bit (nr mod 64) 1"

definition lib_bit_clean :: "u64 \<Rightarrow> nat \<Rightarrow> u64" where
  "lib_bit_clean w nr = w AND NOT (push_bit (nr mod 64) 1)"

section \<open>Copying from and to user space\<close>

definition verify_area :: "addr \<Rightarrow> u64 \<Rightarrow> bool" where
  "verify_area addr sz \<longleftrightarrow> addr + sz \<le> 0x00007fffffffffff"

text \<open>The result is the register \<open>rcx\<close>, which the code also uses for the counts of the two
  \<open>rep movs\<close>: it is 0 after them.\<close>

definition copy_words :: "addr \<Rightarrow> addr \<Rightarrow> u64 \<Rightarrow> mem \<Rightarrow> u64 \<times> mem" where
  "copy_words from to sz m =
     (let (si, di, m) = rep_movs 8 (unat (sz div 8)) from to m;
          (si, di, m) = rep_movs 1 (unat (sz AND 7)) si di m
      in (0, m))"

definition copy_from_user :: "addr \<Rightarrow> addr \<Rightarrow> u64 \<Rightarrow> mem \<Rightarrow> u64 \<times> mem" where
  "copy_from_user from to sz m =
     (if \<not> verify_area from sz then (0, m) else copy_words from to sz m)"

definition copy_to_user :: "addr \<Rightarrow> addr \<Rightarrow> u64 \<Rightarrow> mem \<Rightarrow> u64 \<times> mem" where
  "copy_to_user from to sz m =
     (if \<not> verify_area to sz then (0, m) else copy_words from to sz m)"

definition strncpy_from_user :: "addr \<Rightarrow> addr \<Rightarrow> u64 \<Rightarrow> mem \<Rightarrow> u64 \<times> mem" where
  "strncpy_from_user from to sz m =
     (if \<not> verify_area from sz then (0, m) else (sz, snd (strncpy to from sz m)))"

text \<open>\<open>size\<close> is the \<open>int\<close> result of \<open>strlen\<close> converted to \<open>unsigned long\<close>.\<close>

definition strnlen_user :: "addr \<Rightarrow> u64 \<Rightarrow> mem \<Rightarrow> u64" where
  "strnlen_user src maxlen m =
     (let sz = scast (strlen src m)
      in if \<not> verify_area src sz then 0 else if sz \<le> maxlen then sz else maxlen)"

section \<open>What the string instructions do\<close>

lemma movs_apply: "movs k si di m a = (if unat (a - di) < k then m (si + (a - di)) else m a)"
  by (simp add: movs_def)

text \<open>The source range \<open>si..<si+n\<close> is apart from the destination range \<open>di..<di+n\<close>.\<close>

definition apart :: "nat \<Rightarrow> addr \<Rightarrow> addr \<Rightarrow> bool" where
  "apart n si di \<longleftrightarrow> (\<forall>i j. unat (i :: u64) < n \<longrightarrow> unat (j :: u64) < n \<longrightarrow> si + i \<noteq> di + j)"

lemma apart_mono: "apart n si di \<Longrightarrow> k \<le> n \<Longrightarrow> apart k si di"
  by (auto simp: apart_def)

lemma movs_append:
  assumes "apart (a + b) si di" and "a + b < 2 ^ 64"
  shows "movs b (si + word_of_nat a) (di + word_of_nat a) (movs a si di m) = movs (a + b) si di m"
proof
  fix x
  have ua: "unat (word_of_nat a :: u64) = a" using assms(2) by (simp add: unat_of_nat_small)
  have sub: "x - (di + word_of_nat a) = (x - di) - word_of_nat a" by (simp add: algebra_simps)
  show "movs b (si + word_of_nat a) (di + word_of_nat a) (movs a si di m) x = movs (a + b) si di m x"
  proof (cases "unat (x - di) < a")
    case True
    then have "unat ((x - di) - word_of_nat a) = 2 ^ 64 + unat (x - di) - a"
      using ua unat_sub_if_size [of "x - di" "word_of_nat a"] by (simp add: word_size)
    then have nb: "\<not> unat (x - (di + word_of_nat a)) < b"
      using assms(2) True by (simp add: sub)
    have "movs (a + b) si di m x = m (si + (x - di))" using True by (simp add: movs_apply)
    moreover have "movs b (si + word_of_nat a) (di + word_of_nat a) (movs a si di m) x = m (si + (x - di))"
      using nb True by (simp only: movs_apply if_False if_True)
    ultimately show ?thesis by simp
  next
    case False
    then have le: "word_of_nat a \<le> x - di" using ua by (simp add: word_le_nat_alt)
    then have u: "unat (x - (di + word_of_nat a)) = unat (x - di) - a"
      unfolding sub using ua by (simp add: unat_sub)
    have pos: "si + word_of_nat a + (x - (di + word_of_nat a)) = si + (x - di)" by simp
    show ?thesis
    proof (cases "unat (x - di) < a + b")
      case True
      have "\<not> unat (si + (x - di) - di) < a"
      proof
        assume "unat (si + (x - di) - di) < a"
        with True assms(1) have "si + (x - di) \<noteq> di + (si + (x - di) - di)"
          unfolding apart_def by (metis trans_less_add1)
        then show False by simp
      qed
      then have "movs a si di m (si + (x - di)) = m (si + (x - di))" by (simp only: movs_apply if_False)
      moreover have "unat (x - di) - a < b" using True False by linarith
      ultimately show ?thesis
        using True u pos by (simp only: movs_apply [of b] movs_apply [of "a + b"] if_True)
    next
      case F: False
      then have "\<not> unat (x - di) - a < b" using False by linarith
      then show ?thesis using F u False by (simp only: movs_apply if_False)
    qed
  qed
qed

lemma apart_shift:
  assumes "apart (a + b) si di" and "a + b < 2 ^ 64"
  shows "apart b (si + word_of_nat a) (di + word_of_nat a)"
  unfolding apart_def
proof (intro allI impI)
  fix i j :: u64
  assume ij: "unat i < b" "unat j < b"
  have "unat (word_of_nat a :: u64) = a" using assms(2) by (simp add: unat_of_nat_small)
  then have "unat (word_of_nat a + i) = a + unat i" "unat (word_of_nat a + j) = a + unat j"
    using ij assms(2) by (auto simp: unat_word_ariths)
  with ij assms(1) have "si + (word_of_nat a + i) \<noteq> di + (word_of_nat a + j)"
    by (auto simp: apart_def)
  then show "si + word_of_nat a + i \<noteq> di + word_of_nat a + j" by (simp add: add.assoc)
qed

lemma movs_0: "movs 0 si di m = m"
  by (rule ext) (simp add: movs_apply)

lemma rep_movs_blit:
  assumes "apart (k * n) si di" and "k * n < 2 ^ 64"
  shows "rep_movs k n si di m = (si + word_of_nat (k * n), di + word_of_nat (k * n), movs (k * n) si di m)"
  using assms
proof (induction n arbitrary: si di m)
  case 0
  then show ?case by (simp add: movs_0)
next
  case (Suc n)
  let ?k = "word_of_nat k :: u64"
  have ap: "apart (k * n) (si + ?k) (di + ?k)"
    using Suc.prems by (intro apart_shift) auto
  have "rep_movs k (Suc n) si di m = rep_movs k n (si + ?k) (di + ?k) (movs k si di m)" by simp
  also have "\<dots> = (si + ?k + word_of_nat (k * n), di + ?k + word_of_nat (k * n),
      movs (k * n) (si + ?k) (di + ?k) (movs k si di m))"
    using Suc.prems(2) by (intro Suc.IH ap) simp
  also have "movs (k * n) (si + ?k) (di + ?k) (movs k si di m) = movs (k * Suc n) si di m"
    using Suc.prems movs_append [of k "k * n" si di m] by simp
  finally show ?case by (simp add: algebra_simps)
qed

lemma rep_movs_continue:
  assumes "apart (a + k * n) si di" and "a + k * n < 2 ^ 64"
  shows "rep_movs k n (si + word_of_nat a) (di + word_of_nat a) (movs a si di m) =
     (si + word_of_nat (a + k * n), di + word_of_nat (a + k * n), movs (a + k * n) si di m)"
  using rep_movs_blit [OF apart_shift [OF assms], of "movs a si di m"] movs_append [OF assms, of m] assms(2)
  by (simp add: add.assoc)

lemma low_bits_sum:
  "(n :: nat) = 8 * (n div 8) + (4 * of_bool (bit n 2) + (2 * of_bool (bit n 1) + of_bool (bit n 0)))"
proof -
  have ob: "of_bool (bit n k) = n div 2 ^ k mod 2" for k
    by (simp only: bit_iff_odd mod_2_eq_odd)
  have "n = 8 * (n div 2 div 2 div 2) + (4 * (n div 2 div 2 mod 2) + (2 * (n div 2 mod 2) + n mod 2))"
    using mult_div_mod_eq [of 2 n] mult_div_mod_eq [of 2 "n div 2"] mult_div_mod_eq [of 2 "n div 2 div 2"]
    by linarith
  then show ?thesis unfolding ob by (simp flip: div_mult2_eq)
qed

lemma div8_nonneg: "0 \<le> sint n \<Longrightarrow> div8 n = unat n div 8"
proof -
  assume "0 \<le> sint n"
  then have "sint n = int (unat n)" by (rule sint_nonneg_eq_unat)
  then have "sint n sdiv 8 = int (unat n div 8)"
    using int_sdiv_pos [of "unat n" 8] by simp
  then show ?thesis
    unfolding div8_def using unat_less_2p64 [of n] by (simp add: unat_of_nat)
qed

text \<open>The four moves of \<open>memcpy\<close> and the two of the user copies are one block move.\<close>

lemma memcpy_blit:
  assumes "0 \<le> sint Num" and "apart (unat Num) From To"
  shows "memcpy From To Num m = (To, movs (unat Num) From To m)"
proof -
  let ?n = "unat Num"
  let ?a = "8 * (?n div 8)" and ?b = "of_bool (bit ?n 2) :: nat"
    and ?c = "of_bool (bit ?n 1) :: nat" and ?d = "of_bool (bit ?n 0) :: nat"
  have sum: "?n = ?a + 4 * ?b + 2 * ?c + ?d" using low_bits_sum [of ?n] by simp
  have lt: "?a + 4 * ?b + 2 * ?c + ?d < 2 ^ 64" using unat_less_2p64 [of Num] sum by metis
  have ap: "apart (?a + 4 * ?b + 2 * ?c + ?d) From To" using assms(2) sum by metis
  have bits: "bit Num k = bit ?n k" for k by (simp add: bit_unsigned_iff bit_imp_le_length)
  have 1: "rep_movs 8 (div8 Num) From To m =
      (From + word_of_nat ?a, To + word_of_nat ?a, movs ?a From To m)"
    unfolding div8_nonneg [OF assms(1)]
    using lt by (intro rep_movs_blit apart_mono [OF ap]) auto
  have 2: "rep_movs 4 (if bit Num 2 then 1 else 0) (From + word_of_nat ?a) (To + word_of_nat ?a) (movs ?a From To m) =
      (From + word_of_nat (?a + 4 * ?b), To + word_of_nat (?a + 4 * ?b), movs (?a + 4 * ?b) From To m)"
    using lt unfolding bits of_bool_def [symmetric] by (intro rep_movs_continue apart_mono [OF ap]) auto
  have 3: "rep_movs 2 (if bit Num 1 then 1 else 0) (From + word_of_nat (?a + 4 * ?b))
        (To + word_of_nat (?a + 4 * ?b)) (movs (?a + 4 * ?b) From To m) =
      (From + word_of_nat (?a + 4 * ?b + 2 * ?c), To + word_of_nat (?a + 4 * ?b + 2 * ?c),
       movs (?a + 4 * ?b + 2 * ?c) From To m)"
    using lt unfolding bits of_bool_def [symmetric] by (intro rep_movs_continue apart_mono [OF ap]) auto
  have 4: "rep_movs 1 (if bit Num 0 then 1 else 0) (From + word_of_nat (?a + 4 * ?b + 2 * ?c))
        (To + word_of_nat (?a + 4 * ?b + 2 * ?c)) (movs (?a + 4 * ?b + 2 * ?c) From To m) =
      (From + word_of_nat (?a + 4 * ?b + 2 * ?c + 1 * ?d), To + word_of_nat (?a + 4 * ?b + 2 * ?c + 1 * ?d),
       movs (?a + 4 * ?b + 2 * ?c + 1 * ?d) From To m)"
    using lt ap unfolding bits of_bool_def [symmetric] by (intro rep_movs_continue) auto
  show ?thesis
    unfolding memcpy_def 1 Let_def prod.case 2 3 4 using sum by simp
qed

lemma copy_words_blit:
  assumes "apart (unat sz) from to"
  shows "copy_words from to sz m = (0, movs (unat sz) from to m)"
proof -
  let ?n = "unat sz"
  have sum: "8 * (?n div 8) + 1 * (?n mod 8) = ?n" by simp
  have u: "unat (sz div 8) = ?n div 8" by (simp add: unat_div_distrib)
  have "sz AND 7 = take_bit 3 sz" by (simp add: take_bit_eq_mask mask_eq_exp_minus_1)
  then have v: "unat (sz AND 7) = ?n mod 8"
    by (simp only: unsigned_take_bit_eq) (simp add: take_bit_eq_mod)
  have lt: "?n < 2 ^ 64" by (rule unat_less_2p64)
  have 1: "rep_movs 8 (unat (sz div 8)) from to m =
      (from + word_of_nat (8 * (?n div 8)), to + word_of_nat (8 * (?n div 8)), movs (8 * (?n div 8)) from to m)"
    unfolding u using lt by (intro rep_movs_blit apart_mono [OF assms]) auto
  have "rep_movs 1 (unat (sz AND 7)) (from + word_of_nat (8 * (?n div 8))) (to + word_of_nat (8 * (?n div 8)))
      (movs (8 * (?n div 8)) from to m) = (from + word_of_nat ?n, to + word_of_nat ?n, movs ?n from to m)"
    unfolding v using rep_movs_continue [of "8 * (?n div 8)" 1 "?n mod 8" "from" to m] assms lt sum by simp
  then show ?thesis unfolding copy_words_def 1 by simp
qed

section \<open>Strings in memory\<close>

primrec cstr :: "mem \<Rightarrow> addr \<Rightarrow> u8 list \<Rightarrow> bool" where
  "cstr m a [] \<longleftrightarrow> m a = 0"
| "cstr m a (x # xs) \<longleftrightarrow> m a = x \<and> x \<noteq> 0 \<and> cstr m (a + 1) xs"

text \<open>Lexicographic order of zero terminated strings by their signed characters: 0 for equal
  strings, 1 if the first is greater, \<open>- 1\<close> if it is less.\<close>

fun str_order :: "u8 list \<Rightarrow> u8 list \<Rightarrow> int" where
  "str_order (x # xs) (y # ys) = (if x = y then str_order xs ys else if sint y < sint x then 1 else - 1)"
| "str_order (x # xs) [] = (if 0 < sint x then 1 else - 1)"
| "str_order [] (y # ys) = (if sint y < 0 then 1 else - 1)"
| "str_order [] [] = 0"

lemma str_order_eq_0: "str_order xs ys = 0 \<longleftrightarrow> xs = ys"
  by (induction xs ys rule: str_order.induct) auto

lemma scas0_cstr:
  "cstr m a xs \<Longrightarrow> length xs < unat cx \<Longrightarrow>
   scas0 cx a m = (cx - 1 - word_of_nat (length xs), a + 1 + word_of_nat (length xs))"
proof (induction xs arbitrary: a cx)
  case Nil
  then have "cx \<noteq> 0" by auto
  with Nil show ?case by (subst scas0.simps) simp
next
  case (Cons x xs)
  then have nz: "cx \<noteq> 0" by auto
  then have "unat (cx - 1) = unat cx - 1" by (simp add: unat_minus_one)
  with Cons.prems have "length xs < unat (cx - 1)" by simp
  with Cons nz show ?case by (subst scas0.simps) (simp add: algebra_simps)
qed

lemma strlen_cstr:
  assumes "cstr m a xs" and "length xs < 0xffffffff"
  shows "strlen a m = word_of_nat (length xs)"
proof -
  have "scas0 0xffffffff a m = (0xffffffff - 1 - word_of_nat (length xs), a + 1 + word_of_nat (length xs))"
    using assms by (intro scas0_cstr) auto
  moreover have "(ucast (word_of_int k :: u64) :: u32) = word_of_int k" for k
    by transfer (simp add: take_bit_take_bit)
  from this [of "0xffffffff - 1 - int (length xs)"]
  have "(ucast (0xffffffff - 1 - word_of_nat (length xs) :: u64) :: u32) =
      0xffffffff - 1 - word_of_nat (length xs)"
    by simp
  ultimately show ?thesis
    by (simp add: strlen_def not_eq_complement)
qed

lemma strcmp_loop_cstr:
  "cstr m si ys \<Longrightarrow> cstr m di xs \<Longrightarrow> strcmp_loop si di m = Some (str_order xs ys)"
proof (induction xs ys arbitrary: si di rule: str_order.induct)
  case (1 x xs y ys)
  then show ?case by (subst strcmp_loop.simps) (auto simp: order_flag_def)
qed (subst strcmp_loop.simps; force simp: order_flag_def)+

section \<open>Filling memory\<close>

text \<open>Every byte of \<open>C * 0x0101010101010101UL\<close> is \<open>C\<close>.\<close>

lemma div_mod_split: assumes "(K::nat) = D * (256 * q + 1) + r" "c * r < D" "c < 256"
  shows "c * K div D mod 256 = c"
proof -
  have "c * K = D * (c * (256 * q + 1)) + c * r" using assms(1) by (simp add: algebra_simps)
  then have "c * K div D = c + 256 * (c * q)" using assms(2) by (simp add: algebra_simps)
  then show ?thesis using assms(3) by (simp only: mod_mult_self2) simp
qed

lemma byte_of_rep:
  assumes "c < 256" "i < 8"
  shows "c * 0x0101010101010101 div 2 ^ (8 * i) mod 256 = (c::nat)"
proof -
  consider "i=0"|"i=1"|"i=2"|"i=3"|"i=4"|"i=5"|"i=6"|"i=7" using assms(2) by linarith
  then show ?thesis
    by cases (insert assms(1), simp_all only:, rule div_mod_split [where q="0x01010101010101" and r=0], simp, simp, simp, 
      rule div_mod_split [where q="0x010101010101" and r=1], simp, simp, simp,
      rule div_mod_split [where q="0x0101010101" and r="0x101"], simp, simp, simp,
      rule div_mod_split [where q="0x01010101" and r="0x10101"], simp, simp, simp,
      rule div_mod_split [where q="0x010101" and r="0x1010101"], simp, simp, simp,
      rule div_mod_split [where q="0x0101" and r="0x101010101"], simp, simp, simp,
      rule div_mod_split [where q="0x01" and r="0x10101010101"], simp, simp, simp,
      rule div_mod_split [where q="0" and r="0x1010101010101"], simp, simp, simp)
qed

lemma byte_of_tmp:
  assumes "i < 8" shows "(ucast (drop_bit (8 * i) (ucast (C :: u8) * 0x0101010101010101 :: u64)) :: u8) = C"
proof -
  have c: "unat C < 256" using unsigned_less[of C] by simp
  have u: "unat (ucast C * 0x0101010101010101 :: u64) = unat C * 0x0101010101010101"
    using c by (simp add: unat_mult_lem[THEN iffD1] unat_word_ariths unsigned_ucast_eq take_bit_eq_mod)
  have "unat (ucast (drop_bit (8 * i) w) :: u8) = unat w div 2 ^ (8 * i) mod 256" for w :: u64
    using unat_less_2p64 [of w]
    by (simp add: unsigned_ucast_eq unsigned_drop_bit_eq take_bit_eq_mod) (simp add: drop_bit_eq_div)
  from this [of "ucast C * 0x0101010101010101"] show ?thesis
    unfolding u byte_of_rep [OF c assms] by (simp only: word_unat_eq_iff)
qed

definition fill :: "nat \<Rightarrow> u8 \<Rightarrow> addr \<Rightarrow> mem \<Rightarrow> mem" where
  "fill k c di m = (\<lambda>a. if unat (a - di) < k then c else m a)"

lemma stos_fill: "k \<le> 8 \<Longrightarrow> stos k (ucast C * 0x0101010101010101) di m = fill k C di m"
  by (rule ext) (simp add: stos_def fill_def byte_of_tmp)

lemma below_split:
  assumes "a + b < 2 ^ 64"
  shows "unat (x :: u64) < a + b \<longleftrightarrow> unat x < a \<or> unat (x - word_of_nat a) < b"
proof (cases "unat x < a")
  case True
  then show ?thesis by simp
next
  case False
  then have "unat (x - word_of_nat a) = unat x - a"
    using assms by (simp add: unat_sub word_le_nat_alt unat_of_nat_small)
  with False show ?thesis by auto
qed

lemma fill_append:
  "a + b < 2 ^ 64 \<Longrightarrow> fill b c (di + word_of_nat a) (fill a c di m) = fill (a + b) c di m"
  by (rule ext) (simp add: fill_def below_split diff_diff_eq)

lemma rep_stos_fill:
  assumes "k \<le> 8" and "a + k * n < 2 ^ 64"
  shows "rep_stos k n (ucast C * 0x0101010101010101) (di + word_of_nat a) (fill a C di m) =
     (di + word_of_nat (a + k * n), fill (a + k * n) C di m)"
  using assms(2)
proof (induction n arbitrary: a)
  case 0
  then show ?case by simp
next
  case (Suc n)
  have "stos k (ucast C * 0x0101010101010101) (di + word_of_nat a) (fill a C di m) = fill (a + k) C di m"
    unfolding stos_fill [OF assms(1)] using Suc.prems by (intro fill_append) simp
  moreover have "rep_stos k n (ucast C * 0x0101010101010101) (di + word_of_nat (a + k)) (fill (a + k) C di m) =
      (di + word_of_nat (a + k + k * n), fill (a + k + k * n) C di m)"
    using Suc.prems by (intro Suc.IH) simp
  ultimately show ?case by (simp add: algebra_simps)
qed

lemma memset_fill:
  assumes "0 \<le> sint Count"
  shows "memset Address C Count m = (Address, fill (unat Count) C Address m)"
proof -
  let ?n = "unat Count" and ?t = "ucast C * 0x0101010101010101 :: u64"
  let ?a = "8 * (?n div 8)" and ?b = "of_bool (bit ?n 2) :: nat"
    and ?c = "of_bool (bit ?n 1) :: nat" and ?d = "of_bool (bit ?n 0) :: nat"
  have sum: "?n = ?a + 4 * ?b + 2 * ?c + 1 * ?d" using low_bits_sum [of ?n] by simp
  have lt: "?a + 4 * ?b + 2 * ?c + 1 * ?d < 2 ^ 64" using unat_less_2p64 [of Count] sum by metis
  have bits: "bit Count k = bit ?n k" for k by (simp add: bit_unsigned_iff bit_imp_le_length)
  have m: "fill 0 C Address m = m" by (rule ext) (simp add: fill_def)
  have 1: "rep_stos 8 (div8 Count) ?t Address m = (Address + word_of_nat ?a, fill ?a C Address m)"
    unfolding div8_nonneg [OF assms] using rep_stos_fill [of 8 0 "?n div 8" C Address m] lt by (simp add: m)
  have 2: "rep_stos 4 (if bit Count 2 then 1 else 0) ?t (Address + word_of_nat ?a) (fill ?a C Address m) =
      (Address + word_of_nat (?a + 4 * ?b), fill (?a + 4 * ?b) C Address m)"
    using lt unfolding bits of_bool_def [symmetric] by (intro rep_stos_fill) auto
  have 3: "rep_stos 2 (if bit Count 1 then 1 else 0) ?t (Address + word_of_nat (?a + 4 * ?b))
        (fill (?a + 4 * ?b) C Address m) =
      (Address + word_of_nat (?a + 4 * ?b + 2 * ?c), fill (?a + 4 * ?b + 2 * ?c) C Address m)"
    using lt unfolding bits of_bool_def [symmetric] by (intro rep_stos_fill) auto
  have 4: "rep_stos 1 (if bit Count 0 then 1 else 0) ?t (Address + word_of_nat (?a + 4 * ?b + 2 * ?c))
        (fill (?a + 4 * ?b + 2 * ?c) C Address m) =
      (Address + word_of_nat (?a + 4 * ?b + 2 * ?c + 1 * ?d), fill (?a + 4 * ?b + 2 * ?c + 1 * ?d) C Address m)"
    using lt unfolding bits of_bool_def [symmetric] by (intro rep_stos_fill) auto
  show ?thesis
    unfolding memset_def Let_def 1 prod.case 2 3 4 using sum by simp
qed

section \<open>Strings written\<close>

lemma off_neq: "x < y \<Longrightarrow> y < 2 ^ 64 \<Longrightarrow> (b :: addr) + word_of_nat x \<noteq> b + word_of_nat y"
  by (metis add_left_cancel less_trans nat_neq_iff unat_of_nat_small)

lemma cstr_nth:
  "cstr m a xs \<longleftrightarrow> (\<forall>i < length xs. m (a + word_of_nat i) = xs ! i) \<and> m (a + word_of_nat (length xs)) = 0 \<and> 0 \<notin> set xs"
proof (induction xs arbitrary: a)
  case (Cons x xs)
  have "(\<forall>i < Suc (length xs). m (a + word_of_nat i) = (x # xs) ! i) \<longleftrightarrow>
      m a = x \<and> (\<forall>i < length xs. m (a + 1 + word_of_nat i) = xs ! i)"
    by (auto simp: less_Suc_eq_0_disj ac_simps)
  with Cons.IH [of "a + 1"] show ?case by (auto simp: ac_simps)
qed simp

lemma cstr_frame:
  assumes "cstr m a xs" "\<And>i. i \<le> length xs \<Longrightarrow> m' (a + word_of_nat i) = m (a + word_of_nat i)"
  shows "cstr m' a xs"
  using assms by (auto simp: cstr_nth)

definition put_str :: "addr \<Rightarrow> u8 list \<Rightarrow> mem \<Rightarrow> mem" where
  "put_str a xs m = (\<lambda>b. if unat (b - a) < length xs then xs ! unat (b - a) else m b)"

lemma put_str_at: "i < length xs \<Longrightarrow> length xs < 2 ^ 64 \<Longrightarrow> put_str a xs m (a + word_of_nat i) = xs ! i"
  by (simp add: put_str_def unat_of_nat_small)

lemma put_str_outside:
  assumes "\<And>i. i < length xs \<Longrightarrow> b \<noteq> a + word_of_nat i"
  shows "put_str a xs m b = m b"
proof -
  have "b = a + word_of_nat (unat (b - a))" by simp
  with assms [of "unat (b - a)"] have "\<not> unat (b - a) < length xs" by blast
  then show ?thesis by (simp add: put_str_def)
qed

lemma put_str_Cons:
  assumes "length xs < 2 ^ 64 - 1"
  shows "put_str (a + 1) xs (m(a := x)) = put_str a (x # xs) m"
proof
  fix b
  show "put_str (a + 1) xs (m(a := x)) b = put_str a (x # xs) m b"
  proof (cases "b = a")
    case True
    have "unat (- 1 :: u64) = 2 ^ 64 - 1" by (simp add: unsigned_minus_1_eq_mask mask_eq_exp_minus_1)
    then have "unat (a - (a + 1)) = 2 ^ 64 - 1" by simp
    with True assms show ?thesis by (simp add: put_str_def)
  next
    case False
    then have c: "b - a \<noteq> 0" by simp
    have "b - (a + 1) = b - a - 1" by simp
    then have "unat (b - (a + 1)) = unat (b - a) - 1" using c by (simp only: unat_minus_one not_False_eq_True)
    moreover have "0 < unat (b - a)" using c by (simp add: unat_gt_0)
    ultimately have "unat (b - a) = Suc (unat (b - (a + 1)))" by simp
    with False show ?thesis by (simp add: put_str_def)
  qed
qed

lemma strcpy_loop_put:
  assumes "cstr m si xs" "length xs < 2 ^ 32"
    and "\<And>i j. i \<le> length xs \<Longrightarrow> j \<le> length xs \<Longrightarrow> di + word_of_nat i \<noteq> si + word_of_nat j"
  shows "strcpy_loop di si m = Some (put_str di (xs @ [0]) m)"
  using assms
proof (induction xs arbitrary: di si m)
  case Nil
  have "m(di := 0) = put_str di [0] m"
    by (rule ext) (auto simp: put_str_def unat_eq_0)
  with Nil show ?case by (subst strcpy_loop.simps) simp
next
  case (Cons x xs)
  let ?m = "m(di := x)"
  have "cstr ?m (si + 1) xs"
  proof (rule cstr_frame)
    show "cstr m (si + 1) xs" using Cons.prems(1) by simp
    fix i assume "i \<le> length xs"
    with Cons.prems(3) [of 0 "Suc i"] show "?m (si + 1 + word_of_nat i) = m (si + 1 + word_of_nat i)"
      by (simp add: ac_simps)
  qed
  moreover have "(di + 1) + word_of_nat i \<noteq> (si + 1) + word_of_nat j" if "i \<le> length xs" "j \<le> length xs" for i j
    using Cons.prems(3) [of "Suc i" "Suc j"] that by (simp add: ac_simps)
  ultimately have "strcpy_loop (di + 1) (si + 1) ?m = Some (put_str (di + 1) (xs @ [0]) ?m)"
    using Cons.prems(2) by (intro Cons.IH) (simp_all del: fun_upd_apply)
  also have "put_str (di + 1) (xs @ [0]) ?m = put_str di ((x # xs) @ [0]) m"
    using Cons.prems(2) by (subst put_str_Cons) simp_all
  finally show ?case using Cons.prems(1) by (subst strcpy_loop.simps) (simp add: Let_def del: fun_upd_apply)
qed

lemma cstr_unique: "cstr m a xs \<Longrightarrow> cstr m a ys \<Longrightarrow> xs = ys"
proof (induction xs arbitrary: a ys)
  case Nil
  then show ?case by (cases ys) auto
next
  case (Cons x xs)
  then show ?case by (cases ys) auto
qed

section \<open>Properties\<close>

text \<open>C14.  \<open>memcpy\<close> of a non-negative length between ranges that do not overlap returns the
  destination, copies every byte of the range and changes no byte outside the destination, although
  it moves quadwords and then the remaining 4, 2 and 1 bytes.\<close>

theorem memcpy_copies:
  assumes "0 \<le> sint Num" and "apart (unat Num) From To"
  shows "fst (memcpy From To Num m) = To \<and>
     (\<forall>i. unat i < unat Num \<longrightarrow> snd (memcpy From To Num m) (To + i) = m (From + i)) \<and>
     (\<forall>a. \<not> unat (a - To) < unat Num \<longrightarrow> snd (memcpy From To Num m) a = m a)"
  using memcpy_blit [OF assms, of m] by (simp add: movs_def)

lemma apart_demo: "apart 15 0x1000 0x2000"
proof -
  have "0x1000 + i \<noteq> 0x2000 + j" if "unat i < 15" "unat j < 15" for i j :: u64
  proof
    assume "0x1000 + i = 0x2000 + j"
    then have "i = 0x1000 + j" by (simp add: algebra_simps)
    then have "unat i = 0x1000 + unat j" using that(2) by (simp add: unat_word_ariths)
    with that show False by simp
  qed
  then show ?thesis by (simp add: apart_def)
qed

theorem memcpy_copies_witness:
  "snd (memcpy 0x1000 0x2000 15 (\<lambda>a. if a = 0x100e then 7 else 0)) 0x200e = 7"
proof -
  have "0 \<le> sint (15 :: u64) \<and> unat (15 :: u64) = 15 \<and> unat (0xe :: u64) = 14" by simp
  with memcpy_copies [of 15 "0x1000" "0x2000" "\<lambda>a. if a = 0x100e then 7 else 0"] apart_demo
  have "\<forall>i. unat i < 15 \<longrightarrow> snd (memcpy 0x1000 0x2000 15 (\<lambda>a. if a = 0x100e then 7 else 0)) (0x2000 + i) =
      (\<lambda>a. if a = 0x100e then 7 else 0) (0x1000 + i)" by simp
  from this [rule_format, of "0xe"] show ?thesis by simp
qed

text \<open>\<open>strcmp\<close> of two terminated strings returns and compares them lexicographically by
  their characters as signed numbers; it is 0 exactly for equal strings.\<close>

theorem strcmp_orders:
  assumes "cstr m a xs" and "cstr m b ys"
  shows "strcmp a b m = Some (str_order xs ys) \<and> (strcmp a b m = Some 0 \<longleftrightarrow> xs = ys)"
  using strcmp_loop_cstr [OF assms(2,1)] by (simp add: strcmp_def str_order_eq_0)

theorem strcmp_orders_witness:
  "strcmp 0 2 (\<lambda>a. if a = 0 then 0x80 else if a = 2 then 0x41 else 0) = Some (- 1)"
  using strcmp_orders [of "\<lambda>a. if a = 0 then 0x80 else if a = 2 then 0x41 else 0" 0 "[0x80]" 2 "[0x41]"]
  by simp

text \<open>\<open>copy_from_user\<close> returns 0 in every case, so its callers cannot tell a rejected area
  from a complete copy: a rejected area leaves memory alone, an accepted one (apart from the
  destination) is copied completely.  An area whose end wraps around is accepted.\<close>

theorem copy_from_user_returns_zero:
  assumes "apart (unat sz) from to"
  shows "fst (copy_from_user from to sz m) = 0 \<and>
     snd (copy_from_user from to sz m) = (if verify_area from sz then movs (unat sz) from to m else m) \<and>
     verify_area a (- a)"
  using copy_words_blit [OF assms] by (simp add: copy_from_user_def verify_area_def)

theorem copy_from_user_returns_zero_witness:
  "copy_from_user 0x1000 0x2000 15 (\<lambda>a. 0) = (0, movs 15 0x1000 0x2000 (\<lambda>a. 0))"
  using copy_from_user_returns_zero [of 15 "0x1000" "0x2000" "\<lambda>a. 0"] apart_demo
  by (simp add: verify_area_def prod_eq_iff)

end
