(* ===== verification/Printk.thy ===== *)
theory Printk
  imports KString "HOL-Library.Monad_Syntax"
begin

unbundle bit_operations_syntax

text \<open>
  Formatted output: \<open>skip_atoi\<close>, \<open>number\<close> and \<open>vsprintf\<close> of \<open>src/printk.c\<close>
  (the user library \<open>src/user/userlibs.c\<close> has a copy).  A format and the output are lists of
  characters without the terminating zero; the buffer grows at its end, where the pointer
  \<open>str\<close> points.  The variable arguments are a list of 64-bit slots, each read at the width and
  signedness of its \<open>va_arg\<close>; reading behind the last one has no value.  The \<open>int\<close> values
  of widths and precisions are integers: a width near \<open>2^31\<close> does not wrap here.
\<close>

definition ZEROPAD :: u32 where "ZEROPAD = 1"
definition SIGN :: u32 where "SIGN = 2"
definition PLUS :: u32 where "PLUS = 4"
definition SPACE :: u32 where "SPACE = 8"
definition LEFT :: u32 where "LEFT = 16"
definition SPECIAL :: u32 where "SPECIAL = 32"
definition SMALL :: u32 where "SMALL = 64"

lemmas format_flags = ZEROPAD_def SIGN_def PLUS_def SPACE_def LEFT_def SPECIAL_def SMALL_def

abbreviation flag :: "u32 \<Rightarrow> u32 \<Rightarrow> bool" where
  "flag type f \<equiv> type AND f \<noteq> 0"

definition is_digit :: "char \<Rightarrow> bool" where
  "is_digit c \<longleftrightarrow> 48 \<le> (of_char c :: nat) \<and> (of_char c :: nat) \<le> 57"

section \<open>Numbers\<close>

fun skip_atoi :: "string \<Rightarrow> u32 \<Rightarrow> u32 \<times> string" where
  "skip_atoi [] i = (i, [])"
| "skip_atoi (c # s) i = (if is_digit c then skip_atoi s (i * 10 + of_char c - 48) else (i, c # s))"

text \<open>\<open>while(num!=0) tmp[i++] = digits[do_div(num,base)];\<close> with the unsigned \<open>divq\<close>.
  \<open>number\<close> has returned already if \<open>base < 2\<close>.\<close>

function digit_loop :: "u64 \<Rightarrow> u64 \<Rightarrow> nat list" where
  "digit_loop base num =
     (if num = 0 \<or> base < 2 then [] else unat (num mod base) # digit_loop base (num div base))"
  by pat_completeness auto
termination
proof (relation "measure (\<lambda>(base, num). unat num)", goal_cases)
  case (2 base num)
  then have "2 \<le> unat base" "0 < unat num" by (auto simp: word_less_nat_alt unat_gt_0)
  then have "unat num div unat base < unat num" by simp
  then show ?case by (simp add: unat_div_distrib)
qed simp

declare digit_loop.simps [simp del]

definition tmp_digits :: "u64 \<Rightarrow> u64 \<Rightarrow> nat list" where
  "tmp_digits base num = (if num = 0 then [0] else digit_loop base num)"

definition upper_digits :: string where
  "upper_digits = ''0123456789ABCDEFGHIJKLMNOPQRSTUVWXYZ''"

definition lower_digits :: string where
  "lower_digits = ''0123456789abcdefghijklmnopqrstuvwxyz''"

text \<open>\<open>while(n-- > 0) *str++ = c;\<close> and the value of \<open>n\<close> behind it.\<close>

definition emit :: "int \<Rightarrow> char \<Rightarrow> string" where
  "emit n c = replicate (nat n) c"

definition emitted :: "int \<Rightarrow> int" where
  "emitted n = (if n > 0 then - 1 else n - 1)"

text \<open>The output part of \<open>number\<close>: \<open>tmp\<close> holds the digits, least significant first.\<close>

definition number_out :: "u32 \<Rightarrow> int \<Rightarrow> string \<Rightarrow> string \<Rightarrow> int \<Rightarrow> string \<Rightarrow> string" where
  "number_out type size1 sign special precision0 tmp =
     (let c = (if flag type ZEROPAD then CHR ''0'' else CHR '' '');
          i = int (length tmp);
          precision = (if i > precision0 then i else precision0);
          size2 = size1 - precision;
          (blanks, size3) = (if \<not> flag type (ZEROPAD + LEFT) then (emit size2 CHR '' '', emitted size2)
                             else ([], size2));
          (pads, size4) = (if \<not> flag type LEFT then (emit size3 c, emitted size3) else ([], size3))
      in blanks @ sign @ special @ pads @ emit (precision - i) CHR ''0'' @ rev tmp @ emit size4 CHR '' '')"

text \<open>The characters \<open>number\<close> appends; \<^const>\<open>None\<close> is the null pointer it returns for an
  invalid base.\<close>

definition number :: "u64 \<Rightarrow> int \<Rightarrow> int \<Rightarrow> int \<Rightarrow> u32 \<Rightarrow> string option" where
  "number num base size0 precision type0 =
     (let digits = (if flag type0 SMALL then lower_digits else upper_digits);
          type = (if flag type0 LEFT then type0 AND NOT ZEROPAD else type0)
      in if base < 2 \<or> base > 36 then None
         else
           let neg = (flag type SIGN \<and> sint num < 0);
               sign = (if neg then ''-'' else if flag type PLUS then ''+''
                       else if flag type SPACE then '' '' else []);
               num = (if neg then - num else num);
               size1 = (if sign \<noteq> [] then size0 - 1 else size0);
               size1 = (if flag type SPECIAL then if base = 16 then size1 - 2
                        else if base = 8 then size1 - 1 else size1 else size1);
               special = (if flag type SPECIAL then if base = 8 then ''0''
                          else if base = 16 then [CHR ''0'', digits ! 33] else [] else []);
               tmp = map (\<lambda>d. digits ! d) (tmp_digits (word_of_int base) num)
           in Some (number_out type size1 sign special precision tmp))"

section \<open>\<open>vsprintf\<close>\<close>

record vs =
  vs_str :: string
  vs_args :: "u64 list"
  vs_mem :: mem

definition put :: "string \<Rightarrow> vs \<Rightarrow> vs" where
  "put cs s = s\<lparr>vs_str := vs_str s @ cs\<rparr>"

definition va_arg :: "vs \<Rightarrow> (u64 \<times> vs) option" where
  "va_arg s = (case vs_args s of [] \<Rightarrow> None | a # as \<Rightarrow> Some (a, s\<lparr>vs_args := as\<rparr>))"

definition as_int :: "u64 \<Rightarrow> int" where
  "as_int a = sint (ucast a :: u32)"

definition as_uint :: "u64 \<Rightarrow> u64" where
  "as_uint a = ucast (ucast a :: u32)"

definition byte_char :: "u8 \<Rightarrow> char" where
  "byte_char b = char_of (unat b)"

fun parse_flags :: "string \<Rightarrow> u32 \<Rightarrow> u32 \<times> string" where
  "parse_flags [] flags = (flags, [])"
| "parse_flags (c # fmt) flags =
     (if c = CHR ''-'' then parse_flags fmt (flags OR LEFT)
      else if c = CHR ''+'' then parse_flags fmt (flags OR PLUS)
      else if c = CHR '' '' then parse_flags fmt (flags OR SPACE)
      else if c = CHR ''#'' then parse_flags fmt (flags OR SPECIAL)
      else if c = CHR ''0'' then parse_flags fmt (flags OR ZEROPAD)
      else (flags, c # fmt))"

definition head_is :: "(char \<Rightarrow> bool) \<Rightarrow> string \<Rightarrow> bool" where
  "head_is P fmt = (case fmt of [] \<Rightarrow> False | c # _ \<Rightarrow> P c)"

definition parse_width :: "string \<Rightarrow> u32 \<Rightarrow> vs \<Rightarrow> (int \<times> u32 \<times> string \<times> vs) option" where
  "parse_width fmt flags s =
     (if head_is is_digit fmt then
        let (i, fmt) = skip_atoi fmt 0 in Some (sint i, flags, fmt, s)
      else if head_is ((=) CHR ''*'') fmt then do {
        (a, s) \<leftarrow> va_arg s;
        if as_int a < 0 then Some (- as_int a, flags OR LEFT, tl fmt, s)
        else Some (as_int a, flags, tl fmt, s)
      }
      else Some (- 1, flags, fmt, s))"

definition parse_precision :: "string \<Rightarrow> vs \<Rightarrow> (int \<times> string \<times> vs) option" where
  "parse_precision fmt s =
     (if head_is ((=) CHR ''.'') fmt then do {
        let fmt = tl fmt;
        (p, fmt, s) \<leftarrow> (if head_is is_digit fmt then
             let (i, fmt) = skip_atoi fmt 0 in Some (sint i, fmt, s)
           else if head_is ((=) CHR ''*'') fmt then do {
             (a, s) \<leftarrow> va_arg s;
             Some (as_int a, tl fmt, s)
           }
           else Some (- 1, fmt, s));
        Some (if p < 0 then 0 else p, fmt, s)
      }
      else Some (- 1, fmt, s))"

definition parse_qualifier :: "string \<Rightarrow> bool \<times> string" where
  "parse_qualifier fmt =
     (if head_is (\<lambda>c. c = CHR ''h'' \<or> c = CHR ''l'' \<or> c = CHR ''L'' \<or> c = CHR ''Z'') fmt
      then (hd fmt = CHR ''l'', tl fmt) else (False, fmt))"

text \<open>One conversion; \<open>long\<close> tells whether the qualifier is \<open>l\<close>.\<close>

definition fmt_c :: "u32 \<Rightarrow> int \<Rightarrow> vs \<Rightarrow> vs option" where
  "fmt_c flags width s = do {
     (a, s) \<leftarrow> va_arg s;
     let blanks = emit (width - 1) CHR '' '';
     let ch = [byte_char (ucast a)];
     Some (put (if flag flags LEFT then ch @ blanks else blanks @ ch) s)
   }"

definition fmt_s :: "u32 \<Rightarrow> int \<Rightarrow> int \<Rightarrow> vs \<Rightarrow> vs option" where
  "fmt_s flags width precision s = do {
     (a, s) \<leftarrow> va_arg s;
     let len = sint (strlen a (vs_mem s));
     let len = (if precision < 0 then len else if len > precision then precision else len);
     let blanks = emit (width - len) CHR '' '';
     let cs = map (\<lambda>i. byte_char (vs_mem s (a + word_of_nat i))) [0..<nat len];
     Some (put (if flag flags LEFT then cs @ blanks else blanks @ cs) s)
   }"

definition fmt_number :: "(u64 \<Rightarrow> u64) \<Rightarrow> int \<Rightarrow> u32 \<Rightarrow> int \<Rightarrow> int \<Rightarrow> vs \<Rightarrow> vs option" where
  "fmt_number conv base flags width precision s = do {
     (a, s) \<leftarrow> va_arg s;
     cs \<leftarrow> number (conv a) base width precision flags;
     Some (put cs s)
   }"

text \<open>\<open>%n\<close> stores the number of characters so far through a pointer.\<close>

definition fmt_n :: "bool \<Rightarrow> vs \<Rightarrow> vs option" where
  "fmt_n long s = do {
     (a, s) \<leftarrow> va_arg s;
     Some (s\<lparr>vs_mem := stos (if long then 8 else 4) (word_of_nat (length (vs_str s))) a (vs_mem s)\<rparr>)
   }"

definition convert :: "char \<Rightarrow> bool \<Rightarrow> u32 \<Rightarrow> int \<Rightarrow> int \<Rightarrow> vs \<Rightarrow> vs option" where
  "convert c long flags width precision s =
     (let uint = (if long then id else as_uint)
      in if c = CHR ''c'' then fmt_c flags width s
         else if c = CHR ''s'' then fmt_s flags width precision s
         else if c = CHR ''o'' then fmt_number uint 8 flags width precision s
         else if c = CHR ''p'' then
           (if width = - 1 then fmt_number id 16 (flags OR ZEROPAD) 16 precision s
            else fmt_number id 16 flags width precision s)
         else if c = CHR ''x'' then fmt_number uint 16 (flags OR SMALL) width precision s
         else if c = CHR ''X'' then fmt_number uint 16 flags width precision s
         else if c = CHR ''d'' \<or> c = CHR ''i'' \<or> c = CHR ''u'' then
           fmt_number (if long then id else (\<lambda>a. word_of_int (as_int a))) 10
             (if c = CHR ''u'' then flags else flags OR SIGN) width precision s
         else if c = CHR ''n'' then fmt_n long s
         else if c = CHR ''%'' then Some (put ''%'' s)
         else Some (put [CHR ''%'', c] s))"

definition directive :: "string \<Rightarrow> vs \<Rightarrow> (string \<times> vs) option" where
  "directive fmt s = do {
     let (flags, fmt) = parse_flags fmt 0;
     (width, flags, fmt, s) \<leftarrow> parse_width fmt flags s;
     (precision, fmt, s) \<leftarrow> parse_precision fmt s;
     let (long, fmt) = parse_qualifier fmt;
     (case fmt of
        [] \<Rightarrow> Some ([], put ''%'' s)
      | c # fmt \<Rightarrow> do { s \<leftarrow> convert c long flags width precision s; Some (fmt, s) })
   }"

subsection \<open>A directive consumes a part of the format\<close>

lemma skip_atoi_length: "skip_atoi fmt i = (j, rest) \<Longrightarrow> length rest \<le> length fmt"
  by (induction fmt i rule: skip_atoi.induct) (auto split: if_splits)

lemma parse_flags_length: "parse_flags fmt i = (j, rest) \<Longrightarrow> length rest \<le> length fmt"
  by (induction fmt i rule: parse_flags.induct) (auto split: if_splits)

lemma parse_width_length:
  "parse_width fmt flags s = Some (w, f, rest, s') \<Longrightarrow> length rest \<le> length fmt"
  by (auto simp: parse_width_def bind_eq_Some_conv split: if_splits prod.splits dest: skip_atoi_length)

lemma parse_precision_length:
  "parse_precision fmt s = Some (p, rest, s') \<Longrightarrow> length rest \<le> length fmt"
  by (fastforce simp: parse_precision_def bind_eq_Some_conv Let_def split: if_splits prod.splits
    dest: skip_atoi_length)

lemma parse_qualifier_length: "parse_qualifier fmt = (l, rest) \<Longrightarrow> length rest \<le> length fmt"
  by (auto simp: parse_qualifier_def split: if_splits)

lemma directive_length:
  assumes "directive fmt s = Some (rest, s')"
  shows "length rest \<le> length fmt"
proof -
  obtain flags f1 where 1: "parse_flags fmt 0 = (flags, f1)" by fastforce
  from assms obtain w fl f2 s2 p f3 s3 where
    2: "parse_width f1 flags s = Some (w, fl, f2, s2)" and 3: "parse_precision f2 s2 = Some (p, f3, s3)"
    by (auto simp: directive_def 1 bind_eq_Some_conv)
  obtain l f4 where 4: "parse_qualifier f3 = (l, f4)" by fastforce
  have "length rest \<le> length f4"
    using assms by (auto simp: directive_def 1 2 3 4 bind_eq_Some_conv split: list.splits)
  with parse_flags_length [OF 1] parse_width_length [OF 2] parse_precision_length [OF 3]
    parse_qualifier_length [OF 4] show ?thesis by linarith
qed

function vsprintf_loop :: "string \<Rightarrow> vs \<Rightarrow> vs option" where
  "vsprintf_loop [] s = Some s"
| "vsprintf_loop (c # fmt) s =
     (if c \<noteq> CHR ''%'' then vsprintf_loop fmt (put [c] s)
      else case directive fmt s of
             None \<Rightarrow> None
           | Some (rest, s) \<Rightarrow> vsprintf_loop rest s)"
  by pat_completeness auto
termination
  by (relation "measure (\<lambda>(fmt, s). length fmt)") (auto dest: directive_length)

definition vsprintf :: "string \<Rightarrow> u64 list \<Rightarrow> mem \<Rightarrow> (int \<times> string \<times> mem) option" where
  "vsprintf fmt args m = do {
     s \<leftarrow> vsprintf_loop fmt \<lparr>vs_str = [], vs_args = args, vs_mem = m\<rparr>;
     Some (int (length (vs_str s)), vs_str s, vs_mem s)
   }"

section \<open>The digits of a number\<close>

text \<open>The digits, least significant first, have the value of the number.\<close>

definition digits_value :: "nat \<Rightarrow> nat list \<Rightarrow> nat" where
  "digits_value b ds = foldr (\<lambda>d v. d + b * v) ds 0"

lemma digits_value_simps [simp]:
  "digits_value b [] = 0" "digits_value b (d # ds) = d + b * digits_value b ds"
  by (simp_all add: digits_value_def)

lemma word_ge_2: "\<not> base < 2 \<longleftrightarrow> 2 \<le> unat (base :: u64)"
  by (simp add: word_less_nat_alt not_less)

lemma digit_loop_value: "2 \<le> unat base \<Longrightarrow> digits_value (unat base) (digit_loop base num) = unat num"
proof (induction base num rule: digit_loop.induct)
  case (1 base num)
  show ?case
  proof (cases "num = 0")
    case True
    then show ?thesis by (subst digit_loop.simps) simp
  next
    case False
    with 1 have "digits_value (unat base) (digit_loop base (num div base)) = unat num div unat base"
      by (simp add: word_ge_2 [symmetric] unat_div_distrib)
    with False 1(2) show ?thesis
      by (subst digit_loop.simps) (simp add: word_ge_2 [symmetric] unat_mod_distrib)
  qed
qed

lemma digit_loop_less: "2 \<le> unat base \<Longrightarrow> d \<in> set (digit_loop base num) \<Longrightarrow> d < unat base"
proof (induction base num rule: digit_loop.induct)
  case (1 base num)
  show ?case
  proof (cases "num = 0")
    case True
    with 1(3) show ?thesis by (subst (asm) digit_loop.simps) simp
  next
    case False
    with 1(2,3) have "d = unat (num mod base) \<or> d \<in> set (digit_loop base (num div base))"
      by (subst (asm) digit_loop.simps) (simp add: word_ge_2 [symmetric])
    moreover have "unat num mod unat base < unat base" using 1(2) by simp
    moreover have "\<not> (num = 0 \<or> base < 2)" using False 1(2) by (simp add: word_ge_2)
    ultimately show ?thesis
      using 1(1) [OF _ 1(2)] by (elim disjE) (simp_all only: unat_mod_distrib not_False_eq_True simp_thms)
  qed
qed

lemma digit_loop_length_le:
  "2 \<le> unat base \<Longrightarrow> unat num < unat base ^ k \<Longrightarrow> length (digit_loop base num) \<le> k"
proof (induction k arbitrary: num)
  case 0
  then have "num = 0" by (simp add: unat_eq_zero)
  then show ?case by (subst digit_loop.simps) simp
next
  case (Suc k)
  then have "unat (num div base) < unat base ^ k"
    by (simp add: unat_div_distrib less_mult_imp_div_less mult.commute)
  with Suc show ?case by (subst digit_loop.simps) simp
qed

lemma digit_loop_length_gt:
  "2 \<le> unat base \<Longrightarrow> unat base ^ k \<le> unat num \<Longrightarrow> k < length (digit_loop base num)"
proof (induction k arbitrary: num)
  case 0
  then have "num \<noteq> 0" by auto
  with 0 show ?case by (subst digit_loop.simps) (simp add: word_ge_2)
next
  case (Suc k)
  then have "num \<noteq> 0" by auto
  from Suc.prems have "unat base ^ k \<le> unat num div unat base"
    by (simp add: less_eq_div_iff_mult_less_eq mult.commute)
  then have "unat base ^ k \<le> unat (num div base)" by (simp add: unat_div_distrib)
  from Suc.IH [OF Suc.prems(1) this] Suc.prems(1) \<open>num \<noteq> 0\<close> show ?case
    by (subst digit_loop.simps) (simp add: word_ge_2)
qed

lemma tmp_digits_value: "2 \<le> unat base \<Longrightarrow> digits_value (unat base) (tmp_digits base num) = unat num"
  by (simp add: tmp_digits_def digit_loop_value)

lemma tmp_digits_less: "2 \<le> unat base \<Longrightarrow> d \<in> set (tmp_digits base num) \<Longrightarrow> d < unat base"
  by (auto simp: tmp_digits_def digit_loop_less split: if_splits)

lemma tmp_digits_nonempty: "2 \<le> unat base \<Longrightarrow> tmp_digits base num \<noteq> []"
  by (subst tmp_digits_def, subst digit_loop.simps) (auto simp: word_ge_2 [symmetric])

text \<open>The array \<open>tmp[50]\<close> is large enough from base 3 on; base 2 would need 64 characters.\<close>

lemma tmp_digits_fits: "3 \<le> unat base \<Longrightarrow> length (tmp_digits base num) \<le> 50"
proof -
  assume b: "3 \<le> unat base"
  have "unat num < 3 ^ 50" using unat_less_2p64 [of num] by simp
  also have "3 ^ 50 \<le> unat base ^ 50" using b by (rule power_mono) simp
  finally show ?thesis using digit_loop_length_le [of base num 50] b by (simp add: tmp_digits_def)
qed

section \<open>Reading a number back\<close>

lemma upper_digit: "d < 10 \<Longrightarrow> of_char (upper_digits ! d) = (48 + d :: nat)"
proof -
  assume "d < 10"
  then have "d = 0 \<or> d = 1 \<or> d = 2 \<or> d = 3 \<or> d = 4 \<or> d = 5 \<or> d = 6 \<or> d = 7 \<or> d = 8 \<or> d = 9"
    by presburger
  then show ?thesis by (elim disjE) (simp_all add: upper_digits_def)
qed

lemma skip_atoi_digits:
  "\<forall>d \<in> set ds. d < 10 \<Longrightarrow>
   skip_atoi (map (\<lambda>d. upper_digits ! d) ds @ rest) i = skip_atoi rest (fold (\<lambda>d v. v * 10 + word_of_nat d) ds i)"
proof (induction ds arbitrary: i)
  case Nil
  then show ?case by simp
next
  case (Cons d ds)
  then have c: "of_char (upper_digits ! d) = (48 + d :: nat)" by (simp add: upper_digit)
  then have "of_char (upper_digits ! d) = (word_of_nat (48 + d) :: u32)"
    by (metis of_char_of of_nat_of_char)
  with Cons c show ?case by (simp add: is_digit_def algebra_simps)
qed

lemma fold_digits_value:
  "fold (\<lambda>d v. v * 10 + word_of_nat d) (rev ds) (0 :: u32) = word_of_nat (digits_value 10 ds)"
  by (induction ds) (simp_all add: algebra_simps)

lemma fold_zeros: "fold (\<lambda>d v. v * 10 + word_of_nat d) (replicate n 0) (0 :: u32) = 0"
  by (induction n) simp_all

section \<open>The width of a number\<close>

lemma length_emit: "int (length (emit n c)) = max 0 n"
  by (simp add: emit_def)

lemma flag_zeropad_left: "flag t (ZEROPAD + LEFT) \<longleftrightarrow> flag t ZEROPAD \<or> flag t LEFT"
proof -
  have "t AND (ZEROPAD + LEFT) = (t AND ZEROPAD) OR (t AND LEFT)"
    by (simp add: format_flags flip: bit.conj_disj_distrib)
  then show ?thesis by (simp add: or_eq_0_iff)
qed

lemma length_number_out:
  assumes "flag type LEFT \<longrightarrow> \<not> flag type ZEROPAD"
  shows "int (length (number_out type w sign special p tmp)) =
     max (w + int (length sign) + int (length special))
       (int (length sign) + int (length special) + max p (int (length tmp)))"
  using assms flag_zeropad_left [of type]
  by (cases "flag type LEFT"; cases "flag type ZEROPAD")
     (simp_all add: number_out_def Let_def length_emit emitted_def max_def)

lemma flag_left_clears: "\<not> flag (t AND NOT ZEROPAD) ZEROPAD" "flag (t AND NOT ZEROPAD) LEFT = flag t LEFT"
proof -
  show "\<not> flag (t AND NOT ZEROPAD) ZEROPAD" by (simp add: and.assoc)
  have "NOT ZEROPAD AND LEFT = LEFT" by (simp add: format_flags)
  then show "flag (t AND NOT ZEROPAD) LEFT = flag t LEFT" by (simp add: and.assoc)
qed

section \<open>Properties\<close>

text \<open>C16.  What \<open>number\<close> prints for a 32-bit value in decimal, with any precision,
  \<open>skip_atoi\<close> reads back: it returns the value and stops at the text behind it.\<close>

theorem decimal_roundtrip:
  assumes "\<not> head_is is_digit rest"
  shows "\<exists>cs. number (ucast (n :: u32)) 10 (- 1) p 0 = Some cs \<and> skip_atoi (cs @ rest) 0 = (n, rest)"
proof -
  let ?ds = "tmp_digits 10 (ucast n)"
  let ?z = "replicate (nat (p - int (length ?ds))) (0 :: nat)"
  let ?cs = "map (\<lambda>d. upper_digits ! d) (?z @ rev ?ds)"
  have "length ?ds > 0" using tmp_digits_nonempty [of 10 "ucast n"] by simp
  then have "number (ucast n) 10 (- 1) p 0 = Some ?cs"
    by (auto simp: number_def number_out_def Let_def emit_def emitted_def upper_digits_def rev_map)
  moreover have "\<forall>d \<in> set (?z @ rev ?ds). d < 10"
    using tmp_digits_less [of 10 _ "ucast n"] by auto
  then have "skip_atoi (?cs @ rest) 0 = skip_atoi rest (fold (\<lambda>d v. v * 10 + word_of_nat d) (?z @ rev ?ds) 0)"
    by (rule skip_atoi_digits)
  then have "skip_atoi (?cs @ rest) 0 = skip_atoi rest (word_of_nat (digits_value 10 ?ds))"
    by (simp only: fold_append comp_apply fold_zeros fold_digits_value)
  moreover have "word_of_nat (digits_value 10 ?ds) = n"
    using tmp_digits_value [of 10 "ucast n"] by simp
  moreover have "skip_atoi rest i = (i, rest)" for i
    using assms by (cases rest) (simp_all add: head_is_def)
  ultimately show ?thesis by metis
qed

theorem decimal_roundtrip_witness:
  "\<exists>cs. number 1984 10 (- 1) 6 0 = Some cs \<and> skip_atoi (cs @ '', x'') 0 = (1984, '', x'')"
  using decimal_roundtrip [of "'', x''" 1984 6] by (simp add: head_is_def is_digit_def)

text \<open>For every valid base \<open>number\<close> returns, and the length of what it prints is the
  field width or, if that is longer, the sign, the prefix and the digits, of which there are as many
  as the precision or the value demands.\<close>

theorem number_length:
  assumes "2 \<le> base" and "base \<le> 36"
  shows "\<exists>cs. number num base width precision type = Some cs \<and>
     int (length cs) = max width
       ((if flag type SIGN \<and> sint num < 0 \<or> flag type PLUS \<or> flag type SPACE then 1 else 0) +
        (if flag type SPECIAL then if base = 16 then 2 else if base = 8 then 1 else 0 else 0) +
        max precision (int (length (tmp_digits (word_of_int base)
          (if flag type SIGN \<and> sint num < 0 then - num else num)))))"
proof -
  let ?t = "if flag type LEFT then type AND NOT ZEROPAD else type"
  have "NOT ZEROPAD AND SIGN = SIGN" "NOT ZEROPAD AND PLUS = PLUS" "NOT ZEROPAD AND SPACE = SPACE"
    "NOT ZEROPAD AND SPECIAL = SPECIAL" by (simp_all add: format_flags)
  then have f: "?t AND SIGN = type AND SIGN" "?t AND PLUS = type AND PLUS"
    "?t AND SPACE = type AND SPACE" "?t AND SPECIAL = type AND SPECIAL"
    by (simp_all add: and.assoc)
  have l: "flag ?t LEFT \<longrightarrow> \<not> flag ?t ZEROPAD"
    using flag_left_clears [of type] by auto
  show ?thesis
    using assms
    by (simp only: number_def Let_def f) (auto simp: length_number_out [OF l])
qed

theorem number_length_witness:
  "\<exists>cs. number 255 16 8 (- 1) (SPECIAL OR ZEROPAD) = Some cs \<and> length cs = 8"
proof -
  have "tmp_digits 16 255 = [15, 15]"
    by (simp add: tmp_digits_def) (subst digit_loop.simps, simp, subst digit_loop.simps, simp, subst digit_loop.simps, simp)
  then show ?thesis
    using number_length [of 16 255 8 "- 1" "SPECIAL OR ZEROPAD"] by (simp add: format_flags)
qed

text \<open>\<open>%u\<close> of a 32-bit value above \<open>0x7fffffff\<close> prints 20 digits: the argument is
  read as an \<open>int\<close> and sign-extended to 64 bits, so it shows as a number near \<open>2^64\<close>,
  while no 32-bit value has more than 10 digits.\<close>

theorem percent_u_sign_extends:
  assumes "as_int a < 0"
  shows "\<exists>cs. vsprintf ''%u'' [a] m = Some (20, cs, m) \<and>
     length (tmp_digits 10 (as_uint a)) \<le> 10"
proof -
  let ?n = "word_of_int (as_int a) :: u64"
  have lo: "- (2 ^ 31) \<le> as_int a"
    using sint_ge [of "ucast a :: u32"] by (simp add: as_int_def)
  have "uint ?n = as_int a mod 2 ^ 64" by (simp add: uint_word_of_int)
  also have "\<dots> = (as_int a + 2 ^ 64) mod 2 ^ 64" by simp
  also have "\<dots> = as_int a + 2 ^ 64" using assms lo by (intro mod_pos_pos_trivial) auto
  finally have un: "unat ?n = nat (as_int a + 2 ^ 64)" by (metis unat_eq_nat_uint)
  have "19 < length (digit_loop 10 ?n)"
    by (rule digit_loop_length_gt) (use un lo in auto)
  moreover have "length (digit_loop 10 ?n) \<le> 20"
    by (rule digit_loop_length_le) (use unat_less_2p64 [of ?n] in auto)
  moreover have nz: "?n \<noteq> 0" using un lo by (auto simp: unat_eq_zero [symmetric])
  ultimately have d: "length (tmp_digits 10 ?n) = 20" by (simp add: tmp_digits_def)
  obtain cs where cs: "number ?n 10 (- 1) (- 1) 0 = Some cs" "int (length cs) = 20"
    using number_length [of 10 ?n "- 1" "- 1" 0] d by auto
  have "vsprintf ''%u'' [a] m = Some (20, cs, m)"
    using cs by (simp add: vsprintf_def directive_def parse_width_def head_is_def is_digit_def
      parse_precision_def parse_qualifier_def convert_def fmt_number_def va_arg_def put_def)
  moreover have "unat (as_uint a) < 10 ^ 10"
    using unat_less_2p32 [of "ucast a"] by (simp add: as_uint_def)
  then have "length (tmp_digits 10 (as_uint a)) \<le> 10"
    using digit_loop_length_le [of 10 "as_uint a" 10] by (simp add: tmp_digits_def)
  ultimately show ?thesis by blast
qed

theorem percent_u_sign_extends_witness:
  "\<exists>cs. vsprintf ''%u'' [0xffffffff] (\<lambda>_. 0) = Some (20, cs, \<lambda>_. 0)"
  using percent_u_sign_extends [of "0xffffffff" "\<lambda>_. 0"] by (auto simp: as_int_def)

end
