(* ===== verification/Page_Alloc.thy ===== *)
theory Page_Alloc
  imports Prelude "HOL-Library.Monad_Syntax"
begin

unbundle bit_operations_syntax

text \<open>
  The physical page allocator of \<open>src/memory.c\<close>: the memory map read from the BIOS, the page
  and zone descriptors, the bitmap with one bit for each 2 MB page, and \<open>alloc_pages\<close> and
  \<open>free_pages\<close>.

  The three arrays \<open>bits_map\<close>, \<open>pages_struct\<close> and \<open>zones_struct\<close> are functions of the
  index; a \<open>struct Page *\<close> is an index into \<open>pages_struct\<close>, a \<open>struct Zone *\<close> an
  index into \<open>zones_struct\<close>.  Page numbers are natural numbers: an address shifted by 21 bits
  is below \<open>2 ^ 43\<close>, so the loop counters do not wrap.
\<close>

section \<open>State\<close>

record E820 =
  e_address :: u64
  e_length :: u64
  e_type :: u32

record Page =
  zone_struct :: "nat option"
  PHY_address :: u64
  attribute :: u64
  reference_count :: u64
  age :: u64

record Zone =
  pages_group :: nat
  z_pages_length :: u64
  zone_start_address :: u64
  zone_end_address :: u64
  zone_length :: u64
  z_attribute :: u64
  page_using_count :: u64
  page_free_count :: u64
  total_pages_link :: u64

record gmd =
  e820 :: "nat \<Rightarrow> E820"
  e820_length :: nat
  bits_map_addr :: u64
  bits_map :: "nat \<Rightarrow> u64"
  bits_size :: u64
  bits_length :: u64
  pages_struct_addr :: u64
  pages_struct :: "nat \<Rightarrow> Page"
  pages_size :: u64
  pages_length :: u64
  zones_struct_addr :: u64
  zones_struct :: "nat \<Rightarrow> Zone"
  zones_size :: nat
  zones_length :: u64
  start_brk :: u64
  end_of_struct :: u64
  ZONE_DMA_INDEX :: int
  ZONE_NORMAL_INDEX :: int
  ZONE_UNMAPED_INDEX :: int

definition ZONE_DMA :: int where "ZONE_DMA = 1"
definition ZONE_NORMAL :: int where "ZONE_NORMAL = 2"
definition ZONE_UNMAPED :: int where "ZONE_UNMAPED = 4"
definition PG_PTable_Maped :: u64 where "PG_PTable_Maped = 1"
definition PG_Kernel_Init :: u64 where "PG_Kernel_Init = 2"
definition PG_Kernel :: u64 where "PG_Kernel = 8"
definition PG_Shared :: u64 where "PG_Shared = 16"

definition upd_page :: "nat \<Rightarrow> (Page \<Rightarrow> Page) \<Rightarrow> gmd \<Rightarrow> gmd" where
  "upd_page p f g = g\<lparr>pages_struct := (pages_struct g)(p := f (pages_struct g p))\<rparr>"

definition upd_zone :: "nat \<Rightarrow> (Zone \<Rightarrow> Zone) \<Rightarrow> gmd \<Rightarrow> gmd" where
  "upd_zone z f g = g\<lparr>zones_struct := (zones_struct g)(z := f (zones_struct g z))\<rparr>"

text \<open>
  An update through \<open>page->zone_struct\<close>.  A descriptor outside every zone has a null pointer
  there; the write then goes to the lowest memory, outside the state of the allocator.
\<close>

definition upd_page_zone :: "nat \<Rightarrow> (Zone \<Rightarrow> Zone) \<Rightarrow> gmd \<Rightarrow> gmd" where
  "upd_page_zone p f g = (case zone_struct (pages_struct g p) of None \<Rightarrow> g | Some z \<Rightarrow> upd_zone z f g)"

text \<open>The page frame number of a descriptor, and the updates of its bit.\<close>

definition pfn :: "gmd \<Rightarrow> nat \<Rightarrow> nat" where
  "pfn g p = unat (drop_bit 21 (PHY_address (pages_struct g p)))"

definition upd_bits :: "nat \<Rightarrow> (u64 \<Rightarrow> u64) \<Rightarrow> gmd \<Rightarrow> gmd" where
  "upd_bits i f g = g\<lparr>bits_map := (bits_map g)(i := f (bits_map g i))\<rparr>"

definition bit_set :: "nat \<Rightarrow> gmd \<Rightarrow> gmd" where
  "bit_set n = upd_bits (n div 64) (\<lambda>w. w OR push_bit (n mod 64) 1)"

definition bit_clear :: "nat \<Rightarrow> gmd \<Rightarrow> gmd" where
  "bit_clear n = upd_bits (n div 64) (\<lambda>w. w AND NOT (push_bit (n mod 64) 1))"

definition bit_flip :: "nat \<Rightarrow> gmd \<Rightarrow> gmd" where
  "bit_flip n = upd_bits (n div 64) (\<lambda>w. w XOR push_bit (n mod 64) 1)"

section \<open>Page descriptors\<close>

definition page_init :: "nat \<Rightarrow> u64 \<Rightarrow> gmd \<Rightarrow> u64 \<times> gmd" where
  "page_init p flags g =
     (let g = upd_page p (\<lambda>q. q\<lparr>attribute := attribute q OR flags\<rparr>) g;
          q = pages_struct g p
      in (1, if reference_count q = 0 \<or> attribute q AND PG_Shared \<noteq> 0
             then upd_page_zone p (\<lambda>z. z\<lparr>total_pages_link := total_pages_link z + 1\<rparr>)
               (upd_page p (\<lambda>q. q\<lparr>reference_count := reference_count q + 1\<rparr>) g)
             else g))"

definition page_clean :: "nat \<Rightarrow> gmd \<Rightarrow> u64 \<times> gmd" where
  "page_clean p g =
     (let g = upd_page p (\<lambda>q. q\<lparr>reference_count := reference_count q - 1\<rparr>) g;
          g = upd_page_zone p (\<lambda>z. z\<lparr>total_pages_link := total_pages_link z - 1\<rparr>) g
      in (1, if reference_count (pages_struct g p) = 0
             then upd_page p (\<lambda>q. q\<lparr>attribute := attribute q AND PG_PTable_Maped\<rparr>) g
             else g))"

text \<open>A null \<open>struct Page *\<close> is \<^const>\<open>None\<close>.\<close>

definition get_page_attribute :: "nat option \<Rightarrow> gmd \<Rightarrow> u64" where
  "get_page_attribute page g =
     (case page of None \<Rightarrow> 0 | Some p \<Rightarrow> attribute (pages_struct g p))"

definition set_page_attribute :: "nat option \<Rightarrow> u64 \<Rightarrow> gmd \<Rightarrow> u64 \<times> gmd" where
  "set_page_attribute page flags g =
     (case page of None \<Rightarrow> (0, g) | Some p \<Rightarrow> (1, upd_page p (\<lambda>q. q\<lparr>attribute := flags\<rparr>) g))"

section \<open>Allocation\<close>

text \<open>The test of the innermost loop: no page is used in the window of \<open>number\<close> bits at \<open>k\<close>.\<close>

definition window_free :: "(nat \<Rightarrow> u64) \<Rightarrow> nat \<Rightarrow> nat \<Rightarrow> u64 \<Rightarrow> bool" where
  "window_free m i k num \<longleftrightarrow>
     (if k \<noteq> 0 then drop_bit k (m i) OR push_bit (64 - k) (m (i + 1)) else m i) AND num = 0"

function scan_zone :: "(nat \<Rightarrow> u64) \<Rightarrow> u64 \<Rightarrow> nat \<Rightarrow> nat \<Rightarrow> nat \<Rightarrow> nat option" where
  "scan_zone m num start end j =
     (if j < end
      then case find (\<lambda>k. window_free m (j div 64) k num) [j mod 64..<64] of
             Some k \<Rightarrow> Some (j + k - j mod 64)
           | None \<Rightarrow> scan_zone m num start end (j + (if j mod 64 \<noteq> 0 then 64 - start mod 64 else 64))
      else None)"
  by pat_completeness auto
termination
  by (relation "measure (\<lambda>(m, num, start, end, j). end - j)") (auto simp: diff_less_mono2)

declare scan_zone.simps [simp del]

text \<open>One turn of the loop that takes the pages, for the descriptor \<open>p\<close> and the zone \<open>z\<close>.\<close>

definition take_page :: "nat \<Rightarrow> u64 \<Rightarrow> nat \<Rightarrow> gmd \<Rightarrow> gmd" where
  "take_page z attr p g =
     (let g = bit_set (pfn g p) g;
          g = upd_zone z (\<lambda>y. y\<lparr>page_using_count := page_using_count y + 1,
                                page_free_count := page_free_count y - 1\<rparr>) g
      in upd_page p (\<lambda>q. q\<lparr>attribute := attr\<rparr>) g)"

fun alloc_from :: "u64 \<Rightarrow> int \<Rightarrow> nat list \<Rightarrow> gmd \<Rightarrow> nat option \<times> gmd" where
  "alloc_from attr number [] g = (None, g)"
| "alloc_from attr number (z # zs) g =
     (if page_free_count (zones_struct g z) < word_of_int number then alloc_from attr number zs g
      else let start = unat (drop_bit 21 (zone_start_address (zones_struct g z)));
               end = unat (drop_bit 21 (zone_end_address (zones_struct g z)))
           in case scan_zone (bits_map g) (push_bit (nat number) 1 - 1) start end start of
                None \<Rightarrow> alloc_from attr number zs g
              | Some page \<Rightarrow>
                  (Some page, fold (take_page z attr) [page..<page + nat number] g))"

definition alloc_pages :: "int \<Rightarrow> int \<Rightarrow> u64 \<Rightarrow> gmd \<Rightarrow> nat option \<times> gmd" where
  "alloc_pages zone_select number page_flags g =
     (if number \<ge> 64 \<or> number \<le> 0 then (None, g)
      else if zone_select = ZONE_DMA then
        alloc_from PG_PTable_Maped number (map nat [0..ZONE_DMA_INDEX g]) g
      else if zone_select = ZONE_NORMAL then
        alloc_from PG_PTable_Maped number (map nat [ZONE_DMA_INDEX g..ZONE_NORMAL_INDEX g]) g
      else if zone_select = ZONE_UNMAPED then
        alloc_from 0 number (map nat [ZONE_UNMAPED_INDEX g..int (zones_size g) - 1]) g
      else (None, g))"

definition give_page :: "nat \<Rightarrow> gmd \<Rightarrow> gmd" where
  "give_page p g =
     (let g = bit_clear (pfn g p) g;
          g = upd_page_zone p
            (\<lambda>y. y\<lparr>page_using_count := page_using_count y - 1,
                   page_free_count := page_free_count y + 1\<rparr>) g
      in upd_page p (\<lambda>q. q\<lparr>attribute := 0\<rparr>) g)"

definition free_pages :: "nat option \<Rightarrow> int \<Rightarrow> gmd \<Rightarrow> gmd" where
  "free_pages page number g =
     (case page of None \<Rightarrow> g
      | Some p \<Rightarrow> if number \<ge> 64 \<or> number \<le> 0 then g
                 else fold give_page [p..<p + nat number] g)"

section \<open>Initialisation\<close>

definition PAGE_2M_ALIGN :: "u64 \<Rightarrow> u64" where
  "PAGE_2M_ALIGN a = (a + 0x1fffff) AND NOT 0x1fffff"

definition PAGE_4K_ALIGN :: "u64 \<Rightarrow> u64" where
  "PAGE_4K_ALIGN a = (a + 0xfff) AND NOT 0xfff"

definition SIZEOF_LONG_ALIGN :: "u64 \<Rightarrow> u64" where
  "SIZEOF_LONG_ALIGN n = (n + 7) AND NOT 7"

definition region_start :: "E820 \<Rightarrow> u64" where
  "region_start r = PAGE_2M_ALIGN (e_address r)"

definition region_end :: "E820 \<Rightarrow> u64" where
  "region_end r = push_bit 21 (drop_bit 21 (e_address r + e_length r))"

text \<open>
  The copy of the BIOS memory map: \<open>src\<close> is the table at \<open>0xffff800000007e00\<close>.  The sums that
  are only printed are left out.
\<close>

fun read_e820 :: "(nat \<Rightarrow> E820) \<Rightarrow> nat list \<Rightarrow> gmd \<Rightarrow> gmd" where
  "read_e820 src [] g = g"
| "read_e820 src (i # js) g =
     (let g = g\<lparr>e820 := (e820 g)(i := src i), e820_length := i\<rparr>; p = src (i + 1)
      in if e_type p > 4 \<or> e_length p = 0 \<or> e_type p < 1 then g else read_e820 src js g)"

definition zero_page :: Page where
  "zero_page = \<lparr>zone_struct = None, PHY_address = 0, attribute = 0, reference_count = 0, age = 0\<rparr>"

definition zero_zone :: Zone where
  "zero_zone = \<lparr>pages_group = 0, z_pages_length = 0, zone_start_address = 0, zone_end_address = 0,
     zone_length = 0, z_attribute = 0, page_using_count = 0, page_free_count = 0, total_pages_link = 0\<rparr>"

text \<open>The sizes and places of the three arrays; \<open>sizeof(struct Page)\<close> is 40,
  \<open>sizeof(struct Zone)\<close> is 80.\<close>

definition place_arrays :: "gmd \<Rightarrow> gmd" where
  "place_arrays g =
     (let l = e820 g (e820_length g); TotalMem = e_address l + e_length l; n = drop_bit 21 TotalMem;
          blen = ((n + 63) div 8) AND NOT 7;
          plen = SIZEOF_LONG_ALIGN (n * 40);
          zlen = SIZEOF_LONG_ALIGN (5 * 80);
          ba = PAGE_4K_ALIGN (start_brk g);
          pa = PAGE_4K_ALIGN (ba + blen);
          za = PAGE_4K_ALIGN (pa + plen)
      in g\<lparr>bits_map_addr := ba, bits_size := n, bits_length := blen,
           bits_map := (\<lambda>i. if i < unat (blen div 8) then - 1 else bits_map g i),
           pages_struct_addr := pa, pages_size := n, pages_length := plen,
           pages_struct := (\<lambda>p. if p < unat (plen div 40) then zero_page else pages_struct g p),
           zones_struct_addr := za, zones_size := 0, zones_length := zlen,
           zones_struct := (\<lambda>z. if z < 5 then zero_zone else zones_struct g z)\<rparr>)"

definition init_page :: "nat \<Rightarrow> u64 \<Rightarrow> nat \<Rightarrow> nat \<Rightarrow> gmd \<Rightarrow> gmd" where
  "init_page z start first j g =
     (let g = upd_page (first + j) (\<lambda>_. \<lparr>zone_struct = Some z,
                PHY_address = start + 0x200000 * word_of_nat j, attribute = 0,
                reference_count = 0, age = 0\<rparr>) g
      in bit_flip (pfn g (first + j)) g)"

definition add_zone :: "nat \<Rightarrow> gmd \<Rightarrow> gmd" where
  "add_zone i g =
     (let r = e820 g i; start = region_start r; end = region_end r; z = zones_size g;
          first = unat (drop_bit 21 start)
      in if e_type r \<noteq> 1 \<or> end \<le> start then g
         else let g = g\<lparr>zones_size := z + 1\<rparr>;
                  g = upd_zone z (\<lambda>_. \<lparr>pages_group = first, z_pages_length = drop_bit 21 (end - start),
                    zone_start_address = start, zone_end_address = end, zone_length = end - start,
                    z_attribute = 0, page_using_count = 0, page_free_count = drop_bit 21 (end - start),
                    total_pages_link = 0\<rparr>) g
              in fold (init_page z start first) [0..<unat (drop_bit 21 (end - start))] g)"

definition kernel_flags :: u64 where
  "kernel_flags = PG_PTable_Maped OR PG_Kernel_Init OR PG_Kernel"

definition init_page0 :: "gmd \<Rightarrow> gmd" where
  "init_page0 g =
     (let g = upd_page 0 (\<lambda>q. q\<lparr>zone_struct := Some 0, PHY_address := 0\<rparr>) g;
          g = snd (set_page_attribute (Some 0) kernel_flags g)
      in upd_page 0 (\<lambda>q. q\<lparr>reference_count := 1, age := 0\<rparr>) g)"

definition find_unmapped :: "gmd \<Rightarrow> int" where
  "find_unmapped g = fold (\<lambda>i u. if zone_start_address (zones_struct g i) \<ge> 0x100000000 \<and> u = 0 then int i else u)
     [0..<zones_size g] 0"

definition mark_kernel_page :: "nat \<Rightarrow> gmd \<Rightarrow> gmd" where
  "mark_kernel_page j g =
     (let g = snd (page_init j kernel_flags g);
          g = bit_set (pfn g j) g
      in upd_page_zone j (\<lambda>z. z\<lparr>page_using_count := page_using_count z + 1,
            page_free_count := page_free_count z - 1\<rparr>) g)"

definition kernel_last :: "gmd \<Rightarrow> int" where
  "kernel_last g = sint (ucast (drop_bit 21 (end_of_struct g - 0xffff800000000000)) :: 32 word)"

definition init_memory :: "(nat \<Rightarrow> E820) \<Rightarrow> gmd \<Rightarrow> gmd" where
  "init_memory src g =
     (let g = read_e820 src [0..<32] g;
          g = place_arrays g;
          g = fold add_zone [0..<Suc (e820_length g)] g;
          g = init_page0 g;
          g = g\<lparr>zones_length := SIZEOF_LONG_ALIGN (word_of_nat (zones_size g) * 80)\<rparr>;
          g = g\<lparr>ZONE_DMA_INDEX := 0, ZONE_NORMAL_INDEX := 0, ZONE_UNMAPED_INDEX := find_unmapped g\<rparr>;
          g = g\<lparr>end_of_struct := (zones_struct_addr g + zones_length g + 8 * 32) AND NOT 7\<rparr>
      in fold mark_kernel_page (map nat [1..kernel_last g]) g)"

section \<open>The bitmap\<close>

lemma unat_frame: "n < 2 ^ 43 \<Longrightarrow> unat (drop_bit 21 (push_bit 21 (word_of_nat n :: u64))) = n"
proof -
  assume "n < 2 ^ 43"
  have "drop_bit 21 (push_bit 21 (word_of_nat n :: u64)) = take_bit 43 (word_of_nat n)"
    by (rule bit_word_eqI) (auto simp: bit_simps)
  with \<open>n < 2 ^ 43\<close> show ?thesis by (simp add: unsigned_take_bit_eq unsigned_of_nat take_bit_nat_eq_self)
qed

definition ubit :: "(nat \<Rightarrow> u64) \<Rightarrow> nat \<Rightarrow> bool" where
  "ubit m n \<longleftrightarrow> bit (m (n div 64)) (n mod 64)"

abbreviation used :: "gmd \<Rightarrow> nat \<Rightarrow> bool" where
  "used g n \<equiv> ubit (bits_map g) n"

lemma window_word_bit:
  assumes "k < 64" and "l < 64"
  shows "bit (if k \<noteq> 0 then drop_bit k (m i) OR push_bit (64 - k) (m (i + 1)) else m i) l
     \<longleftrightarrow> ubit m (64 * i + k + l)"
proof (cases "k + l < 64")
  case True
  then have "(64 * i + k + l) div 64 = i" "(64 * i + k + l) mod 64 = k + l"
    by (simp_all add: div_nat_eqI mod_nat_eqI)
  with True show ?thesis by (auto simp: ubit_def bit_simps)
next
  case False
  with assms have "(64 * i + k + l) div 64 = i + 1" "(64 * i + k + l) mod 64 = k + l - 64"
    by (simp_all add: div_nat_eqI mod_nat_eqI)
  moreover have "\<not> bit (m i) (k + l)" using False bit_imp_le_length by fastforce
  ultimately show ?thesis using False assms by (auto simp: ubit_def bit_simps add.commute [of l k])
qed

lemma window_free_iff:
  assumes "k < 64" and "n < 64"
  shows "window_free m i k (mask n) \<longleftrightarrow> (\<forall>l < n. \<not> ubit m (64 * i + k + l))"
proof -
  let ?w = "if k \<noteq> 0 then drop_bit k (m i) OR push_bit (64 - k) (m (i + 1)) else m i"
  have w: "bit ?w l \<longleftrightarrow> ubit m (64 * i + k + l)" if "l < n" for l
    using assms(1) by (rule window_word_bit) (use that assms(2) in simp)
  have "(?w AND mask n) = 0 \<longleftrightarrow> (\<forall>l. \<not> (bit ?w l \<and> l < n \<and> l < 64))"
    by (simp only: bit_eq_iff bit_and_iff bit_mask_word bit_0_eq) auto
  also have "\<dots> \<longleftrightarrow> (\<forall>l < n. \<not> bit ?w l)"
    using assms(2) less_trans by blast
  also have "\<dots> \<longleftrightarrow> (\<forall>l < n. \<not> ubit m (64 * i + k + l))"
    using w by blast
  finally show ?thesis unfolding window_free_def .
qed

text \<open>\<open>run_free m n p\<close>: the pages \<open>p\<close>, \dots, \<open>p + n - 1\<close> are free.\<close>

definition run_free :: "(nat \<Rightarrow> u64) \<Rightarrow> nat \<Rightarrow> nat \<Rightarrow> bool" where
  "run_free m n p \<longleftrightarrow> (\<forall>l < n. \<not> ubit m (p + l))"

lemma find_window:
  assumes "n < 64"
  shows "find (\<lambda>k. window_free m (j div 64) k (mask n)) [j mod 64..<64]
    = find (\<lambda>k. run_free m n (64 * (j div 64) + k)) [j mod 64..<64]"
  using assms by (intro find_cong) (auto simp: window_free_iff run_free_def)

lemma find_upt_None: "find P [a..<b] = None \<longleftrightarrow> (\<forall>k. a \<le> k \<and> k < b \<longrightarrow> \<not> P k)"
  by (auto simp: find_None_iff)

lemma find_upt_Some:
  "find P [a..<b] = Some k \<Longrightarrow> a \<le> k \<and> k < b \<and> P k \<and> (\<forall>i. a \<le> i \<and> i < k \<longrightarrow> \<not> P i)"
proof -
  assume "find P [a..<b] = Some k"
  then obtain i where i: "i < length [a..<b]" "P ([a..<b] ! i)" "k = [a..<b] ! i"
    "\<forall>j<i. \<not> P ([a..<b] ! j)" by (auto simp: find_Some_iff)
  have "\<not> P r" if "a \<le> r" "r < k" for r
    using i that by (auto dest!: spec [of _ "r - a"])
  with i show ?thesis by auto
qed

lemma next_word: "(j :: nat) = 64 * i + k \<Longrightarrow> k < 64 \<Longrightarrow> j + (64 - k) = 64 * (i + 1)"
  by simp

lemma scan_zone_spec:
  assumes n: "n < 64" and "j = start \<or> j mod 64 = 0"
  shows "case scan_zone m (mask n) start end j of
      None \<Rightarrow> \<forall>q. j \<le> q \<and> q < end \<longrightarrow> \<not> run_free m n q
    | Some p \<Rightarrow> j \<le> p \<and> p < end + 63 \<and> run_free m n p \<and> (\<forall>q. j \<le> q \<and> q < p \<longrightarrow> \<not> run_free m n q)"
  using assms(2)
proof (induction "end - j" arbitrary: j rule: less_induct)
  case less
  obtain i k where ik: "j div 64 = i" "j mod 64 = k" by blast
  then have j: "j = 64 * i + k" and k: "k < 64" by auto
  let ?f = "find (\<lambda>k. run_free m n (64 * i + k)) [k..<64]"
  note step = scan_zone.simps [of m "mask n" start "end" j, unfolded find_window [OF n], unfolded ik]
  show ?case
  proof (cases "j < end")
    case False
    then show ?thesis by (simp add: step) auto
  next
    case True
    show ?thesis
    proof (cases ?f)
      case None
      define j' where "j' = j + (if k \<noteq> 0 then 64 - start mod 64 else 64)"
      have j': "j' = 64 * (i + 1)"
        using less.prems ik(2) j k next_word [OF j k] unfolding j'_def by auto
      from None have no: "\<not> run_free m n (64 * i + r)" if "k \<le> r" "r < 64" for r
        using that by (simp add: find_upt_None)
      have "\<not> run_free m n q" if "j \<le> q" "q < j'" for q
        using no [of "q - 64 * i"] that j j' by simp
      moreover have "scan_zone m (mask n) start end j = scan_zone m (mask n) start end j'"
        using True None unfolding j'_def by (subst step) simp
      moreover have "end - j' < end - j" "j' = start \<or> j' mod 64 = 0"
        using True j' j k by auto
      note less.hyps [OF this]
      ultimately show ?thesis using j j' k by (auto split: option.splits) (meson not_le)+
    next
      case (Some r)
      from find_upt_Some [OF this] have r: "k \<le> r" "r < 64" "run_free m n (64 * i + r)"
        "\<And>q. k \<le> q \<Longrightarrow> q < r \<Longrightarrow> \<not> run_free m n (64 * i + q)" by auto
      moreover have "scan_zone m (mask n) start end j = Some (64 * i + r)"
        using True Some j r(1) by (subst step) simp
      moreover have "\<not> run_free m n q" if "j \<le> q" "q < 64 * i + r" for q
        using r(4) [of "q - 64 * i"] that j by auto
      ultimately show ?thesis using True j by auto
    qed
  qed
qed

section \<open>Taking and giving pages\<close>

lemma div_mod_64_eq: "(m :: nat) div 64 = n div 64 \<Longrightarrow> m mod 64 = n mod 64 \<Longrightarrow> m = n"
  by (metis div_mult_mod_eq)

lemma ubit_ext: "(\<And>n. ubit m n = ubit m' n) \<Longrightarrow> m = m'"
proof (rule ext, rule bit_word_eqI)
  fix i b assume "\<And>n. ubit m n = ubit m' n" and "b < LENGTH(64)"
  from this(1) [of "64 * i + b"] this(2) show "bit (m i) b = bit (m' i) b"
    by (simp add: ubit_def)
qed

lemma ubit_upd:
  "used (upd_bits (n div 64) f g) m \<longleftrightarrow>
     (if m div 64 = n div 64 then bit (f (bits_map g (n div 64))) (m mod 64) else used g m)"
  by (simp add: upd_bits_def ubit_def)

lemma used_bit_set [simp]: "used (bit_set n g) m \<longleftrightarrow> used g m \<or> m = n"
  using div_mod_64_eq [of m n] bit_or_bit64 [of "n mod 64" "bits_map g (n div 64)" "m mod 64"]
  by (auto simp: bit_set_def ubit_upd) (auto simp: ubit_def)

lemma used_bit_clear [simp]: "used (bit_clear n g) m \<longleftrightarrow> used g m \<and> m \<noteq> n"
  using div_mod_64_eq [of m n] bit_and_not_bit64 [of "bits_map g (n div 64)" "n mod 64" "m mod 64"]
  by (auto simp: bit_clear_def ubit_upd) (auto simp: ubit_def)

lemma used_bit_flip [simp]: "used (bit_flip n g) m \<longleftrightarrow> (if m = n then \<not> used g m else used g m)"
  using div_mod_64_eq [of m n] bit_xor_bit64 [of "n mod 64" "bits_map g (n div 64)" "m mod 64"]
  by (auto simp: bit_flip_def ubit_upd) (auto simp: ubit_def)

lemma bit_op_frame [simp]:
  "pages_struct (bit_set n g) = pages_struct g" "zones_struct (bit_set n g) = zones_struct g"
  "pages_struct (bit_clear n g) = pages_struct g" "zones_struct (bit_clear n g) = zones_struct g"
  "pages_struct (bit_flip n g) = pages_struct g" "zones_struct (bit_flip n g) = zones_struct g"
  by (simp_all add: bit_set_def bit_clear_def bit_flip_def upd_bits_def)

lemma upd_frame [simp]:
  "bits_map (upd_page p f g) = bits_map g" "bits_map (upd_zone z h g) = bits_map g"
  "zones_struct (upd_page p f g) = zones_struct g" "pages_struct (upd_zone z h g) = pages_struct g"
  by (simp_all add: upd_page_def upd_zone_def)

lemma upd_page_apply: "pages_struct (upd_page p f g) q = (if q = p then f (pages_struct g p) else pages_struct g q)"
  by (simp add: upd_page_def)

lemma upd_zone_apply: "zones_struct (upd_zone z f g) y = (if y = z then f (zones_struct g z) else zones_struct g y)"
  by (simp add: upd_zone_def)

text \<open>The descriptor of a free page below \<open>N\<close> describes the page with its own number.\<close>

definition pages_ok :: "gmd \<Rightarrow> nat \<Rightarrow> bool" where
  "pages_ok g N \<longleftrightarrow> (\<forall>p < N. \<not> used g p \<longrightarrow> pfn g p = p)"

lemma take_page_frame:
  "PHY_address (pages_struct (take_page z a p g) q) = PHY_address (pages_struct g q)"
  "zone_struct (pages_struct (take_page z a p g) q) = zone_struct (pages_struct g q)"
  "pfn (take_page z a p g) q = pfn g q"
  "attribute (pages_struct (take_page z a p g) q) = (if q = p then a else attribute (pages_struct g q))"
  "used (take_page z a p g) m \<longleftrightarrow> used g m \<or> m = pfn g p"
  "page_using_count (zones_struct (take_page z a p g) y) =
     page_using_count (zones_struct g y) + (if y = z then 1 else 0)"
  "page_free_count (zones_struct (take_page z a p g) y) =
     page_free_count (zones_struct g y) - (if y = z then 1 else 0)"
  by (simp_all add: take_page_def Let_def upd_page_apply upd_zone_apply pfn_def)

lemma give_page_frame:
  "PHY_address (pages_struct (give_page p g) q) = PHY_address (pages_struct g q)"
  "zone_struct (pages_struct (give_page p g) q) = zone_struct (pages_struct g q)"
  "pfn (give_page p g) q = pfn g q"
  "attribute (pages_struct (give_page p g) q) = (if q = p then 0 else attribute (pages_struct g q))"
  "used (give_page p g) m \<longleftrightarrow> used g m \<and> m \<noteq> pfn g p"
  "page_using_count (zones_struct (give_page p g) y) =
     page_using_count (zones_struct g y) - (if zone_struct (pages_struct g p) = Some y then 1 else 0)"
  "page_free_count (zones_struct (give_page p g) y) =
     page_free_count (zones_struct g y) + (if zone_struct (pages_struct g p) = Some y then 1 else 0)"
  by (simp_all add: give_page_def Let_def upd_page_apply upd_zone_apply upd_page_zone_def pfn_def
      split: option.split)

lemma take_pages:
  assumes "\<forall>q\<in>set qs. pfn g q = q"
  shows "used (fold (take_page z a) qs g) m \<longleftrightarrow> used g m \<or> m \<in> set qs"
    and "zone_struct (pages_struct (fold (take_page z a) qs g) q) = zone_struct (pages_struct g q)"
    and "pfn (fold (take_page z a) qs g) q = pfn g q"
    and "attribute (pages_struct (fold (take_page z a) qs g) q)
      = (if q \<in> set qs then a else attribute (pages_struct g q))"
    and "page_using_count (zones_struct (fold (take_page z a) qs g) y)
      = page_using_count (zones_struct g y) + (if y = z then of_nat (length qs) else 0)"
    and "page_free_count (zones_struct (fold (take_page z a) qs g) y)
      = page_free_count (zones_struct g y) - (if y = z then of_nat (length qs) else 0)"
  using assms
  by (induction qs arbitrary: g) (auto simp: take_page_frame)

lemma give_pages:
  assumes "\<forall>q\<in>set qs. pfn g q = q \<and> zone_struct (pages_struct g q) = Some z"
  shows "used (fold give_page qs g) m \<longleftrightarrow> used g m \<and> m \<notin> set qs"
    and "pfn (fold give_page qs g) q = pfn g q"
    and "page_using_count (zones_struct (fold give_page qs g) y)
      = page_using_count (zones_struct g y) - (if y = z then of_nat (length qs) else 0)"
    and "page_free_count (zones_struct (fold give_page qs g) y)
      = page_free_count (zones_struct g y) + (if y = z then of_nat (length qs) else 0)"
  using assms
  by (induction qs arbitrary: g) (auto simp: give_page_frame)

section \<open>The allocator\<close>

abbreviation zstart :: "gmd \<Rightarrow> nat \<Rightarrow> nat" where
  "zstart g z \<equiv> unat (drop_bit 21 (zone_start_address (zones_struct g z)))"

abbreviation zend :: "gmd \<Rightarrow> nat \<Rightarrow> nat" where
  "zend g z \<equiv> unat (drop_bit 21 (zone_end_address (zones_struct g z)))"

text \<open>A zone is tried when its count of free pages is large enough.\<close>

definition tried :: "gmd \<Rightarrow> int \<Rightarrow> nat \<Rightarrow> bool" where
  "tried g number z \<longleftrightarrow> \<not> page_free_count (zones_struct g z) < word_of_int number"

lemma alloc_from_Some:
  assumes "alloc_from a number zs g = (Some page, g')" and "number < 64"
  shows "\<exists>z\<in>set zs. tried g number z \<and> zstart g z \<le> page \<and> page < zend g z + 63 \<and>
     run_free (bits_map g) (nat number) page \<and>
     (\<forall>q. zstart g z \<le> q \<and> q < page \<longrightarrow> \<not> run_free (bits_map g) (nat number) q) \<and>
     g' = fold (take_page z a) [page..<page + nat number] g"
  using assms(1)
proof (induction zs)
  case (Cons z zs)
  show ?case
  proof (cases "tried g number z")
    case False
    with Cons show ?thesis by (auto simp: tried_def)
  next
    case True
    have "nat number < 64" using assms(2) by simp
    with scan_zone_spec [of "nat number" "zstart g z" "zstart g z" "zend g z" "bits_map g"]
    show ?thesis
      using Cons True by (auto simp: tried_def mask_eq_exp_minus_1 Let_def split: option.splits)
  qed
qed simp

lemma alloc_from_None:
  assumes "alloc_from a number zs g = (None, g')" and "number < 64"
  shows "g' = g \<and> (\<forall>z\<in>set zs. tried g number z \<longrightarrow>
     (\<forall>q. zstart g z \<le> q \<and> q < zend g z \<longrightarrow> \<not> run_free (bits_map g) (nat number) q))"
  using assms(1)
proof (induction zs)
  case (Cons z zs)
  show ?case
  proof (cases "tried g number z")
    case False
    with Cons show ?thesis by (auto simp: tried_def)
  next
    case True
    have "nat number < 64" using assms(2) by simp
    with scan_zone_spec [of "nat number" "zstart g z" "zstart g z" "zend g z" "bits_map g"]
    show ?thesis
      using Cons True by (auto simp: tried_def mask_eq_exp_minus_1 Let_def split: option.splits)
  qed
qed simp

text \<open>The zones that a call searches, and the attribute it gives to the pages.\<close>

definition searched :: "int \<Rightarrow> gmd \<Rightarrow> nat list" where
  "searched zone_select g =
     (if zone_select = ZONE_DMA then map nat [0..ZONE_DMA_INDEX g]
      else if zone_select = ZONE_NORMAL then map nat [ZONE_DMA_INDEX g..ZONE_NORMAL_INDEX g]
      else if zone_select = ZONE_UNMAPED then map nat [ZONE_UNMAPED_INDEX g..int (zones_size g) - 1]
      else [])"

definition zone_attr :: "int \<Rightarrow> u64" where
  "zone_attr zone_select = (if zone_select = ZONE_UNMAPED then 0 else PG_PTable_Maped)"

lemma alloc_pages_eq:
  "0 < number \<Longrightarrow> number < 64 \<Longrightarrow>
   alloc_pages zone_select number flags g = alloc_from (zone_attr zone_select) number (searched zone_select g) g"
  by (simp add: alloc_pages_def searched_def zone_attr_def ZONE_DMA_def ZONE_NORMAL_def ZONE_UNMAPED_def)

lemma run_freeD: "run_free m n p \<Longrightarrow> q \<in> set [p..<p + n] \<Longrightarrow> \<not> ubit m q"
  unfolding run_free_def by (auto dest!: spec [of _ "q - p"])

text \<open>
  The pages from \<open>N\<close> on that the search can look at are marked used: \<open>N\<close> is the number of
  descriptors, and the bitmap is followed by set bits.
\<close>

definition guarded :: "gmd \<Rightarrow> nat \<Rightarrow> bool" where
  "guarded g N \<longleftrightarrow> (\<forall>n. N \<le> n \<and> n < N + 126 \<longrightarrow> used g n) \<and> (\<forall>z. zend g z \<le> N)"

lemma run_below:
  assumes "guarded g N" and "run_free (bits_map g) n p" and "p < zend g z + 63" and "0 < n" and "n < 64"
  shows "p + n \<le> N"
proof (rule ccontr)
  assume "\<not> p + n \<le> N"
  moreover from assms(1) have "zend g z \<le> N" by (simp add: guarded_def)
  ultimately have "N \<le> max p N \<and> max p N < N + 126" "max p N \<in> set [p..<p + n]"
    using assms(3-5) by auto
  moreover from this(1) assms(1) have "used g (max p N)" unfolding guarded_def by blast
  ultimately show False using run_freeD [OF assms(2)] by blast
qed

section \<open>The state after initialisation\<close>

abbreviation rs :: "E820 \<Rightarrow> nat" where "rs r \<equiv> unat (drop_bit 21 (region_start r))"
abbreviation re :: "E820 \<Rightarrow> nat" where "re r \<equiv> unat (drop_bit 21 (region_end r))"

lemma unat_drop21: "unat (drop_bit 21 (w :: u64)) < 2 ^ 43"
proof -
  have "drop_bit 21 w = take_bit 43 (drop_bit 21 w)"
    by (rule bit_word_eqI) (auto simp: bit_simps dest: bit_imp_le_length)
  then have "unat (drop_bit 21 w) = take_bit 43 (unat (drop_bit 21 w))"
    by (metis unsigned_take_bit_eq)
  then show ?thesis by (metis take_bit_nat_less_exp)
qed

lemma word_of_nat_unat: "word_of_nat (unat w) = (w :: u64)"
  by simp

lemma region_aligned:
  "region_start r = push_bit 21 (word_of_nat (rs r))" "region_end r = push_bit 21 (word_of_nat (re r))"
proof -
  have m: "(0x1fffff :: u64) = mask 21" by (simp add: mask_eq_exp_minus_1)
  have "(a AND NOT 0x1fffff) = push_bit 21 (drop_bit 21 (a AND NOT 0x1fffff))" for a :: u64
    unfolding m by (rule bit_word_eqI) (auto simp: bit_simps)
  from this [of "e_address r + 0x1fffff"] show "region_start r = push_bit 21 (word_of_nat (rs r))"
    unfolding region_start_def PAGE_2M_ALIGN_def word_of_nat_unat .
  have "push_bit 21 (drop_bit 21 a) = push_bit 21 (drop_bit 21 (push_bit 21 (drop_bit 21 a)))" for a :: u64
    by (rule bit_word_eqI) (auto simp: bit_simps)
  then show "region_end r = push_bit 21 (word_of_nat (re r))"
    unfolding region_end_def word_of_nat_unat .
qed

lemma frame_plus: "push_bit 21 (word_of_nat m) + 0x200000 * word_of_nat j = (push_bit 21 (word_of_nat (m + j)) :: u64)"
  by (simp add: push_bit_eq_mult algebra_simps)

lemma frame_minus: "j \<le> m \<Longrightarrow> push_bit 21 (word_of_nat m) - push_bit 21 (word_of_nat j) = (push_bit 21 (word_of_nat (m - j)) :: u64)"
  by (simp add: push_bit_eq_mult algebra_simps of_nat_diff)

lemma frame_less:
  "m < 2 ^ 43 \<Longrightarrow> j < 2 ^ 43 \<Longrightarrow> push_bit 21 (word_of_nat m :: u64) \<le> push_bit 21 (word_of_nat j) \<longleftrightarrow> m \<le> j"
proof -
  assume "m < 2 ^ 43" "j < 2 ^ 43"
  moreover have "unat (push_bit 21 (word_of_nat k :: u64)) = k * 2 ^ 21" if "k < 2 ^ 43" for k
  proof -
    have "take_bit 64 (push_bit 21 k) = push_bit 21 k"
      using that by (simp add: take_bit_nat_eq_self push_bit_eq_mult)
    with that show ?thesis
      by (simp add: unsigned_push_bit_eq unsigned_of_nat take_bit_nat_eq_self)
        (simp add: push_bit_eq_mult)
  qed
  ultimately show ?thesis by (simp add: word_le_nat_alt)
qed

lemma init_page_eq:
  "first + j < 2 ^ 43 \<Longrightarrow> init_page z (push_bit 21 (word_of_nat first)) first j g = bit_flip (first + j)
     (upd_page (first + j) (\<lambda>_. \<lparr>zone_struct = Some z, PHY_address = push_bit 21 (word_of_nat (first + j)),
        attribute = 0, reference_count = 0, age = 0\<rparr>) g)"
  by (simp add: init_page_def Let_def pfn_def upd_page_apply frame_plus unat_frame del: of_nat_add)

lemma init_pages:
  assumes "first + n < 2 ^ 43" and "g' = fold (init_page z (push_bit 21 (word_of_nat first)) first) [0..<n] g"
  shows "(\<forall>q. used g' q \<longleftrightarrow> used g q \<noteq> (first \<le> q \<and> q < first + n)) \<and>
    (\<forall>q. pages_struct g' q =
      (if first \<le> q \<and> q < first + n
       then \<lparr>zone_struct = Some z, PHY_address = push_bit 21 (word_of_nat q), attribute = 0,
         reference_count = 0, age = 0\<rparr>
       else pages_struct g q)) \<and>
    e820 g' = e820 g \<and> e820_length g' = e820_length g \<and> bits_size g' = bits_size g"
  using assms
proof (induction n arbitrary: g')
  case (Suc n)
  let ?s = "push_bit 21 (word_of_nat first) :: u64"
  let ?g = "fold (init_page z ?s first) [0..<n] g"
  have n: "first + n < 2 ^ 43" using Suc.prems by simp
  have g: "g' = bit_flip (first + n)
      (upd_page (first + n) (\<lambda>_. \<lparr>zone_struct = Some z, PHY_address = push_bit 21 (word_of_nat (first + n)),
        attribute = 0, reference_count = 0, age = 0\<rparr>) ?g)"
    using init_page_eq [OF n] by (simp add: Suc.prems(2))
  note IH = Suc.IH [OF n refl]
  have "\<forall>q. used g' q \<longleftrightarrow> used g q \<noteq> (first \<le> q \<and> q < first + Suc n)"
    unfolding g used_bit_flip upd_frame using IH by auto
  moreover have "\<forall>q. pages_struct g' q =
      (if first \<le> q \<and> q < first + Suc n
       then \<lparr>zone_struct = Some z, PHY_address = push_bit 21 (word_of_nat q), attribute = 0,
         reference_count = 0, age = 0\<rparr>
       else pages_struct g q)"
    unfolding g bit_op_frame upd_page_apply using IH by auto
  moreover have "e820 g' = e820 g \<and> e820_length g' = e820_length g \<and> bits_size g' = bits_size g"
    unfolding g using IH by (simp add: bit_flip_def upd_bits_def upd_page_def)
  ultimately show ?case by blast
qed auto

text \<open>The region \<open>r\<close> of the memory map covers the page \<open>n\<close>.\<close>

definition covers :: "E820 \<Rightarrow> nat \<Rightarrow> bool" where
  "covers r n \<longleftrightarrow> e_type r = 1 \<and> rs r \<le> n \<and> n < re r"

lemma add_zone_spec:
  "(\<forall>q. used (add_zone i g) q \<longleftrightarrow> used g q \<noteq> covers (e820 g i) q) \<and>
   (\<forall>q. pfn (add_zone i g) q = (if covers (e820 g i) q then q else pfn g q)) \<and>
   e820 (add_zone i g) = e820 g \<and> e820_length (add_zone i g) = e820_length g \<and>
   bits_size (add_zone i g) = bits_size g"
proof -
  let ?r = "e820 g i"
  have le: "region_end ?r \<le> region_start ?r \<longleftrightarrow> re ?r \<le> rs ?r"
    using frame_less [of "re ?r" "rs ?r"] unat_drop21 region_aligned [of ?r] by metis
  show ?thesis
  proof (cases "e_type ?r \<noteq> 1 \<or> region_end ?r \<le> region_start ?r")
    case True
    then have "\<not> covers ?r q" for q using le by (auto simp: covers_def)
    with True show ?thesis by (simp add: add_zone_def Let_def)
  next
    case False
    let ?n = "re ?r - rs ?r"
    from False le have lt: "rs ?r < re ?r" by simp
    have d: "unat (drop_bit 21 (region_end ?r - region_start ?r)) = ?n"
      using frame_minus [of "rs ?r" "re ?r"] lt region_aligned [of ?r] unat_frame [of ?n]
        unat_drop21 [of "region_end ?r"] by simp
    obtain g1 z where g1: "add_zone i g = fold (init_page z (region_start ?r) (rs ?r)) [0..<?n] g1"
      "bits_map g1 = bits_map g" "pages_struct g1 = pages_struct g" "e820 g1 = e820 g"
      "e820_length g1 = e820_length g" "bits_size g1 = bits_size g"
      using False d by (auto simp: add_zone_def Let_def upd_zone_def)
    have "rs ?r + ?n < 2 ^ 43" using lt unat_drop21 [of "region_end ?r"] by simp
    note P = init_pages [OF this, of "add_zone i g" z g1, folded region_aligned(1), OF g1(1)]
    have "\<forall>q. covers ?r q \<longleftrightarrow> rs ?r \<le> q \<and> q < rs ?r + ?n" using False lt by (auto simp: covers_def)
    moreover have "unat (drop_bit 21 (push_bit 21 (word_of_nat q :: u64))) = q" if "covers ?r q" for q
      using that unat_drop21 [of "region_end ?r"] by (intro unat_frame) (simp add: covers_def)
    ultimately show ?thesis using P g1 by (auto simp: pfn_def)
  qed
qed

lemma add_zones:
  assumes "\<forall>i\<in>set js. \<forall>j\<in>set js. \<forall>n. covers (e820 g i) n \<and> covers (e820 g j) n \<longrightarrow> i = j" and "distinct js"
  shows "(\<forall>q. used (fold add_zone js g) q \<longleftrightarrow> used g q \<noteq> (\<exists>i\<in>set js. covers (e820 g i) q)) \<and>
   (\<forall>q. pfn (fold add_zone js g) q = (if \<exists>i\<in>set js. covers (e820 g i) q then q else pfn g q)) \<and>
   bits_size (fold add_zone js g) = bits_size g"
  using assms
proof (induction js arbitrary: g)
  case (Cons i js)
  note Z = add_zone_spec [of i g]
  from Cons.prems have "\<forall>k\<in>set js. \<forall>j\<in>set js. \<forall>n.
      covers (e820 (add_zone i g) k) n \<and> covers (e820 (add_zone i g) j) n \<longrightarrow> k = j" "distinct js"
    using Z by auto
  note IH = Cons.IH [OF this]
  have one: "covers (e820 g i) q \<Longrightarrow> \<not> (\<exists>k\<in>set js. covers (e820 g k) q)" for q
    using Cons.prems by auto
  show ?case using IH Z one by auto
qed simp

lemma bitmap_words:
  assumes "n = drop_bit 21 (w :: u64)"
  shows "unat ((((n + 63) div 8) AND NOT 7) div 8) = (unat n + 63) div 64"
proof -
  have "unat n < 2 ^ 43" using unat_drop21 [of w] assms by simp
  then have s: "unat (n + 63) = unat n + 63" by (subst unat_add_lem [THEN iffD1]) simp_all
  have m: "(7 :: u64) = mask 3" by (simp add: mask_eq_exp_minus_1)
  have d: "x div 8 = drop_bit 3 x" for x :: u64 by (simp add: drop_bit_eq_div)
  have "drop_bit 3 (drop_bit 3 x AND NOT (mask 3)) = drop_bit 6 x" for x :: u64
    by (rule bit_word_eqI) (auto simp: bit_simps dest: bit_imp_le_length)
  then have "((((n + 63) div 8) AND NOT 7) div 8) = drop_bit 6 (n + 63)" by (simp only: d m)
  then show ?thesis by (simp add: unat_div_distrib s drop_bit_eq_div)
qed

lemma place_arrays_spec:
  "q < unat (bits_size (place_arrays g)) \<Longrightarrow> used (place_arrays g) q"
  "e820 (place_arrays g) = e820 g" "e820_length (place_arrays g) = e820_length g"
proof -
  let ?n = "drop_bit 21 (e_address (e820 g (e820_length g)) + e_length (e820 g (e820_length g)))"
  assume "q < unat (bits_size (place_arrays g))"
  then have "q < unat ?n" by (simp add: place_arrays_def Let_def)
  then have "q div 64 < unat ((((?n + 63) div 8) AND NOT 7) div 8)"
    unfolding bitmap_words [OF refl] by (simp add: div_less_iff_less_mult)
  then show "used (place_arrays g) q" by (simp add: place_arrays_def Let_def ubit_def)
next
  show "e820 (place_arrays g) = e820 g" "e820_length (place_arrays g) = e820_length g"
    by (simp_all add: place_arrays_def Let_def)
qed

lemma mark_kernel_page_spec:
  "used (mark_kernel_page j g) q \<longleftrightarrow> used g q \<or> q = pfn g j" "pfn (mark_kernel_page j g) q = pfn g q"
  "bits_size (mark_kernel_page j g) = bits_size g"
  by (auto simp: mark_kernel_page_def page_init_def Let_def pfn_def upd_page_zone_def upd_page_apply
      split: option.split) (simp_all add: bit_set_def upd_bits_def upd_page_def upd_zone_def)

lemma mark_kernel_pages:
  "used (fold mark_kernel_page js g) q \<longleftrightarrow> used g q \<or> q \<in> pfn g ` set js"
  "pfn (fold mark_kernel_page js g) q = pfn g q"
  "bits_size (fold mark_kernel_page js g) = bits_size g"
proof (induction js arbitrary: g)
  case (Cons j js)
  { case 1 show ?case using Cons.IH(1) [of "mark_kernel_page j g"] by (auto simp: mark_kernel_page_spec) }
  { case 2 show ?case using Cons.IH(2) [of "mark_kernel_page j g"] by (simp add: mark_kernel_page_spec) }
  { case 3 show ?case using Cons.IH(3) [of "mark_kernel_page j g"] by (simp add: mark_kernel_page_spec) }
qed simp_all

lemma long_align_mult: "SIZEOF_LONG_ALIGN (push_bit 3 x) = push_bit 3 x"
proof -
  have m: "(7 :: u64) = mask 3" by (simp add: mask_eq_exp_minus_1)
  have "push_bit 3 x + mask 3 = push_bit 3 x OR mask 3"
    by (rule disjunctive_add_eq_or) (auto intro!: bit_word_eqI simp: bit_simps)
  then show ?thesis unfolding SIZEOF_LONG_ALIGN_def m
    by (simp only:) (auto intro!: bit_word_eqI simp: bit_simps)
qed

lemma place_arrays_pages:
  assumes "q < unat (bits_size (place_arrays g))"
  shows "pfn (place_arrays g) q = 0"
proof -
  let ?w = "e_address (e820 g (e820_length g)) + e_length (e820 g (e820_length g))"
  let ?n = "drop_bit 21 ?w"
  have n: "unat ?n < 2 ^ 43" by (rule unat_drop21)
  have "?n * 40 = push_bit 3 (?n * 5)" by (simp add: push_bit_eq_mult)
  then have "SIZEOF_LONG_ALIGN (?n * 40) = ?n * 40" using long_align_mult by metis
  moreover have "unat (?n * 40 div 40) = unat ?n"
    using n by (subst word_div_mult) simp_all
  ultimately have "q < unat (SIZEOF_LONG_ALIGN (?n * 40) div 40)"
    using assms by (simp add: place_arrays_def Let_def)
  then show ?thesis by (simp add: place_arrays_def Let_def pfn_def zero_page_def)
qed

lemma init_page0_spec:
  "bits_map (init_page0 g) = bits_map g" "pfn (init_page0 g) q = (if q = 0 then 0 else pfn g q)"
  "bits_size (init_page0 g) = bits_size g"
  by (simp_all add: init_page0_def set_page_attribute_def Let_def pfn_def upd_page_apply)
    (simp add: upd_page_def)

lemma kernel_last_mark: "kernel_last (fold mark_kernel_page js g) = kernel_last g"
  by (induction js arbitrary: g)
    (auto simp: kernel_last_def mark_kernel_page_def page_init_def Let_def upd_page_zone_def
      bit_set_def upd_bits_def upd_page_def upd_zone_def split: option.split)

lemma init_memory_spec:
  fixes src g
  defines "m \<equiv> read_e820 src [0..<32] g" and "g' \<equiv> init_memory src g"
  assumes dis: "\<forall>i\<le>e820_length m. \<forall>j\<le>e820_length m. \<forall>n.
      covers (e820 m i) n \<and> covers (e820 m j) n \<longrightarrow> i = j"
    and zero: "\<forall>i\<le>e820_length m. \<not> covers (e820 m i) 0"
    and kern: "kernel_last g' < int (unat (bits_size g'))"
  shows "\<forall>n < unat (bits_size g'). used g' n \<longleftrightarrow>
      \<not> (\<exists>i\<le>e820_length m. covers (e820 m i) n) \<or> 1 \<le> n \<and> int n \<le> kernel_last g'"
    and "pages_ok g' (unat (bits_size g'))"
proof -
  let ?c = "\<lambda>n. \<exists>i\<le>e820_length m. covers (e820 m i) n"
  define p where "p = place_arrays m"
  define z where "z = fold add_zone [0..<Suc (e820_length p)] p"
  obtain k where g': "g' = fold mark_kernel_page (map nat [1..kernel_last k]) k"
    and k: "bits_map k = bits_map z" "\<And>q. pfn k q = (if q = 0 then 0 else pfn z q)" "bits_size k = bits_size z"
  proof
    let ?a = "init_page0 z"
    let ?b = "?a\<lparr>zones_length := SIZEOF_LONG_ALIGN (word_of_nat (zones_size ?a) * 80)\<rparr>"
    let ?d = "?b\<lparr>ZONE_DMA_INDEX := 0, ZONE_NORMAL_INDEX := 0, ZONE_UNMAPED_INDEX := find_unmapped ?b\<rparr>"
    let ?k = "?d\<lparr>end_of_struct := (zones_struct_addr ?d + zones_length ?d + 8 * 32) AND NOT 7\<rparr>"
    show "g' = fold mark_kernel_page (map nat [1..kernel_last ?k]) ?k"
      unfolding g'_def init_memory_def Let_def z_def p_def m_def ..
    show "bits_map ?k = bits_map z" by (simp add: init_page0_spec)
    show "pfn ?k q = (if q = 0 then 0 else pfn z q)" for q
      using init_page0_spec(2) [of z q] by (simp add: pfn_def)
    show "bits_size ?k = bits_size z" by (simp add: init_page0_spec)
  qed
  have e: "e820 p = e820 m" "e820_length p = e820_length m" by (simp_all add: p_def place_arrays_spec)
  have "\<forall>i\<in>set [0..<Suc (e820_length p)]. \<forall>j\<in>set [0..<Suc (e820_length p)]. \<forall>n.
      covers (e820 p i) n \<and> covers (e820 p j) n \<longrightarrow> i = j"
    using dis by (simp add: e less_Suc_eq_le)
  from add_zones [OF this] have z: "\<And>q. used z q \<longleftrightarrow> used p q \<noteq> ?c q"
    "\<And>q. pfn z q = (if ?c q then q else pfn p q)" "bits_size z = bits_size p"
    by (simp_all add: z_def e Bex_def less_Suc_eq_le del: upt_Suc)
  have K: "kernel_last g' = kernel_last k" by (simp add: g' kernel_last_mark)
  have N: "bits_size g' = bits_size p" by (simp add: g' mark_kernel_pages k z)
  have up: "used p q" "pfn p q = 0" if "q < unat (bits_size g')" for q
    using that place_arrays_spec(1) place_arrays_pages by (simp_all add: N p_def)
  have f: "pfn k q = (if ?c q then q else 0)" if "q < unat (bits_size g')" for q
    using that zero by (auto simp: k z up)
  have u: "used g' n \<longleftrightarrow> \<not> ?c n \<or> n \<in> pfn k ` set (map nat [1..kernel_last g'])"
    if "n < unat (bits_size g')" for n
    using that by (simp add: g' mark_kernel_pages k(1) z(1) up kernel_last_mark del: set_map)
  have img: "n \<in> pfn k ` set (map nat [1..kernel_last g']) \<longleftrightarrow> 1 \<le> n \<and> int n \<le> kernel_last g'"
    if c: "?c n" and n: "n < unat (bits_size g')" for n
  proof
    assume "n \<in> pfn k ` set (map nat [1..kernel_last g'])"
    then obtain j where j: "1 \<le> j" "j \<le> kernel_last g'" "n = pfn k (nat j)" by auto
    have "j < int (unat (bits_size g'))" using j(2) kern by (rule le_less_trans)
    then have "nat j < unat (bits_size g')" using j(1) by (subst nat_less_iff) simp_all
    moreover from c zero have "n \<noteq> 0" by metis
    ultimately have "n = nat j" using f j(3) by (auto split: if_splits)
    with j show "1 \<le> n \<and> int n \<le> kernel_last g'" by simp
  next
    assume "1 \<le> n \<and> int n \<le> kernel_last g'"
    then have "n = pfn k n" "n \<in> set (map nat [1..kernel_last g'])"
      using c n by (auto simp: f image_iff intro!: bexI [of _ "int n"])
    then show "n \<in> pfn k ` set (map nat [1..kernel_last g'])" by blast
  qed
  show "\<forall>n < unat (bits_size g'). used g' n \<longleftrightarrow> \<not> ?c n \<or> 1 \<le> n \<and> int n \<le> kernel_last g'"
  proof (intro allI impI)
    fix n assume n: "n < unat (bits_size g')"
    show "used g' n \<longleftrightarrow> \<not> ?c n \<or> 1 \<le> n \<and> int n \<le> kernel_last g'"
    proof (cases "?c n")
      case True
      from u [OF n] img [OF True n] True show ?thesis by blast
    next
      case False
      with u [OF n] show ?thesis by blast
    qed
  qed
  show "pages_ok g' (unat (bits_size g'))"
    using u f by (auto simp: pages_ok_def g' mark_kernel_pages)
qed

section \<open>Properties\<close>

definition demo_gmd :: gmd where
  "demo_gmd = \<lparr>
     e820 = (\<lambda>_. \<lparr>e_address = 0, e_length = 0, e_type = 0\<rparr>), e820_length = 0,
     bits_map_addr = 0, bits_map = (\<lambda>_. - 1)(0 := NOT 0xce),
     bits_size = 8, bits_length = 8, pages_struct_addr = 0,
     pages_struct = (\<lambda>p. \<lparr>zone_struct = Some 0, PHY_address = push_bit 21 (word_of_nat p), attribute = 0,
       reference_count = 0, age = 0\<rparr>),
     pages_size = 8, pages_length = 320, zones_struct_addr = 0,
     zones_struct = (\<lambda>_. \<lparr>pages_group = 0, z_pages_length = 8, zone_start_address = 0,
       zone_end_address = 0x1000000, zone_length = 0x1000000, z_attribute = 0,
       page_using_count = 3, page_free_count = 5, total_pages_link = 0\<rparr>),
     zones_size = 1, zones_length = 80, start_brk = 0, end_of_struct = 0,
     ZONE_DMA_INDEX = 0, ZONE_NORMAL_INDEX = 0, ZONE_UNMAPED_INDEX = 0\<rparr>"

lemma demo_used: "8 \<le> n \<Longrightarrow> used demo_gmd n"
proof -
  assume n: "8 \<le> n"
  have "(- 207 :: u64) = NOT (take_bit 8 0xce)" by simp
  then have "bit (- 207 :: u64) n" if "8 \<le> n" "n < 64" for n
    using that by (simp only: bit_not_iff bit_take_bit_iff) simp
  then show "used demo_gmd n"
    using n by (cases "n < 64") (auto simp: ubit_def demo_gmd_def div_eq_0_iff)
qed

lemma demo_guarded: "pages_ok demo_gmd 8" "guarded demo_gmd 8"
  by (simp add: pages_ok_def pfn_def demo_gmd_def unat_frame)
    (simp add: guarded_def demo_used, simp add: demo_gmd_def)

text \<open>C7.  Allocation is sound and first-fit: if \<open>alloc_pages\<close> returns a page, then it and
  the following \<open>number - 1\<close> pages were free and are descriptors of the map; afterwards exactly
  these pages have become used; the zone that was searched has \<open>number\<close> pages more in use and
  \<open>number\<close> fewer free; and no earlier run of the zone would have done.\<close>

theorem alloc_pages_sound:
  assumes "alloc_pages zone_select number flags g = (Some page, g')"
    and "pages_ok g N" and "guarded g N"
  shows "\<exists>z\<in>set (searched zone_select g).
     page + nat number \<le> N \<and> zstart g z \<le> page \<and> (\<forall>q\<in>set [page..<page + nat number]. \<not> used g q) \<and>
     (\<forall>q. used g' q \<longleftrightarrow> used g q \<or> q \<in> set [page..<page + nat number]) \<and>
     page_using_count (zones_struct g' z) = page_using_count (zones_struct g z) + word_of_int number \<and>
     page_free_count (zones_struct g' z) = page_free_count (zones_struct g z) - word_of_int number \<and>
     (\<forall>q. zstart g z \<le> q \<and> q < page \<longrightarrow> (\<exists>r\<in>set [q..<q + nat number]. used g r))"
proof -
  have n: "0 < number" "number < 64" using assms(1) by (auto simp: alloc_pages_def split: if_splits)
  from alloc_from_Some [OF assms(1) [unfolded alloc_pages_eq [OF n]] n(2)] obtain z
    where z: "z \<in> set (searched zone_select g)" "zstart g z \<le> page" "page < zend g z + 63"
      "run_free (bits_map g) (nat number) page"
      "\<forall>q. zstart g z \<le> q \<and> q < page \<longrightarrow> \<not> run_free (bits_map g) (nat number) q"
      and g': "g' = fold (take_page z (zone_attr zone_select)) [page..<page + nat number] g" by blast
  have le: "page + nat number \<le> N" using assms(3) z(4,3) by (rule run_below) (use n in simp_all)
  with assms(2) have "\<forall>q\<in>set [page..<page + nat number]. pfn g q = q"
    using run_freeD [OF z(4)] by (auto simp: pages_ok_def)
  note T = take_pages [OF this, of z "zone_attr zone_select", folded g']
  have "\<forall>q. zstart g z \<le> q \<and> q < page \<longrightarrow> (\<exists>r\<in>set [q..<q + nat number]. used g r)"
    using z(5) unfolding run_free_def by fastforce
  moreover have "of_nat (length [page..<page + nat number]) = (word_of_int number :: u64)"
    using n by simp
  ultimately show ?thesis
    using z le T run_freeD [OF z(4)] by (intro bexI [of _ z]) auto
qed

text \<open>C8.  Allocation is complete: if \<open>alloc_pages\<close> returns \<open>NULL\<close> for a valid request, no
  searched zone that reports enough free pages has a run of \<open>number\<close> free pages that starts in
  it, and nothing has changed.\<close>

theorem alloc_pages_complete:
  assumes "alloc_pages zone_select number flags g = (None, g')" and "0 < number" and "number < 64"
  shows "g' = g \<and> (\<forall>z\<in>set (searched zone_select g).
     page_free_count (zones_struct g z) < word_of_int number \<or>
     (\<forall>q. zstart g z \<le> q \<and> q < zend g z \<longrightarrow> (\<exists>r\<in>set [q..<q + nat number]. used g r)))"
  using alloc_from_None [OF assms(1) [unfolded alloc_pages_eq [OF assms(2,3)]] assms(3)]
  unfolding run_free_def tried_def by fastforce

text \<open>C9.  \<open>free_pages\<close> undoes \<open>alloc_pages\<close>: freeing the pages just taken restores the
  bitmap and the counts of every zone, if all pages belong to the one zone that was searched.\<close>

theorem free_after_alloc:
  assumes "alloc_pages zone_select number flags g = (Some page, g')"
    and "pages_ok g N" and "guarded g N" and "searched zone_select g = [z]"
    and "\<forall>q < N. zone_struct (pages_struct g q) = Some z"
  shows "bits_map (free_pages (Some page) number g') = bits_map g \<and>
     (\<forall>y. page_using_count (zones_struct (free_pages (Some page) number g') y) = page_using_count (zones_struct g y) \<and>
     page_free_count (zones_struct (free_pages (Some page) number g') y) = page_free_count (zones_struct g y))"
proof -
  have n: "0 < number" "number < 64" using assms(1) by (auto simp: alloc_pages_def split: if_splits)
  let ?r = "[page..<page + nat number]"
  from alloc_from_Some [OF assms(1) [unfolded alloc_pages_eq [OF n]] n(2)] assms(4)
  have z: "page < zend g z + 63" "run_free (bits_map g) (nat number) page"
    and g': "g' = fold (take_page z (zone_attr zone_select)) ?r g" by auto
  have le: "page + nat number \<le> N" using assms(3) z(2,1) by (rule run_below) (use n in simp_all)
  with assms(2) have ok: "\<forall>q\<in>set ?r. pfn g q = q"
    using run_freeD [OF z(2)] by (auto simp: pages_ok_def)
  note T = take_pages [OF ok, of z "zone_attr zone_select", folded g']
  have "\<forall>q\<in>set ?r. pfn g' q = q \<and> zone_struct (pages_struct g' q) = Some z"
    using ok le assms(5) by (auto simp: T)
  note G = give_pages [OF this]
  have f: "free_pages (Some page) number g' = fold give_page ?r g'" using n by (simp add: free_pages_def)
  have "bits_map (fold give_page ?r g') = bits_map g"
    using run_freeD [OF z(2)] by (intro ubit_ext) (auto simp: G T)
  then show ?thesis unfolding f by (simp add: G T)
qed

text \<open>C10.  \<open>init_memory\<close> builds the allocator's invariant from the BIOS memory map: if the usable
  regions of the map do not share a 2 MB page, none reaches down to page 0, and the kernel image ends
  below the last region, then a page is free exactly if a usable region covers it completely and it
  lies above the kernel image, and the descriptor of every free page carries that page's address.\<close>

theorem init_memory_bitmap:
  assumes "\<forall>i\<le>e820_length (read_e820 src [0..<32] g). \<forall>j\<le>e820_length (read_e820 src [0..<32] g). \<forall>n.
      covers (e820 (read_e820 src [0..<32] g) i) n \<and> covers (e820 (read_e820 src [0..<32] g) j) n \<longrightarrow> i = j"
    and "\<forall>i\<le>e820_length (read_e820 src [0..<32] g). \<not> covers (e820 (read_e820 src [0..<32] g) i) 0"
    and "kernel_last (init_memory src g) < int (unat (bits_size (init_memory src g)))"
  shows "(\<forall>n < unat (bits_size (init_memory src g)). \<not> used (init_memory src g) n \<longleftrightarrow>
      (\<exists>i\<le>e820_length (read_e820 src [0..<32] g). covers (e820 (read_e820 src [0..<32] g) i) n) \<and>
      (n = 0 \<or> kernel_last (init_memory src g) < int n)) \<and>
    pages_ok (init_memory src g) (unat (bits_size (init_memory src g)))"
  using init_memory_spec [OF assms] by auto

definition demo_e820 :: "nat \<Rightarrow> E820" where
  "demo_e820 = (\<lambda>_. \<lparr>e_address = 0, e_length = 0, e_type = 0\<rparr>)
     (0 := \<lparr>e_address = 0, e_length = 0x9f000, e_type = 1\<rparr>,
      1 := \<lparr>e_address = 0xe8000, e_length = 0x18000, e_type = 2\<rparr>,
      2 := \<lparr>e_address = 0x100000, e_length = 0x1ef0000, e_type = 1\<rparr>)"

definition demo_boot :: gmd where
  "demo_boot = demo_gmd\<lparr>start_brk := 0xffff800000180000\<rparr>"

lemma demo_regions:
  "rs (demo_e820 0) = 0" "re (demo_e820 0) = 0" "rs (demo_e820 2) = 1" "re (demo_e820 2) = 15"
  "e_type (demo_e820 1) = 2" "e_type (demo_e820 2) = 1"
  "e820_length (read_e820 demo_e820 [0..<32] demo_boot) = 2"
  "e820 (read_e820 demo_e820 [0..<32] demo_boot) 0 = demo_e820 0"
  "e820 (read_e820 demo_e820 [0..<32] demo_boot) 1 = demo_e820 1"
  "e820 (read_e820 demo_e820 [0..<32] demo_boot) 2 = demo_e820 2"
  "kernel_last (init_memory demo_e820 demo_boot) = 0" "bits_size (init_memory demo_e820 demo_boot) = 15"
  by code_simp+

lemma demo_covers:
  "i \<le> 2 \<Longrightarrow> covers (e820 (read_e820 demo_e820 [0..<32] demo_boot) i) n \<longleftrightarrow> i = 2 \<and> 1 \<le> n \<and> n < 15"
proof -
  assume "i \<le> 2"
  then consider "i = 0" | "i = 1" | "i = 2" by linarith
  then show ?thesis by cases (simp_all only: demo_regions covers_def, simp_all)
qed

theorem init_memory_bitmap_witness:
  "used (init_memory demo_e820 demo_boot) 0 \<and> \<not> used (init_memory demo_e820 demo_boot) 1 \<and>
   \<not> used (init_memory demo_e820 demo_boot) 14 \<and> pages_ok (init_memory demo_e820 demo_boot) 15"
proof -
  let ?m = "read_e820 demo_e820 [0..<32] demo_boot"
  have "\<forall>i\<le>e820_length ?m. \<forall>j\<le>e820_length ?m. \<forall>n. covers (e820 ?m i) n \<and> covers (e820 ?m j) n \<longrightarrow> i = j"
    unfolding demo_regions using demo_covers by blast
  moreover have "\<forall>i\<le>e820_length ?m. \<not> covers (e820 ?m i) 0"
    unfolding demo_regions using demo_covers by auto
  moreover have "kernel_last (init_memory demo_e820 demo_boot) < int (unat (bits_size (init_memory demo_e820 demo_boot)))"
    by (simp add: demo_regions)
  ultimately have "(\<forall>n < unat (bits_size (init_memory demo_e820 demo_boot)). \<not> used (init_memory demo_e820 demo_boot) n \<longleftrightarrow>
      (\<exists>i\<le>e820_length ?m. covers (e820 ?m i) n) \<and> (n = 0 \<or> kernel_last (init_memory demo_e820 demo_boot) < int n)) \<and>
    pages_ok (init_memory demo_e820 demo_boot) (unat (bits_size (init_memory demo_e820 demo_boot)))"
    by (rule init_memory_bitmap)
  moreover have "(\<exists>i\<le>2. covers (e820 ?m i) n) \<longleftrightarrow> 1 \<le> n \<and> n < 15" for n using demo_covers by blast
  ultimately have u: "\<forall>n<15. \<not> used (init_memory demo_e820 demo_boot) n \<longleftrightarrow> 1 \<le> n"
    and "pages_ok (init_memory demo_e820 demo_boot) 15" unfolding demo_regions by auto
  moreover have "used (init_memory demo_e820 demo_boot) 0" using spec [OF u, of 0] by (metis less_numeral_extra(1)
      not_one_le_zero zero_less_numeral)
  moreover have "\<not> used (init_memory demo_e820 demo_boot) 1" "\<not> used (init_memory demo_e820 demo_boot) 14"
    using spec [OF u, of 1] spec [OF u, of 14] by simp_all
  ultimately show ?thesis by blast
qed

lemma demo_alloc: "fst (alloc_pages ZONE_DMA 2 0 demo_gmd) = Some 1"
  by code_simp

theorem alloc_pages_sound_witness:
  "alloc_pages ZONE_DMA 2 0 demo_gmd = (Some 1, snd (alloc_pages ZONE_DMA 2 0 demo_gmd)) \<and>
   \<not> used demo_gmd 1 \<and> \<not> used demo_gmd 3 \<and> used (snd (alloc_pages ZONE_DMA 2 0 demo_gmd)) 1 \<and>
   used (snd (alloc_pages ZONE_DMA 2 0 demo_gmd)) 2 \<and> \<not> used (snd (alloc_pages ZONE_DMA 2 0 demo_gmd)) 3"
proof -
  have a: "alloc_pages ZONE_DMA 2 0 demo_gmd = (Some 1, snd (alloc_pages ZONE_DMA 2 0 demo_gmd))"
    by (simp add: prod_eq_iff demo_alloc)
  have n: "\<not> used demo_gmd 3" by code_simp
  from alloc_pages_sound [OF a demo_guarded] obtain z where
    free: "\<forall>q\<in>set [1..<1 + nat 2]. \<not> used demo_gmd q" and
    upd: "\<forall>q. used (snd (alloc_pages ZONE_DMA 2 0 demo_gmd)) q \<longleftrightarrow>
      used demo_gmd q \<or> q \<in> set [1..<1 + nat 2]" by blast
  have "1 \<in> set [1..<1 + nat 2]" "2 \<in> set [1..<1 + nat 2]" "3 \<notin> set [1..<1 + nat 2]" by simp_all
  with free upd n a show ?thesis by blast
qed

lemma demo_none: "fst (alloc_pages ZONE_DMA 4 0 demo_gmd) = None"
proof -
  have u: "used demo_gmd 0" "used demo_gmd 4" "used demo_gmd 5" by (simp_all add: ubit_def demo_gmd_def)
  have "\<not> run_free (bits_map demo_gmd) 4 q" for q
  proof
    assume "run_free (bits_map demo_gmd) 4 q"
    then have r: "\<not> used demo_gmd (q + l)" if "l < 4" for l using that by (simp add: run_free_def)
    consider "q = 0" | "0 < q" "q \<le> 4" | "q = 5" | "5 < q" by linarith
    then show False
    proof cases
      case 2
      then show False using r [of "4 - q"] u(2) by simp
    next
      case 4
      then show False using r [of 3] demo_used [of "q + 3"] by simp
    qed (use r [of 0] u in simp_all)
  qed
  with scan_zone_spec [of 4 0 0 8 "bits_map demo_gmd"]
  have "scan_zone (bits_map demo_gmd) (mask 4) 0 8 0 = None" by (auto split: option.splits)
  then show ?thesis by (simp add: alloc_pages_def demo_gmd_def mask_eq_decr_exp)
qed

theorem alloc_pages_complete_witness:
  "fst (alloc_pages ZONE_DMA 4 0 demo_gmd) = None \<and> snd (alloc_pages ZONE_DMA 4 0 demo_gmd) = demo_gmd \<and>
   (\<exists>r\<in>set [1..<5]. used demo_gmd r)"
proof -
  have n: "fst (alloc_pages ZONE_DMA 4 0 demo_gmd) = None" by (rule demo_none)
  then have "snd (alloc_pages ZONE_DMA 4 0 demo_gmd) = demo_gmd \<and> (\<forall>z\<in>set (searched ZONE_DMA demo_gmd).
     page_free_count (zones_struct demo_gmd z) < word_of_int 4 \<or>
     (\<forall>q. zstart demo_gmd z \<le> q \<and> q < zend demo_gmd z \<longrightarrow> (\<exists>r\<in>set [q..<q + nat 4]. used demo_gmd r)))"
    by (intro alloc_pages_complete [where flags = 0]) (simp_all add: prod_eq_iff)
  moreover have "0 \<in> set (searched ZONE_DMA demo_gmd)" "\<not> page_free_count (zones_struct demo_gmd 0) < word_of_int 4"
    "zstart demo_gmd 0 \<le> 1" "1 < zend demo_gmd 0"
    by (simp_all add: searched_def demo_gmd_def)
  ultimately show ?thesis using n by fastforce
qed

theorem free_after_alloc_witness:
  "bits_map (free_pages (Some 1) 2 (snd (alloc_pages ZONE_DMA 2 0 demo_gmd))) = bits_map demo_gmd \<and>
     (\<forall>y. page_using_count (zones_struct (free_pages (Some 1) 2 (snd (alloc_pages ZONE_DMA 2 0 demo_gmd))) y) =
       page_using_count (zones_struct demo_gmd y) \<and>
     page_free_count (zones_struct (free_pages (Some 1) 2 (snd (alloc_pages ZONE_DMA 2 0 demo_gmd))) y) =
       page_free_count (zones_struct demo_gmd y))"
  by (rule free_after_alloc [OF _ demo_guarded, of ZONE_DMA 2 0 _ _ 0])
    (simp_all add: prod_eq_iff demo_alloc, simp_all add: searched_def demo_gmd_def)

end
