(* ===== verification/Slab.thy ===== *)
theory Slab
  imports KList Page_Alloc
begin

unbundle bit_operations_syntax

text \<open>
  The object allocators of \<open>src/memory.c\<close> on top of the page allocator: \<open>kmalloc\<close> and
  \<open>kfree\<close> with their sixteen caches, the slab caches of \<open>slab_create\<close> to
  \<open>slab_free\<close>, and their initialisation \<open>slab_init\<close>.

  A slab is named by the address of its \<open>struct Slab\<close>, a colour map by its base address.  The
  slabs of a cache form a ring through \<open>cache_pool\<close>.  \<^const>\<open>None\<close> is a fault (a null
  slab is dereferenced), a loop that does not end, or exhausted fuel; fuel counts the nesting of
  \<open>kmalloc\<close> and \<open>kmalloc_create\<close>, and of \<open>kfree\<close>, and 2 is enough.
\<close>

section \<open>State\<close>

record Slab =
  sl_page :: "nat option"
  using_count :: u64
  free_count :: u64
  Vaddress :: addr
  color_length :: u64
  color_count :: u64
  color_map :: addr

record Slab_cache =
  cs_size :: u64
  total_using :: u64
  total_free :: u64
  cache_pool :: addr
  cache_dma_pool :: addr
  constructor :: addr
  destructor :: addr

record smem =
  gm :: gmd
  slnk :: links
  slabs :: "addr \<Rightarrow> Slab"
  maps :: "addr \<Rightarrow> nat \<Rightarrow> u64"
  kmalloc_cache_size :: "nat \<Rightarrow> Slab_cache"
  ucaches :: "addr \<Rightarrow> Slab_cache"

definition PAGE_2M_SIZE :: u64 where "PAGE_2M_SIZE = 0x200000"
definition PAGE_OFFSET :: u64 where "PAGE_OFFSET = 0xffff800000000000"

definition Phy_To_Virt :: "u64 \<Rightarrow> addr" where
  "Phy_To_Virt a = a + PAGE_OFFSET"

definition Virt_To_Phy :: "addr \<Rightarrow> u64" where
  "Virt_To_Phy a = a - PAGE_OFFSET"

text \<open>\<open>sizeof(struct Slab)\<close> and \<open>sizeof(struct Slab_cache)\<close>.\<close>

definition sizeof_Slab :: u64 where "sizeof_Slab = 72"
definition sizeof_Slab_cache :: u64 where "sizeof_Slab_cache = 56"

definition upd_slab :: "addr \<Rightarrow> (Slab \<Rightarrow> Slab) \<Rightarrow> smem \<Rightarrow> smem" where
  "upd_slab a f s = s\<lparr>slabs := (slabs s)(a := f (slabs s a))\<rparr>"

definition upd_map :: "addr \<Rightarrow> ((nat \<Rightarrow> u64) \<Rightarrow> nat \<Rightarrow> u64) \<Rightarrow> smem \<Rightarrow> smem" where
  "upd_map a f s = s\<lparr>maps := (maps s)(a := f (maps s a))\<rparr>"

definition upd_kcache :: "nat \<Rightarrow> (Slab_cache \<Rightarrow> Slab_cache) \<Rightarrow> smem \<Rightarrow> smem" where
  "upd_kcache i f s = s\<lparr>kmalloc_cache_size := (kmalloc_cache_size s)(i := f (kmalloc_cache_size s i))\<rparr>"

definition upd_ucache :: "addr \<Rightarrow> (Slab_cache \<Rightarrow> Slab_cache) \<Rightarrow> smem \<Rightarrow> smem" where
  "upd_ucache c f s = s\<lparr>ucaches := (ucaches s)(c := f (ucaches s c))\<rparr>"

definition map_set :: "nat \<Rightarrow> (nat \<Rightarrow> u64) \<Rightarrow> nat \<Rightarrow> u64" where
  "map_set j m = m(j div 64 := m (j div 64) OR push_bit (j mod 64) 1)"

definition map_flip :: "nat \<Rightarrow> (nat \<Rightarrow> u64) \<Rightarrow> nat \<Rightarrow> u64" where
  "map_flip j m = m(j div 64 := m (j div 64) XOR push_bit (j mod 64) 1)"

text \<open>\<open>memset(color_map, 0xff, len)\<close> followed by the loop that clears the first \<open>n\<close> bits, and
  \<open>memset(color_map, 0, len)\<close>.\<close>

definition map_init :: "nat \<Rightarrow> nat \<Rightarrow> (nat \<Rightarrow> u64) \<Rightarrow> nat \<Rightarrow> u64" where
  "map_init len n m = fold map_flip [0..<n] (\<lambda>i. if i < len div 8 then - 1 else m i)"

definition map_zero :: "nat \<Rightarrow> (nat \<Rightarrow> u64) \<Rightarrow> nat \<Rightarrow> u64" where
  "map_zero len m = (\<lambda>i. if i < len div 8 then 0 else m i)"

text \<open>\<open>((count + 63) >> 6) << 3\<close>\<close>

definition map_bytes :: "u64 \<Rightarrow> u64" where
  "map_bytes count = push_bit 3 (drop_bit 6 (count + 63))"

definition page_phys :: "smem \<Rightarrow> nat \<Rightarrow> u64" where
  "page_phys s p = PHY_address (pages_struct (gm s) p)"

definition new_page :: "smem \<Rightarrow> nat option \<times> smem" where
  "new_page s = (let (p, g) = alloc_pages ZONE_NORMAL 1 0 (gm s) in (p, s\<lparr>gm := g\<rparr>))"

definition init_kernel_page :: "nat \<Rightarrow> smem \<Rightarrow> smem" where
  "init_kernel_page p s = s\<lparr>gm := snd (page_init p PG_Kernel (gm s))\<rparr>"

definition drop_page :: "nat option \<Rightarrow> smem \<Rightarrow> smem" where
  "drop_page p s = s\<lparr>gm := free_pages p 1 (gm s)\<rparr>"

text \<open>\<open>page_clean(page); free_pages(page, 1)\<close>; a null page would fault in \<open>page_clean\<close>.\<close>

definition clean_page :: "nat option \<Rightarrow> smem \<Rightarrow> smem option" where
  "clean_page page s = (case page of None \<Rightarrow> None
     | Some p \<Rightarrow> Some (drop_page (Some p) (s\<lparr>gm := snd (page_clean p (gm s))\<rparr>)))"

section \<open>kmalloc\<close>

text \<open>The search for a free object in a colour map, skipping full words.\<close>

function find_color :: "(nat \<Rightarrow> u64) \<Rightarrow> nat \<Rightarrow> nat \<Rightarrow> nat option" where
  "find_color m count j =
     (if j < count
      then if m (j div 64) = - 1 then find_color m count (j + 64)
           else if m (j div 64) AND push_bit (j mod 64) 1 = 0 then Some j
           else find_color m count (j + 1)
      else None)"
  by pat_completeness auto
termination
  by (relation "measure (\<lambda>(m, count, j). count - j)") auto

declare find_color.simps [simp del]

text \<open>The \<open>do ... while\<close> loop that looks for a slab with a free object.\<close>

partial_function (option) free_slab_walk :: "smem \<Rightarrow> addr \<Rightarrow> addr \<Rightarrow> addr option" where
  "free_slab_walk s pool slab =
     (if free_count (slabs s slab) = 0
      then let slab = list_next (slnk s) slab
           in if slab \<noteq> pool then free_slab_walk s pool slab else Some slab
      else Some slab)"

text \<open>Taking the object \<open>j\<close> of a slab of the cache \<open>i\<close>.\<close>

definition kmalloc_take :: "nat \<Rightarrow> addr \<Rightarrow> smem \<Rightarrow> addr \<times> smem" where
  "kmalloc_take i slab s =
     (let sl = slabs s slab
      in case find_color (maps s (color_map sl)) (unat (color_count sl)) 0 of
           None \<Rightarrow> (NULL, s)
         | Some j \<Rightarrow>
             (let s = upd_map (color_map sl) (map_set j) s;
                  s = upd_slab slab (\<lambda>x. x\<lparr>using_count := using_count x + 1, free_count := free_count x - 1\<rparr>) s;
                  s = upd_kcache i (\<lambda>c. c\<lparr>total_free := total_free c - 1, total_using := total_using c + 1\<rparr>) s
              in (Vaddress sl + cs_size (kmalloc_cache_size s i) * word_of_nat j, s)))"

definition small_sizes :: "u64 list" where "small_sizes = [32, 64, 128, 256, 512]"

definition large_sizes :: "u64 list" where
  "large_sizes = [1024, 2048, 4096, 8192, 16384, 32768, 65536, 131072, 262144, 524288, 1048576]"

text \<open>\<open>kmalloc_create\<close>; \<open>km\<close> is the call of \<open>kmalloc\<close> it makes.\<close>

definition kmalloc_create ::
  "(u64 \<Rightarrow> smem \<Rightarrow> (addr \<times> smem) option) \<Rightarrow> u64 \<Rightarrow> smem \<Rightarrow> (addr \<times> smem) option" where
  "kmalloc_create km sz s =
     (case new_page s of
        (None, s) \<Rightarrow> Some (NULL, s)
      | (Some p, s) \<Rightarrow>
          let s = init_kernel_page p s; va = Phy_To_Virt (page_phys s p)
          in if sz \<in> set small_sizes then
               let structsize = sizeof_Slab + PAGE_2M_SIZE div sz div 8;
                   slab = va + PAGE_2M_SIZE - structsize;
                   n = (PAGE_2M_SIZE - PAGE_2M_SIZE div sz div 8 - sizeof_Slab) div sz;
                   cm = slab + sizeof_Slab;
                   s = upd_slab slab (\<lambda>_. \<lparr>sl_page = Some p, using_count = 0, free_count = n, Vaddress = va,
                     color_length = map_bytes n, color_count = n, color_map = cm\<rparr>) s;
                   s = s\<lparr>slnk := list_init (slnk s) slab\<rparr>;
                   s = upd_map cm (map_init (unat (map_bytes n)) (unat n)) s
               in Some (slab, s)
             else if sz \<in> set large_sizes then do {
               (slab, s) \<leftarrow> km sizeof_Slab s;
               if slab = NULL then None else do {
                 let n = PAGE_2M_SIZE div sz;
                 let s = upd_slab slab (\<lambda>x. x\<lparr>free_count := n, using_count := 0, color_count := n, color_length := map_bytes n\<rparr>) s;
                 (cm, s) \<leftarrow> km (map_bytes n) s;
                 if cm = NULL then None else do {
                   let s = upd_slab slab (\<lambda>x. x\<lparr>color_map := cm, Vaddress := va, sl_page := Some p\<rparr>) s;
                   let s = s\<lparr>slnk := list_init (slnk s) slab\<rparr>;
                   Some (slab, upd_map cm (map_init (unat (map_bytes n)) (unat n)) s)
                 }
               }
             }
             else Some (NULL, drop_page (Some p) s))"

definition cache_index :: "u64 \<Rightarrow> smem \<Rightarrow> nat" where
  "cache_index sz s = length (takeWhile (\<lambda>i. cs_size (kmalloc_cache_size s i) < sz) [0..<16])"

fun kmalloc :: "nat \<Rightarrow> u64 \<Rightarrow> smem \<Rightarrow> (addr \<times> smem) option" where
  "kmalloc 0 sz s = None"
| "kmalloc (Suc fuel) sz s =
     (if sz > 1048576 then Some (NULL, s)
      else let i = cache_index sz s; pool = cache_pool (kmalloc_cache_size s i)
           in if total_free (kmalloc_cache_size s i) \<noteq> 0
              then do { slab \<leftarrow> free_slab_walk s pool pool; Some (kmalloc_take i slab s) }
              else do {
                (slab, s) \<leftarrow> kmalloc_create (kmalloc fuel) (cs_size (kmalloc_cache_size s i)) s;
                if slab = NULL then Some (NULL, s)
                else let s = upd_kcache i (\<lambda>c. c\<lparr>total_free := total_free c + color_count (slabs s slab)\<rparr>) s;
                         s = s\<lparr>slnk := list_add_to_before (slnk s) (cache_pool (kmalloc_cache_size s i)) slab\<rparr>
                     in Some (kmalloc_take i slab s)
              })"

section \<open>kfree\<close>

text \<open>The loop over the ring of one cache: \<open>Some None\<close> if no slab lies at \<open>base\<close>.\<close>

partial_function (option) kfree_walk :: "smem \<Rightarrow> addr \<Rightarrow> addr \<Rightarrow> addr \<Rightarrow> addr option option" where
  "kfree_walk s base pool slab =
     (if Vaddress (slabs s slab) = base then Some (Some slab)
      else let slab = list_next (slnk s) slab
           in if slab \<noteq> pool then kfree_walk s base pool slab else Some None)"

fun kfree_find :: "smem \<Rightarrow> addr \<Rightarrow> nat list \<Rightarrow> (nat \<times> addr) option option" where
  "kfree_find s base [] = Some None"
| "kfree_find s base (i # js) = do {
     r \<leftarrow> kfree_walk s base (cache_pool (kmalloc_cache_size s i)) (cache_pool (kmalloc_cache_size s i));
     (case r of Some slab \<Rightarrow> Some (Some (i, slab)) | None \<Rightarrow> kfree_find s base js)
   }"

fun kfree :: "nat \<Rightarrow> addr \<Rightarrow> smem \<Rightarrow> (u64 \<times> smem) option" where
  "kfree 0 a s = None"
| "kfree (Suc fuel) a s = do {
     r \<leftarrow> kfree_find s (a AND NOT 0x1fffff) [0..<16];
     (case r of
        None \<Rightarrow> Some (0, s)
      | Some (i, slab) \<Rightarrow>
          let sl = slabs s slab; sz = cs_size (kmalloc_cache_size s i);
              index = unat ((a - Vaddress sl) div sz);
              s = upd_map (color_map sl) (map_flip index) s;
              s = upd_slab slab (\<lambda>x. x\<lparr>free_count := free_count x + 1, using_count := using_count x - 1\<rparr>) s;
              s = upd_kcache i (\<lambda>c. c\<lparr>total_free := total_free c + 1, total_using := total_using c - 1\<rparr>) s;
              c = kmalloc_cache_size s i
          in if using_count (slabs s slab) = 0 \<and> total_free c \<ge> color_count sl * 3 div 2 \<and> cache_pool c \<noteq> slab
             then let s = s\<lparr>slnk := list_del (slnk s) slab\<rparr>;
                      s = upd_kcache i (\<lambda>c. c\<lparr>total_free := total_free c - color_count sl\<rparr>) s
                  in if sz \<in> set small_sizes
                     then do { s \<leftarrow> clean_page (sl_page sl) s; Some (1, s) }
                     else do {
                       (r, s) \<leftarrow> kfree fuel (color_map sl) s;
                       s \<leftarrow> clean_page (sl_page sl) s;
                       (r, s) \<leftarrow> kfree fuel slab s;
                       Some (1, s)
                     }
             else Some (1, s))
   }"

section \<open>Slab caches\<close>

text \<open>\<open>slab_create\<close>; the result is the address of the new \<open>struct Slab_cache\<close>.\<close>

definition slab_create :: "u64 \<Rightarrow> addr \<Rightarrow> addr \<Rightarrow> smem \<Rightarrow> (addr \<times> smem) option" where
  "slab_create sz ctor dtor s = do {
     (c, s) \<leftarrow> kmalloc 2 sizeof_Slab_cache s;
     if c = NULL then Some (NULL, s) else do {
       let s = upd_ucache c (\<lambda>_. \<lparr>cs_size = SIZEOF_LONG_ALIGN sz, total_using = 0, total_free = 0,
         cache_pool = 0, cache_dma_pool = 0, constructor = 0, destructor = 0\<rparr>) s;
       (pool, s) \<leftarrow> kmalloc 2 sizeof_Slab s;
       let s = upd_ucache c (\<lambda>x. x\<lparr>cache_pool := pool\<rparr>) s;
       if pool = NULL then do { (r, s) \<leftarrow> kfree 2 c s; Some (NULL, s) } else do {
         let s = upd_slab pool (\<lambda>_. \<lparr>sl_page = None, using_count = 0, free_count = 0, Vaddress = 0,
           color_length = 0, color_count = 0, color_map = 0\<rparr>) s;
         let s = upd_ucache c (\<lambda>x. x\<lparr>cache_dma_pool := NULL, constructor := ctor, destructor := dtor\<rparr>) s;
         let s = s\<lparr>slnk := list_init (slnk s) pool\<rparr>;
         (case new_page s of
            (None, s) \<Rightarrow> do { (r, s) \<leftarrow> kfree 2 pool s; (r, s) \<leftarrow> kfree 2 c s; Some (NULL, s) }
          | (Some p, s) \<Rightarrow> do {
              let s = init_kernel_page p s;
              let n = PAGE_2M_SIZE div cs_size (ucaches s c);
              let s = upd_slab pool (\<lambda>x. x\<lparr>sl_page := Some p, using_count := n, free_count := n\<rparr>) s;
              let s = upd_ucache c (\<lambda>x. x\<lparr>total_free := n\<rparr>) s;
              let s = upd_slab pool (\<lambda>x. x\<lparr>Vaddress := Phy_To_Virt (page_phys s p), color_count := n,
                color_length := map_bytes n\<rparr>) s;
              (cm, s) \<leftarrow> kmalloc 2 (map_bytes n) s;
              let s = upd_slab pool (\<lambda>x. x\<lparr>color_map := cm\<rparr>) s;
              if cm = NULL then do {
                let s = drop_page (Some p) s;
                (r, s) \<leftarrow> kfree 2 pool s; (r, s) \<leftarrow> kfree 2 c s; Some (NULL, s)
              }
              else Some (c, upd_map cm (map_zero (unat (map_bytes n))) s)
            })
       }
     }
   }"

text \<open>Releasing one slab: its map, its page and its descriptor.\<close>

definition slab_release :: "addr \<Rightarrow> smem \<Rightarrow> smem option" where
  "slab_release slab s = do {
     let sl = slabs s slab;
     (r, s) \<leftarrow> kfree 2 (color_map sl) s;
     s \<leftarrow> clean_page (sl_page sl) s;
     (r, s) \<leftarrow> kfree 2 slab s;
     Some s
   }"

partial_function (option) slab_destroy_loop :: "addr \<Rightarrow> smem \<Rightarrow> (addr \<times> smem) option" where
  "slab_destroy_loop slab_p s =
     (if list_is_empty (slnk s) slab_p then Some (slab_p, s)
      else do {
        let nx = list_next (slnk s) slab_p;
        let s = s\<lparr>slnk := list_del (slnk s) slab_p\<rparr>;
        s \<leftarrow> slab_release slab_p s;
        slab_destroy_loop nx s
      })"

definition slab_destroy :: "addr \<Rightarrow> smem \<Rightarrow> (u64 \<times> smem) option" where
  "slab_destroy c s =
     (if total_using (ucaches s c) \<noteq> 0 then Some (0, s)
      else do {
        (slab_p, s) \<leftarrow> slab_destroy_loop (cache_pool (ucaches s c)) s;
        s \<leftarrow> slab_release slab_p s;
        (r, s) \<leftarrow> kfree 2 c s;
        Some (1, s)
      })"

text \<open>
  Taking the object \<open>j\<close> of a slab.  \<open>cb\<close> is what a constructor or destructor does and
  returns: its address, the object and the argument.
\<close>

type_synonym object_fn = "addr \<Rightarrow> addr \<Rightarrow> u64 \<Rightarrow> smem \<Rightarrow> addr \<times> smem"

definition slab_take :: "object_fn \<Rightarrow> addr \<Rightarrow> addr \<Rightarrow> nat \<Rightarrow> u64 \<Rightarrow> smem \<Rightarrow> addr \<times> smem" where
  "slab_take cb c slab j arg s =
     (let sl = slabs s slab;
          s = upd_map (color_map sl) (map_set j) s;
          s = upd_slab slab (\<lambda>x. x\<lparr>using_count := using_count x + 1, free_count := free_count x - 1\<rparr>) s;
          s = upd_ucache c (\<lambda>x. x\<lparr>total_using := total_using x + 1, total_free := total_free x - 1\<rparr>) s;
          a = Vaddress sl + cs_size (ucaches s c) * word_of_nat j
      in if constructor (ucaches s c) \<noteq> NULL then cb (constructor (ucaches s c)) a arg s else (a, s))"

partial_function (option) slab_malloc_walk ::
  "object_fn \<Rightarrow> addr \<Rightarrow> u64 \<Rightarrow> addr \<Rightarrow> smem \<Rightarrow> (addr \<times> smem) option" where
  "slab_malloc_walk cb c arg slab_p s =
     (let pool = cache_pool (ucaches s c); sl = slabs s slab_p
      in if free_count sl = 0
         then let slab_p = list_next (slnk s) slab_p
              in if slab_p \<noteq> pool then slab_malloc_walk cb c arg slab_p s else Some (NULL, s)
         else case find_color (maps s (color_map sl)) (unat (color_count sl)) 0 of
                Some j \<Rightarrow> Some (slab_take cb c slab_p j arg s)
              | None \<Rightarrow> if slab_p \<noteq> pool then slab_malloc_walk cb c arg slab_p s else Some (NULL, s))"

definition slab_malloc :: "object_fn \<Rightarrow> addr \<Rightarrow> u64 \<Rightarrow> smem \<Rightarrow> (addr \<times> smem) option" where
  "slab_malloc cb c arg s =
     (if total_free (ucaches s c) = 0
      then do {
        (t, s) \<leftarrow> kmalloc 2 sizeof_Slab s;
        if t = NULL then Some (NULL, s) else do {
          let s = upd_slab t (\<lambda>_. \<lparr>sl_page = None, using_count = 0, free_count = 0, Vaddress = 0,
            color_length = 0, color_count = 0, color_map = 0\<rparr>) s;
          let s = s\<lparr>slnk := list_init (slnk s) t\<rparr>;
          (case new_page s of
             (None, s) \<Rightarrow> do { (r, s) \<leftarrow> kfree 2 t s; Some (NULL, s) }
           | (Some p, s) \<Rightarrow> do {
               let s = init_kernel_page p s;
               let n = PAGE_2M_SIZE div cs_size (ucaches s c);
               let s = upd_slab t (\<lambda>x. x\<lparr>sl_page := Some p, using_count := 0, free_count := n,
                 Vaddress := Phy_To_Virt (page_phys s p), color_count := n, color_length := map_bytes n\<rparr>) s;
               (cm, s) \<leftarrow> kmalloc 2 (map_bytes n) s;
               let s = upd_slab t (\<lambda>x. x\<lparr>color_map := cm\<rparr>) s;
               if cm = NULL then do {
                 let s = drop_page (Some p) s;
                 (r, s) \<leftarrow> kfree 2 t s; Some (NULL, s)
               }
               else do {
                 let s = upd_map cm (map_zero (unat (map_bytes n))) s;
                 let s = s\<lparr>slnk := list_add_to_behind (slnk s) (cache_pool (ucaches s c)) t\<rparr>;
                 let s = upd_ucache c (\<lambda>x. x\<lparr>total_free := total_free x + n\<rparr>) s;
                 (case find (\<lambda>j. maps s cm (j div 64) AND push_bit (j mod 64) 1 = 0) [0..<unat n] of
                    Some j \<Rightarrow> Some (slab_take cb c t j arg s)
                  | None \<Rightarrow> do {
                      let s = s\<lparr>slnk := list_del (slnk s) t\<rparr>;
                      s \<leftarrow> slab_release t s; Some (NULL, s)
                    })
               }
             })
        }
      }
      else slab_malloc_walk cb c arg (cache_pool (ucaches s c)) s)"

partial_function (option) slab_free_walk :: "smem \<Rightarrow> addr \<Rightarrow> addr \<Rightarrow> addr \<Rightarrow> addr option option" where
  "slab_free_walk s a pool slab =
     (if Vaddress (slabs s slab) \<le> a \<and> a < Vaddress (slabs s slab) + PAGE_2M_SIZE then Some (Some slab)
      else let slab = list_next (slnk s) slab
           in if slab \<noteq> pool then slab_free_walk s a pool slab else Some None)"

definition slab_free :: "object_fn \<Rightarrow> addr \<Rightarrow> addr \<Rightarrow> u64 \<Rightarrow> smem \<Rightarrow> (u64 \<times> smem) option" where
  "slab_free cb c a arg s = do {
     r \<leftarrow> slab_free_walk s a (cache_pool (ucaches s c)) (cache_pool (ucaches s c));
     (case r of
        None \<Rightarrow> Some (0, s)
      | Some slab \<Rightarrow>
          let sl = slabs s slab; index = unat ((a - Vaddress sl) div cs_size (ucaches s c));
              s = upd_map (color_map sl) (map_flip index) s;
              s = upd_slab slab (\<lambda>x. x\<lparr>free_count := free_count x + 1, using_count := using_count x - 1\<rparr>) s;
              s = upd_ucache c (\<lambda>x. x\<lparr>total_using := total_using x - 1, total_free := total_free x + 1\<rparr>) s;
              s = (if destructor (ucaches s c) \<noteq> NULL
                   then snd (cb (destructor (ucaches s c)) (Vaddress sl + cs_size (ucaches s c) * word_of_nat index) arg s)
                   else s)
          in if using_count (slabs s slab) = 0 \<and> total_free (ucaches s c) \<ge> color_count (slabs s slab) * 3 div 2
             then do {
               let s = s\<lparr>slnk := list_del (slnk s) slab\<rparr>;
               let s = upd_ucache c (\<lambda>x. x\<lparr>total_free := total_free x - color_count (slabs s slab)\<rparr>) s;
               s \<leftarrow> slab_release slab s;
               Some (1, s)
             }
             else Some (1, s))
   }"

section \<open>Initialisation\<close>

text \<open>The initial value of \<open>kmalloc_cache_size\<close> in \<open>memory.h\<close>.\<close>

definition kmalloc_caches0 :: "nat \<Rightarrow> Slab_cache" where
  "kmalloc_caches0 i = \<lparr>cs_size = push_bit i 32, total_using = 0, total_free = 0, cache_pool = NULL,
     cache_dma_pool = NULL, constructor = NULL, destructor = NULL\<rparr>"

definition slab_init_pool :: "nat \<Rightarrow> smem \<Rightarrow> smem" where
  "slab_init_pool i s =
     (let pool = end_of_struct (gm s); e = pool + sizeof_Slab + 80;
          n = PAGE_2M_SIZE div cs_size (kmalloc_cache_size s i); len = map_bytes n;
          s = s\<lparr>slnk := list_init (slnk s) pool\<rparr>;
          s = upd_slab pool (\<lambda>x. x\<lparr>using_count := 0, free_count := n, color_length := len,
            color_count := n, color_map := e\<rparr>) s;
          s = s\<lparr>gm := (gm s)\<lparr>end_of_struct := (e + len + 80) AND NOT 7\<rparr>\<rparr>;
          s = upd_map e (map_init (unat len) (unat n)) s
      in upd_kcache i (\<lambda>c. c\<lparr>cache_pool := pool, total_free := n, total_using := 0\<rparr>) s)"

definition slab_mark_page :: "nat \<Rightarrow> smem \<Rightarrow> smem" where
  "slab_mark_page p s =
     (let g = bit_set (pfn (gm s) p) (gm s);
          g = upd_page_zone p (\<lambda>z. z\<lparr>page_using_count := page_using_count z + 1,
            page_free_count := page_free_count z - 1\<rparr>) g
      in s\<lparr>gm := snd (page_init p kernel_flags g)\<rparr>)"

definition slab_init_page :: "nat \<Rightarrow> smem \<Rightarrow> smem" where
  "slab_init_page i s =
     (let virt = (end_of_struct (gm s) + PAGE_2M_SIZE * word_of_nat i + PAGE_2M_SIZE - 1) AND NOT 0x1fffff;
          p = unat (drop_bit 21 (Virt_To_Phy virt));
          s = slab_mark_page p s
      in upd_slab (cache_pool (kmalloc_cache_size s i)) (\<lambda>x. x\<lparr>sl_page := Some p, Vaddress := virt\<rparr>) s)"

definition slab_init :: "smem \<Rightarrow> smem" where
  "slab_init s =
     (let tmp = end_of_struct (gm s);
          s = fold slab_init_pool [0..<16] s;
          i = unat (drop_bit 21 (Virt_To_Phy (end_of_struct (gm s))));
          s = fold slab_mark_page [unat (drop_bit 21 (PAGE_2M_ALIGN (Virt_To_Phy tmp)))..<Suc i] s
      in fold slab_init_page [0..<16] s)"

section \<open>The searches\<close>

interpretation fsw: ring_search "nxt (slnk s)" "\<lambda>p. free_count (slabs s p) \<noteq> 0" pool Some "Some pool"
  "free_slab_walk s pool" for s pool
  by unfold_locales (subst free_slab_walk.simps, auto simp: Let_def)

interpretation kfw: ring_search "nxt (slnk s)" "\<lambda>p. Vaddress (slabs s p) = base" pool "\<lambda>p. Some (Some p)" "Some None"
  "kfree_walk s base pool" for s base pool
  by unfold_locales (subst kfree_walk.simps, simp add: Let_def)

interpretation sfw: ring_search "nxt (slnk s)"
  "\<lambda>p. Vaddress (slabs s p) \<le> a \<and> a < Vaddress (slabs s p) + PAGE_2M_SIZE" pool "\<lambda>p. Some (Some p)" "Some None"
  "slab_free_walk s a pool" for s a pool
  by unfold_locales (subst slab_free_walk.simps, simp add: Let_def)

lemma full_word: "m (j div 64) = (- 1 :: u64) \<Longrightarrow> k div 64 = j div 64 \<Longrightarrow> ubit m k"
  by (simp add: ubit_def)

lemma find_skip: "\<forall>x\<in>set xs. \<not> P x \<Longrightarrow> find P (xs @ ys) = find P ys"
  by (induction xs) auto

lemma find_upt_skip:
  assumes "\<And>k. j \<le> k \<Longrightarrow> k < j + d \<Longrightarrow> \<not> P k"
  shows "find P [j..<count] = find P [j + d..<count]"
proof (cases "j + d \<le> count")
  case True
  have "find P ([j..<j + d] @ ys) = find P ys" for ys
    using assms by (intro find_skip) auto
  moreover have "[j..<count] = [j..<j + d] @ [j + d..<count]"
    using upt_add_eq_append [of j "j + d" "count - (j + d)"] True by simp
  ultimately show ?thesis by simp
next
  case False
  then show ?thesis using assms by (auto simp: find_None_iff)
qed

lemma find_color_suffix:
  assumes "j mod 64 = 0 \<or> m (j div 64) \<noteq> - 1"
  shows "find_color m count j = find (\<lambda>j. \<not> ubit m j) [j..<count]"
  using assms
proof (induction "count - j" arbitrary: j rule: less_induct)
  case less
  let ?P = "\<lambda>j. \<not> ubit m j"
  note step = find_color.simps [of m count j]
  have b: "m (j div 64) AND push_bit (j mod 64) 1 = 0 \<longleftrightarrow> \<not> ubit m j"
    using and_bit64_eq_0_iff [of "j mod 64" "m (j div 64)"] by (simp add: ubit_def)
  consider "count \<le> j" | "j < count" "m (j div 64) = - 1" | "j < count" "m (j div 64) \<noteq> - 1" "\<not> ubit m j"
    | "j < count" "m (j div 64) \<noteq> - 1" "ubit m j" by linarith
  then show ?case
  proof cases
    case 1
    then show ?thesis by (simp add: step)
  next
    case 2
    with less.prems have j: "j mod 64 = 0" by simp
    have "find_color m count j = find_color m count (j + 64)" using 2 by (subst step) simp
    also have "\<dots> = find ?P [j + 64..<count]" using 2 j by (intro less.hyps) auto
    also have "\<dots> = find ?P [j..<count]"
    proof (rule find_upt_skip [symmetric])
      fix k assume "j \<le> k" "k < j + 64"
      with j have "k div 64 = j div 64" by auto
      with 2 show "\<not> \<not> ubit m k" by (simp add: full_word)
    qed
    finally show ?thesis .
  next
    case 3
    then show ?thesis using b by (subst step) (simp add: upt_conv_Cons)
  next
    case 4
    have "(j + 1) mod 64 = 0 \<or> m ((j + 1) div 64) \<noteq> - 1"
      using 4(2) by (cases "(j + 1) mod 64 = 0") (auto simp: div_Suc)
    then have "find_color m count (j + 1) = find ?P [j + 1..<count]" using 4 by (intro less.hyps) auto
    then show ?thesis using 4 b by (subst step) (simp add: upt_conv_Cons [of j])
  qed
qed

lemma find_color_first: "find_color m count 0 = find (\<lambda>j. \<not> ubit m j) [0..<count]"
  by (rule find_color_suffix) simp

section \<open>Colour maps\<close>

lemma ubit_fun_upd:
  "ubit (m(n div 64 := w)) k \<longleftrightarrow> (if k div 64 = n div 64 then bit w (k mod 64) else ubit m k)"
  by (simp add: ubit_def)

lemma ubit_map_set [simp]: "ubit (map_set n m) k \<longleftrightarrow> ubit m k \<or> k = n"
  using div_mod_64_eq [of k n] bit_or_bit64 [of "n mod 64" "m (n div 64)" "k mod 64"]
  unfolding map_set_def ubit_fun_upd by (auto simp: ubit_def)

lemma ubit_map_flip [simp]: "ubit (map_flip n m) k \<longleftrightarrow> (if k = n then \<not> ubit m k else ubit m k)"
  using div_mod_64_eq [of k n] bit_xor_bit64 [of "n mod 64" "m (n div 64)" "k mod 64"]
  unfolding map_flip_def ubit_fun_upd by (auto simp: ubit_def)

lemma map_flip_set: "\<not> ubit m n \<Longrightarrow> map_flip n (map_set n m) = m"
  by (rule ubit_ext) auto

lemma fold_map_flip: "ubit (fold map_flip [0..<n] m) k \<longleftrightarrow> ubit m k \<noteq> (k < n)"
proof (induction n arbitrary: k)
  case (Suc n)
  have "ubit (fold map_flip [0..<Suc n] m) k \<longleftrightarrow> (if k = n then \<not> (ubit m k \<noteq> (k < n)) else ubit m k \<noteq> (k < n))"
    using Suc by simp
  then show ?case by (cases "k = n") (simp_all add: less_Suc_eq)
qed simp

section \<open>The cache invariant\<close>

text \<open>The counts of a slab are those of its colour map.\<close>

definition slab_ok :: "smem \<Rightarrow> addr \<Rightarrow> bool" where
  "slab_ok s x \<longleftrightarrow>
     (let r = slabs s x; m = maps s (color_map r); n = unat (color_count r)
      in unat (free_count r) = card {j. j < n \<and> \<not> ubit m j} \<and>
         unat (using_count r) = card {j. j < n \<and> ubit m j})"

text \<open>The slabs of the cache \<open>i\<close> are its pool and \<open>rest\<close>, and its totals are their sums.\<close>

definition cache_ok :: "smem \<Rightarrow> nat \<Rightarrow> addr list \<Rightarrow> bool" where
  "cache_ok s i rest \<longleftrightarrow>
     (let c = kmalloc_cache_size s i; L = cache_pool c # rest
      in ring (slnk s) (cache_pool c) rest \<and> (\<forall>x\<in>set L. slab_ok s x) \<and>
         inj_on (\<lambda>x. color_map (slabs s x)) (set L) \<and>
         total_free c = sum_list (map (\<lambda>x. free_count (slabs s x)) L) \<and>
         total_using c = sum_list (map (\<lambda>x. using_count (slabs s x)) L))"

lemma slab_ok_take:
  assumes ok: "slab_ok s x" and j: "j < unat (color_count (slabs s x))" "\<not> ubit (maps s (color_map (slabs s x))) j"
    and s': "maps s' (color_map (slabs s x)) = map_set j (maps s (color_map (slabs s x)))"
      "slabs s' x = (slabs s x)\<lparr>using_count := using_count (slabs s x) + 1, free_count := free_count (slabs s x) - 1\<rparr>"
  shows "slab_ok s' x"
proof -
  let ?r = "slabs s x" and ?m = "maps s (color_map (slabs s x))" and ?n = "unat (color_count (slabs s x))"
  let ?F = "{k. k < ?n \<and> \<not> ubit ?m k}" and ?U = "{k. k < ?n \<and> ubit ?m k}"
  have F: "{k. k < ?n \<and> \<not> ubit (map_set j ?m) k} = ?F - {j}" by auto
  have U: "{k. k < ?n \<and> ubit (map_set j ?m) k} = insert j ?U" using j by auto
  have cF: "unat (free_count ?r) = card ?F" and cU: "unat (using_count ?r) = card ?U"
    using ok by (simp_all add: slab_ok_def Let_def)
  have "j \<in> ?F" "finite ?F" "finite ?U" using j by auto
  then have pos: "0 < card ?F" by (auto simp: card_gt_0_iff)
  have "card ?F + card ?U = card (?F \<union> ?U)"
    using \<open>finite ?F\<close> \<open>finite ?U\<close> by (intro card_Un_disjoint [symmetric]) auto
  also have "?F \<union> ?U = {..<?n}" by auto
  finally have "card ?F + card ?U = ?n" by simp
  moreover have "?n < 2 ^ LENGTH(64)" by (rule unsigned_less)
  ultimately have lt: "card ?U + 1 < 2 ^ 64" using pos by simp
  have "unat (free_count ?r - 1) = card ?F - 1"
  proof -
    have "free_count ?r \<noteq> 0" using pos cF by (metis less_numeral_extra(3) unat_0)
    then show ?thesis unfolding cF [symmetric] by (rule unat_minus_one)
  qed
  moreover have "unat (using_count ?r + 1) = card ?U + 1"
    using lt cU by (subst unat_add_lem [THEN iffD1]) simp_all
  moreover have "card (?F - {j}) = card ?F - 1" "card (insert j ?U) = card ?U + 1"
    using \<open>j \<in> ?F\<close> \<open>finite ?U\<close> j by simp_all
  moreover have e: "color_map (slabs s' x) = color_map ?r" "color_count (slabs s' x) = color_count ?r"
    "free_count (slabs s' x) = free_count ?r - 1" "using_count (slabs s' x) = using_count ?r + 1"
    by (simp_all add: s'(2))
  ultimately show ?thesis unfolding slab_ok_def Let_def e s'(1) F U by simp
qed

lemma sum_list_point:
  assumes "distinct xs" and "x \<in> set xs" and "\<And>y. y \<in> set xs \<Longrightarrow> y \<noteq> x \<Longrightarrow> f' y = f y" and "f' x = f x + (d :: u64)"
  shows "sum_list (map f' xs) = sum_list (map f xs) + d"
proof -
  have "sum f' (set xs) = f' x + sum f' (set xs - {x})" "sum f (set xs) = f x + sum f (set xs - {x})"
    using assms(2) by (simp_all add: sum.remove)
  moreover have "sum f' (set xs - {x}) = sum f (set xs - {x})" using assms(3) by (intro sum.cong) auto
  ultimately show ?thesis using assms(1,4) by (simp add: sum_list_distinct_conv_sum_set algebra_simps)
qed

lemma sum_list_zero: "(\<forall>x\<in>set xs. f x = (0 :: u64)) \<Longrightarrow> sum_list (map f xs) = 0"
  by (induction xs) auto

lemma kmalloc_take_spec:
  assumes ok: "cache_ok s i rest" and x: "x \<in> set (cache_pool (kmalloc_cache_size s i) # rest)"
    and fc: "free_count (slabs s x) \<noteq> 0"
  obtains j s' where "kmalloc_take i x s = (Vaddress (slabs s x) + cs_size (kmalloc_cache_size s i) * word_of_nat j, s')"
    and "j < unat (color_count (slabs s x))" and "\<not> ubit (maps s (color_map (slabs s x))) j"
    and "maps s' = (maps s)(color_map (slabs s x) := map_set j (maps s (color_map (slabs s x))))"
    and "slabs s' = (slabs s)(x := (slabs s x)\<lparr>using_count := using_count (slabs s x) + 1,
           free_count := free_count (slabs s x) - 1\<rparr>)"
    and "kmalloc_cache_size s' = (kmalloc_cache_size s)(i := (kmalloc_cache_size s i)\<lparr>
           total_free := total_free (kmalloc_cache_size s i) - 1,
           total_using := total_using (kmalloc_cache_size s i) + 1\<rparr>)"
    and "slnk s' = slnk s" and "gm s' = gm s" and "ucaches s' = ucaches s" and "cache_ok s' i rest"
proof -
  let ?r = "slabs s x" and ?c = "kmalloc_cache_size s i"
  let ?m = "maps s (color_map ?r)" and ?n = "unat (color_count ?r)"
  let ?L = "cache_pool ?c # rest"
  from ok have ring: "ring (slnk s) (cache_pool ?c) rest" and sok: "\<forall>y\<in>set ?L. slab_ok s y"
    and inj: "inj_on (\<lambda>x. color_map (slabs s x)) (set ?L)"
    and tf: "total_free ?c = sum_list (map (\<lambda>x. free_count (slabs s x)) ?L)"
    and tu: "total_using ?c = sum_list (map (\<lambda>x. using_count (slabs s x)) ?L)"
    by (simp_all add: cache_ok_def Let_def)
  from sok x have "slab_ok s x" by blast
  then have "unat (free_count ?r) = card {j. j < ?n \<and> \<not> ubit ?m j}"
    by (simp add: slab_ok_def Let_def)
  with fc have "{j. j < ?n \<and> \<not> ubit ?m j} \<noteq> {}" by (metis card.empty unat_eq_zero)
  then obtain j where j: "find_color ?m ?n 0 = Some j"
    unfolding find_color_first by (cases "find (\<lambda>j. \<not> ubit ?m j) [0..<?n]") (auto simp: find_None_iff)
  from find_upt_Some [OF this [unfolded find_color_first]] have jn: "j < ?n" "\<not> ubit ?m j" by auto
  obtain s' where t: "kmalloc_take i x s = (Vaddress ?r + cs_size ?c * word_of_nat j, s')"
    "maps s' = (maps s)(color_map ?r := map_set j ?m)"
    "slabs s' = (slabs s)(x := ?r\<lparr>using_count := using_count ?r + 1, free_count := free_count ?r - 1\<rparr>)"
    "kmalloc_cache_size s' = (kmalloc_cache_size s)(i := ?c\<lparr>total_free := total_free ?c - 1, total_using := total_using ?c + 1\<rparr>)"
    "slnk s' = slnk s" "gm s' = gm s" "ucaches s' = ucaches s"
    using j by (intro that [of "snd (kmalloc_take i x s)"])
      (simp_all add: kmalloc_take_def Let_def upd_map_def upd_slab_def upd_kcache_def)
  have dis: "distinct ?L" using ring by (rule ring_distinct)
  have ok': "slab_ok s' y" if "y \<in> set ?L" for y
  proof (cases "y = x")
    case True
    from sok x have "slab_ok s x" by blast
    then show ?thesis unfolding True using jn by (rule slab_ok_take) (simp_all add: t(2,3))
  next
    case False
    then have "color_map (slabs s y) \<noteq> color_map ?r" using inj_onD [OF inj, of y x] that x by blast
    moreover from sok that have "slab_ok s y" by blast
    ultimately show ?thesis using False by (simp add: slab_ok_def t Let_def)
  qed
  have "sum_list (map (\<lambda>y. free_count (slabs s' y)) ?L) = sum_list (map (\<lambda>y. free_count (slabs s y)) ?L) + (- 1)"
    using dis x by (rule sum_list_point) (simp_all add: t(3))
  moreover have "sum_list (map (\<lambda>y. using_count (slabs s' y)) ?L) = sum_list (map (\<lambda>y. using_count (slabs s y)) ?L) + 1"
    using dis x by (rule sum_list_point) (simp_all add: t(3))
  moreover have cm: "color_map (slabs s' y) = color_map (slabs s y)" for y by (simp add: t(3))
  have "inj_on (\<lambda>x. color_map (slabs s' x)) (set ?L)" unfolding cm by (rule inj)
  moreover have "kmalloc_cache_size s' i = ?c\<lparr>total_free := total_free ?c - 1, total_using := total_using ?c + 1\<rparr>"
    by (simp add: t)
  ultimately have "cache_ok s' i rest"
    unfolding cache_ok_def Let_def using ring ok' tf tu by (simp add: t(5))
  with t jn show thesis by (intro that [of j s'])
qed

lemma kmalloc_pick:
  assumes ok: "cache_ok s i rest" and tf: "total_free (kmalloc_cache_size s i) \<noteq> 0"
  obtains x where "free_slab_walk s (cache_pool (kmalloc_cache_size s i)) (cache_pool (kmalloc_cache_size s i)) = Some x"
    and "x \<in> set (cache_pool (kmalloc_cache_size s i) # rest)" and "free_count (slabs s x) \<noteq> 0"
proof -
  let ?p = "cache_pool (kmalloc_cache_size s i)" and ?P = "\<lambda>x. free_count (slabs s x) \<noteq> 0"
  from ok have ring: "ring (slnk s) ?p rest"
    and "total_free (kmalloc_cache_size s i) = sum_list (map (\<lambda>x. free_count (slabs s x)) (?p # rest))"
    by (simp_all add: cache_ok_def Let_def)
  with tf sum_list_zero have ex: "\<exists>x\<in>set (?p # rest). ?P x" by metis
  then obtain x where x: "find ?P (?p # rest) = Some x" 
    by (cases "find ?P (?p # rest)") (auto simp: find_None_iff simp del: find.simps)
  have "free_slab_walk s ?p ?p = (case find ?P (?p # rest) of Some y \<Rightarrow> Some y | None \<Rightarrow> Some ?p)"
    by (rule fsw.search_suffix) (use ring_follows_head [OF ring] ring_distinct [OF ring] in simp_all)
  moreover from find_SomeD [OF x] have "x \<in> set (?p # rest)" "?P x" by blast+
  ultimately show thesis using x by (intro that [of x]) simp_all
qed

lemma cache_index_fits:
  assumes "cache_index sz s < 16"
  shows "sz \<le> cs_size (kmalloc_cache_size s (cache_index sz s))"
proof -
  have "\<not> cs_size (kmalloc_cache_size s ([0..<16] ! cache_index sz s)) < sz"
    using assms unfolding cache_index_def by (intro nth_length_takeWhile) simp
  with assms show ?thesis by simp
qed

lemma kmalloc_hit:
  assumes "sz \<le> 1048576" and "total_free (kmalloc_cache_size s (cache_index sz s)) \<noteq> 0"
    and "free_slab_walk s (cache_pool (kmalloc_cache_size s (cache_index sz s)))
      (cache_pool (kmalloc_cache_size s (cache_index sz s))) = Some x"
  shows "kmalloc (Suc fuel) sz s = Some (kmalloc_take (cache_index sz s) x s)"
  using assms(2,3) leD [OF assms(1)] by (simp add: Let_def)

lemma base_of_object:
  assumes "v AND mask 21 = 0" and "off < (0x200000 :: u64)"
  shows "(v + off) AND NOT (mask 21) = (v :: u64)"
proof -
  have "unat off < 2 ^ 21" using assms(2) by (simp add: word_less_nat_alt)
  then have "off = take_bit 21 off"
    by (simp add: word_unat_eq_iff unsigned_take_bit_eq take_bit_nat_eq_self)
  then have off: "bit off n \<Longrightarrow> n < 21" for n by (metis bit_take_bit_iff)
  have v: "bit v n \<Longrightarrow> 21 \<le> n" for n
    using arg_cong [OF assms(1), of "\<lambda>w. bit w n"] by (auto simp: bit_simps not_less dest: bit_imp_le_length)
  have no: "\<not> (bit v n \<and> bit off n)" for n using off [of n] v [of n] by auto
  have "v + off = v OR off"
    by (rule disjunctive_add_eq_or) (use no in \<open>auto intro!: bit_word_eqI simp: bit_simps\<close>)
  moreover have "(v OR off) AND NOT (mask 21) = v"
    by (rule bit_word_eqI) (auto simp: bit_simps not_less dest: off v)
  ultimately show ?thesis by simp
qed

lemma object_index:
  assumes "0 < (sz :: u64)" and "unat sz * j < 2 ^ 64"
  shows "unat (((v + sz * word_of_nat j) - v) div sz) = (j :: nat)"
proof -
  have "j < 2 ^ 64" using assms by (metis le_less_trans mult.commute mult_le_mono1 nat_mult_1_right
      One_nat_def Suc_leI unat_gt_0 word_neq_0_conv mult_1)
  then have "unat (word_of_nat j :: u64) = j" by (simp add: unsigned_of_nat take_bit_nat_eq_self)
  moreover have "word_of_nat j * sz div sz = word_of_nat j"
    using assms calculation by (intro word_div_mult) (simp_all add: mult.commute)
  ultimately show ?thesis by (simp add: mult.commute)
qed

section \<open>Nesting of kmalloc\<close>

text \<open>The table of object sizes is that of \<open>memory.h\<close>.\<close>

definition std_sizes :: "smem \<Rightarrow> bool" where
  "std_sizes s \<longleftrightarrow> (\<forall>i<16. cs_size (kmalloc_cache_size s i) = push_bit i 32)"

lemma alloc_frame:
  "kmalloc_cache_size (init_kernel_page p s) = kmalloc_cache_size s"
  "kmalloc_cache_size (upd_slab x f s) = kmalloc_cache_size s"
  "kmalloc_cache_size (upd_map x h s) = kmalloc_cache_size s"
  "kmalloc_cache_size (drop_page q s) = kmalloc_cache_size s"
  "kmalloc_cache_size (snd (new_page s)) = kmalloc_cache_size s"
  by (simp_all add: init_kernel_page_def upd_slab_def upd_map_def drop_page_def new_page_def split: prod.split)

lemma new_page_frame: "new_page s = (p, s') \<Longrightarrow> kmalloc_cache_size s' = kmalloc_cache_size s"
  using alloc_frame(5) [of s] by simp

lemma kmalloc_take_sizes:
  "kmalloc_take i x s = (a, s') \<Longrightarrow> cs_size (kmalloc_cache_size s' k) = cs_size (kmalloc_cache_size s k)"
  by (auto simp: kmalloc_take_def Let_def alloc_frame upd_kcache_def split: option.splits)

lemma kmalloc_create_sizes:
  assumes km: "\<And>sz s a s'. km sz s = Some (a, s') \<Longrightarrow> cs_size (kmalloc_cache_size s' k) = cs_size (kmalloc_cache_size s k)"
    and "kmalloc_create km sz s = Some (x, s')"
  shows "cs_size (kmalloc_cache_size s' k) = cs_size (kmalloc_cache_size s k)"
  using assms(2)
  by (auto simp: kmalloc_create_def Let_def alloc_frame split: prod.splits option.splits if_splits bind_splits
      dest!: km new_page_frame)

lemma kmalloc_sizes:
  "kmalloc fuel sz s = Some (a, s') \<Longrightarrow> cs_size (kmalloc_cache_size s' k) = cs_size (kmalloc_cache_size s k)"
proof (induction fuel arbitrary: sz s a s')
  case (Suc fuel)
  have create: "cs_size (kmalloc_cache_size t' k) = cs_size (kmalloc_cache_size t k)"
    if "kmalloc_create (kmalloc fuel) z t = Some (x, t')" for z t x t'
    using Suc.IH that by (rule kmalloc_create_sizes)
  from Suc.prems show ?case
    by (auto simp: Let_def upd_kcache_def split: if_splits bind_splits
        dest!: kmalloc_take_sizes [of _ _ _ _ _ k] create)
qed simp

lemma kmalloc_create_small:
  "sz \<in> set small_sizes \<Longrightarrow> kmalloc_create km sz s = kmalloc_create km' sz s"
  by (simp add: kmalloc_create_def split: prod.split option.split)

lemma kmalloc_small:
  assumes "std_sizes s" and "sz \<le> 512"
  shows "kmalloc (Suc n) sz s = kmalloc (Suc 0) sz s"
proof -
  let ?i = "cache_index sz s"
  have "cs_size (kmalloc_cache_size s 4) = 512" using assms(1) by (simp add: std_sizes_def)
  then have "?i \<le> 4"
    using assms(2) unfolding cache_index_def by (intro length_takeWhile_le) simp_all
  then consider "?i = 0" | "?i = 1" | "?i = 2" | "?i = 3" | "?i = 4" by linarith
  then have "cs_size (kmalloc_cache_size s ?i) \<in> set small_sizes"
    using assms(1) by cases (simp_all add: std_sizes_def small_sizes_def)
  from kmalloc_create_small [OF this, of "kmalloc n" s "kmalloc 0"] show ?thesis by (simp add: Let_def)
qed

lemma kmalloc_create_large:
  assumes "std_sizes s"
  shows "kmalloc_create (kmalloc (Suc n)) sz s = kmalloc_create (kmalloc (Suc 0)) sz s"
proof -
  have small: "kmalloc (Suc n) z t = kmalloc (Suc 0) z t"
    if "z \<le> 512" "\<forall>k. cs_size (kmalloc_cache_size t k) = cs_size (kmalloc_cache_size s k)" for z t
    using assms that by (intro kmalloc_small) (simp_all add: std_sizes_def)
  have bytes: "map_bytes (PAGE_2M_SIZE div sz) \<le> 512" if "sz \<in> set large_sizes"
  proof -
    have "\<forall>z\<in>set large_sizes. map_bytes (PAGE_2M_SIZE div z) \<le> 512" by code_simp
    with that show ?thesis by blast
  qed
  have slab: "sizeof_Slab \<le> 512" by (simp add: sizeof_Slab_def)
  obtain po s1 where np: "new_page s = (po, s1)" by fastforce
  then have fr: "kmalloc_cache_size s1 = kmalloc_cache_size s" by (rule new_page_frame)
  show ?thesis
  proof (cases po)
    case None
    then show ?thesis by (simp add: kmalloc_create_def np)
  next
    case (Some p)
    have first: "kmalloc (Suc n) sizeof_Slab (init_kernel_page p s1) = kmalloc (Suc 0) sizeof_Slab (init_kernel_page p s1)"
      using slab by (rule small) (simp add: alloc_frame fr)
    have second: "kmalloc (Suc n) (map_bytes (PAGE_2M_SIZE div sz)) (upd_slab x f t) =
        kmalloc (Suc 0) (map_bytes (PAGE_2M_SIZE div sz)) (upd_slab x f t)"
      if "sz \<in> set large_sizes" "kmalloc (Suc 0) sizeof_Slab (init_kernel_page p s1) = Some (x, t)" for x f t
      using bytes [OF that(1)] by (rule small) (simp add: alloc_frame kmalloc_sizes [OF that(2)] fr)
    show ?thesis
      unfolding kmalloc_create_def np Some prod.case option.case Let_def first
      by (auto intro!: Option.bind_cong simp: second simp del: kmalloc.simps)
  qed
qed



section \<open>Properties\<close>

text \<open>C11.  \<open>kmalloc\<close> on a cache with free objects, whatever the fuel: the object returned was
  free in the colour map of a slab of the first cache whose objects are large enough, it is marked
  used and nothing else is, and all counts of the cache stay exact.\<close>

theorem kmalloc_returns_free_object:
  assumes "sz \<le> 1048576" and "cache_index sz s < 16" and "cache_ok s (cache_index sz s) rest"
    and "total_free (kmalloc_cache_size s (cache_index sz s)) \<noteq> 0"
  shows "\<exists>x j s'. kmalloc (Suc fuel) sz s =
       Some (Vaddress (slabs s x) + cs_size (kmalloc_cache_size s (cache_index sz s)) * word_of_nat j, s') \<and>
     x \<in> set (cache_pool (kmalloc_cache_size s (cache_index sz s)) # rest) \<and>
     j < unat (color_count (slabs s x)) \<and> \<not> ubit (maps s (color_map (slabs s x))) j \<and>
     maps s' = (maps s)(color_map (slabs s x) := map_set j (maps s (color_map (slabs s x)))) \<and>
     cache_ok s' (cache_index sz s) rest \<and> sz \<le> cs_size (kmalloc_cache_size s (cache_index sz s))"
proof -
  obtain x where x: "free_slab_walk s (cache_pool (kmalloc_cache_size s (cache_index sz s)))
        (cache_pool (kmalloc_cache_size s (cache_index sz s))) = Some x"
      "x \<in> set (cache_pool (kmalloc_cache_size s (cache_index sz s)) # rest)" "free_count (slabs s x) \<noteq> 0"
    using assms(3,4) by (rule kmalloc_pick)
  from kmalloc_take_spec [OF assms(3) x(2,3)] obtain j s' where
    "kmalloc_take (cache_index sz s) x s =
       (Vaddress (slabs s x) + cs_size (kmalloc_cache_size s (cache_index sz s)) * word_of_nat j, s')"
    "j < unat (color_count (slabs s x))" "\<not> ubit (maps s (color_map (slabs s x))) j"
    "maps s' = (maps s)(color_map (slabs s x) := map_set j (maps s (color_map (slabs s x))))"
    "cache_ok s' (cache_index sz s) rest" by blast
  with x kmalloc_hit [OF assms(1,4) x(1), of fuel] cache_index_fits [OF assms(2)]
  show ?thesis by (intro exI [of _ x] exI [of _ j] exI [of _ s']) simp
qed

lemma kfree_find_here:
  assumes ring: "ring (slnk s) (cache_pool (kmalloc_cache_size s i)) rest"
    and x: "x \<in> set (cache_pool (kmalloc_cache_size s i) # rest)" "Vaddress (slabs s x) = base"
    and uniq: "\<forall>y\<in>set (cache_pool (kmalloc_cache_size s i) # rest). Vaddress (slabs s y) = base \<longrightarrow> y = x"
    and before: "\<forall>k\<in>set js. \<exists>ys. ring (slnk s) (cache_pool (kmalloc_cache_size s k)) ys \<and>
      (\<forall>y\<in>set (cache_pool (kmalloc_cache_size s k) # ys). Vaddress (slabs s y) \<noteq> base)"
  shows "kfree_find s base (js @ i # ks) = Some (Some (i, x))"
proof -
  have walk: "kfree_walk s base p p = (case find (\<lambda>y. Vaddress (slabs s y) = base) (p # ys) of
      Some y \<Rightarrow> Some (Some y) | None \<Rightarrow> Some None)" if "ring (slnk s) p ys" for p ys
    by (rule kfw.search_suffix) (use ring_follows_head [OF that] ring_distinct [OF that] in simp_all)
  let ?p = "cache_pool (kmalloc_cache_size s i)"
  obtain y where y: "find (\<lambda>y. Vaddress (slabs s y) = base) (?p # rest) = Some y"
    using x by (cases "find (\<lambda>y. Vaddress (slabs s y) = base) (?p # rest)")
      (auto simp: find_None_iff simp del: find.simps)
  with find_SomeD [OF y] uniq have "y = x" by blast
  with walk [OF ring] y have here: "kfree_walk s base ?p ?p = Some (Some x)" by simp
  show ?thesis using before
  proof (induction js)
    case Nil
    then show ?case by (simp add: here)
  next
    case (Cons k js)
    from Cons.prems obtain ys where ys: "ring (slnk s) (cache_pool (kmalloc_cache_size s k)) ys"
      "\<forall>y\<in>set (cache_pool (kmalloc_cache_size s k) # ys). Vaddress (slabs s y) \<noteq> base" by auto
    then have "find (\<lambda>y. Vaddress (slabs s y) = base) (cache_pool (kmalloc_cache_size s k) # ys) = None"
      unfolding find_None_iff by blast
    with walk [OF ys(1)] Cons show ?case by simp
  qed
qed

text \<open>
  The layout \<open>kfree\<close> relies on to find the slab of an object: slabs lie at distinct 2 MB
  boundaries, their objects fit into the page, and no slab of an earlier cache lies in such a page.
\<close>

definition layout_ok :: "smem \<Rightarrow> nat \<Rightarrow> addr list \<Rightarrow> bool" where
  "layout_ok s i rest \<longleftrightarrow>
     (let c = kmalloc_cache_size s i; L = cache_pool c # rest
      in 0 < cs_size c \<and> inj_on (\<lambda>x. Vaddress (slabs s x)) (set L) \<and>
         (\<forall>x\<in>set L. Vaddress (slabs s x) AND mask 21 = 0 \<and>
            unat (cs_size c) * unat (color_count (slabs s x)) \<le> 2 ^ 21) \<and>
         (\<forall>k<i. \<exists>ys. ring (slnk s) (cache_pool (kmalloc_cache_size s k)) ys \<and>
            (\<forall>y\<in>set (cache_pool (kmalloc_cache_size s k) # ys). \<forall>x\<in>set L.
               Vaddress (slabs s y) \<noteq> Vaddress (slabs s x))))"

lemma object_offset:
  assumes "unat (sz :: u64) * n \<le> 2 ^ 21" and "j < n" and "0 < sz"
  shows "sz * word_of_nat j < 0x200000" and "unat sz * j < 2 ^ 64"
proof -
  have p: "0 < unat sz" using assms(3) by (simp add: unat_gt_0 word_neq_0_conv)
  with assms(2) have "unat sz * j < unat sz * n" by simp
  with assms(1) have lt: "unat sz * j < 2 ^ 21" by linarith
  then show "unat sz * j < 2 ^ 64" by simp
  from p have "j \<le> unat sz * j" by simp
  then have "j < 2 ^ 21" using lt by (rule le_less_trans)
  then have "j < 2 ^ 64" by simp
  then have "unat (word_of_nat j :: u64) = j" by (simp add: unsigned_of_nat take_bit_nat_eq_self)
  with lt have "unat (sz * word_of_nat j) = unat sz * j"
    by (subst unat_mult_lem [THEN iffD1]) simp_all
  with lt show "sz * word_of_nat j < 0x200000" by (simp add: word_less_nat_alt)
qed

text \<open>C12.  \<open>kfree\<close> undoes \<open>kmalloc\<close>: freeing the address just returned by an allocation from
  a cache with free objects restores the whole allocator state (colour map, slab counts, cache
  totals), unless the slab was completely free before and could be returned to the page allocator.\<close>

theorem kfree_undoes_kmalloc:
  assumes "sz \<le> 1048576" and "cache_index sz s < 16" and "cache_ok s (cache_index sz s) rest"
    and "total_free (kmalloc_cache_size s (cache_index sz s)) \<noteq> 0"
    and "layout_ok s (cache_index sz s) rest"
    and "\<forall>x\<in>set rest. using_count (slabs s x) \<noteq> 0"
  shows "\<exists>a s'. kmalloc (Suc fuel) sz s = Some (a, s') \<and> kfree (Suc fuel') a s' = Some (1, s)"
proof -
  let ?i = "cache_index sz s" and ?c = "kmalloc_cache_size s (cache_index sz s)"
  let ?L = "cache_pool ?c # rest"
  obtain x where x: "free_slab_walk s (cache_pool ?c) (cache_pool ?c) = Some x"
      "x \<in> set ?L" "free_count (slabs s x) \<noteq> 0"
    using assms(3,4) by (rule kmalloc_pick)
  let ?r = "slabs s x"
  obtain j s' where t: "kmalloc_take ?i x s = (Vaddress ?r + cs_size ?c * word_of_nat j, s')"
    "j < unat (color_count ?r)" "\<not> ubit (maps s (color_map ?r)) j"
    "maps s' = (maps s)(color_map ?r := map_set j (maps s (color_map ?r)))"
    "slabs s' = (slabs s)(x := ?r\<lparr>using_count := using_count ?r + 1, free_count := free_count ?r - 1\<rparr>)"
    "kmalloc_cache_size s' = (kmalloc_cache_size s)(?i := ?c\<lparr>total_free := total_free ?c - 1,
       total_using := total_using ?c + 1\<rparr>)"
    "slnk s' = slnk s" "gm s' = gm s" "ucaches s' = ucaches s" "cache_ok s' ?i rest"
    using assms(3) x(2,3) by (rule kmalloc_take_spec)
  let ?a = "Vaddress ?r + cs_size ?c * word_of_nat j"
  from assms(5) x(2) have lay: "0 < cs_size ?c" "inj_on (\<lambda>x. Vaddress (slabs s x)) (set ?L)"
    "Vaddress ?r AND mask 21 = 0" "unat (cs_size ?c) * unat (color_count ?r) \<le> 2 ^ 21"
    unfolding layout_ok_def Let_def by blast+
  note off = object_offset [OF lay(4) t(2) lay(1)]
  have base: "?a AND NOT 0x1fffff = Vaddress ?r"
    using base_of_object [OF lay(3) off(1)] by (simp add: mask_eq_exp_minus_1)
  have index: "unat ((?a - Vaddress ?r) div cs_size ?c) = j" using lay(1) off(2) by (rule object_index)
  have V: "Vaddress (slabs s' y) = Vaddress (slabs s y)" for y by (simp add: t(5))
  have P: "cache_pool (kmalloc_cache_size s' k) = cache_pool (kmalloc_cache_size s k)" for k by (simp add: t(6))
  have ring: "ring (slnk s') (cache_pool (kmalloc_cache_size s' ?i)) rest"
    using assms(3) unfolding cache_ok_def Let_def t(7) P by blast
  have "[0..<16::nat] = [0..<?i] @ ?i # [Suc ?i..<16]"
    using assms(2) upt_add_eq_append [of 0 ?i "16 - ?i"] by (simp add: upt_conv_Cons)
  moreover have "kfree_find s' (Vaddress ?r) ([0..<?i] @ ?i # [Suc ?i..<16]) = Some (Some (?i, x))"
  proof (rule kfree_find_here [OF ring])
    show "x \<in> set (cache_pool (kmalloc_cache_size s' ?i) # rest)" using x(2) by (simp add: P)
    show "\<forall>y\<in>set (cache_pool (kmalloc_cache_size s' ?i) # rest).
        Vaddress (slabs s' y) = Vaddress ?r \<longrightarrow> y = x"
      unfolding V P using inj_onD [OF lay(2)] x(2) by blast
    show "\<forall>k\<in>set [0..<?i]. \<exists>ys. ring (slnk s') (cache_pool (kmalloc_cache_size s' k)) ys \<and>
        (\<forall>y\<in>set (cache_pool (kmalloc_cache_size s' k) # ys). Vaddress (slabs s' y) \<noteq> Vaddress ?r)"
      unfolding V P t(7) using assms(5) x(2) unfolding layout_ok_def Let_def by (metis atLeastLessThan_iff set_upt)
  qed (simp add: V)
  ultimately have find: "kfree_find s' (?a AND NOT 0x1fffff) [0..<16] = Some (Some (?i, x))"
    using base by simp
  have keep: "\<not> (using_count ?r = 0 \<and> cache_pool ?c \<noteq> x)" using assms(6) x(2) by auto
  have cm: "color_map (slabs s' x) = color_map ?r" "color_count (slabs s' x) = color_count ?r"
    "Vaddress (slabs s' x) = Vaddress ?r" "cs_size (kmalloc_cache_size s' ?i) = cs_size ?c"
    by (simp_all add: t(5,6))
  have back_to_s: "upd_kcache ?i (\<lambda>c. c\<lparr>total_free := total_free c + 1, total_using := total_using c - 1\<rparr>)
      (upd_slab x (\<lambda>x. x\<lparr>free_count := free_count x + 1, using_count := using_count x - 1\<rparr>)
        (upd_map (color_map ?r) (map_flip j) s')) = s"
    using t(4-9) map_flip_set [OF t(3)]
    by (intro smem.equality) (simp_all add: upd_kcache_def upd_slab_def upd_map_def)
  have "kfree (Suc fuel') ?a s' = Some (1, s)"
    unfolding kfree.simps find Option.bind.bind_lunit option.case prod.case Let_def cm index back_to_s
    using keep by auto
  then show ?thesis using kmalloc_hit [OF assms(1,4) x(1), of fuel] t(1) by auto
qed

text \<open>
  A concrete allocator with the sixteen caches of \<open>memory.h\<close>: every cache has one slab at
  \<open>0x1000000 + i * 2 MB\<close> whose first object is taken.
\<close>

definition demo_smem :: smem where
  "demo_smem = \<lparr>gm = demo_gmd,
     slnk = \<lparr>nxt = (\<lambda>p. p), prv = (\<lambda>p. p)\<rparr>,
     slabs = (\<lambda>a. \<lparr>sl_page = Some 0, using_count = 1, free_count = 1, Vaddress = push_bit 21 a,
       color_length = 8, color_count = 2, color_map = a\<rparr>),
     maps = (\<lambda>_ _. - 3),
     kmalloc_cache_size = (\<lambda>i. (kmalloc_caches0 i)\<lparr>total_using := 1, total_free := 1,
       cache_pool := word_of_nat i + 8\<rparr>),
     ucaches = (\<lambda>_. kmalloc_caches0 0)\<rparr>"

lemma demo_index: "cache_index 100 demo_smem = 2"
  by code_simp

lemma demo_cache_ok: "cache_ok demo_smem 2 []"
proof -
  have u: "ubit (\<lambda>_. - 3) 0" "\<not> ubit (\<lambda>_. - 3) 1" by (simp_all add: ubit_def)
  then have "{j. j < 2 \<and> \<not> ubit (\<lambda>_. - 3) j} = {1}" "{j. j < 2 \<and> ubit (\<lambda>_. - 3) j} = {0}"
    by (auto simp: less_2_cases_iff)
  then show ?thesis
    by (simp add: cache_ok_def ring_def slab_ok_def demo_smem_def kmalloc_caches0_def)
qed

lemma demo_layout: "layout_ok demo_smem 2 []"
proof -
  have "(20971520 :: u64) AND mask 21 = 0" by code_simp
  moreover have "\<exists>ys. ring (slnk demo_smem) (cache_pool (kmalloc_cache_size demo_smem k)) ys \<and>
      (\<forall>y\<in>set (cache_pool (kmalloc_cache_size demo_smem k) # ys).
         Vaddress (slabs demo_smem y) \<noteq> Vaddress (slabs demo_smem (cache_pool (kmalloc_cache_size demo_smem 2))))"
    if "k < 2" for k
    using that by (intro exI [of _ "[]"]) (auto simp: ring_def demo_smem_def less_2_cases_iff)
  ultimately show ?thesis
    by (simp add: layout_ok_def Let_def) (simp add: demo_smem_def kmalloc_caches0_def)
qed


theorem kmalloc_returns_free_object_witness:
  "\<exists>x j s'. kmalloc 1 100 demo_smem =
       Some (Vaddress (slabs demo_smem x) + cs_size (kmalloc_cache_size demo_smem 2) * word_of_nat j, s') \<and>
     x = 10 \<and> j = 1 \<and> cache_ok s' 2 []"
proof -
  have "\<exists>x j s'. kmalloc (Suc 0) 100 demo_smem =
       Some (Vaddress (slabs demo_smem x) + cs_size (kmalloc_cache_size demo_smem (cache_index 100 demo_smem)) * word_of_nat j, s') \<and>
     x \<in> set (cache_pool (kmalloc_cache_size demo_smem (cache_index 100 demo_smem)) # []) \<and>
     j < unat (color_count (slabs demo_smem x)) \<and> \<not> ubit (maps demo_smem (color_map (slabs demo_smem x))) j \<and>
     maps s' = (maps demo_smem)(color_map (slabs demo_smem x) := map_set j (maps demo_smem (color_map (slabs demo_smem x)))) \<and>
     cache_ok s' (cache_index 100 demo_smem) [] \<and> 100 \<le> cs_size (kmalloc_cache_size demo_smem (cache_index 100 demo_smem))"
    by (rule kmalloc_returns_free_object)
      (simp_all add: demo_index demo_cache_ok, simp_all add: demo_smem_def)
  then obtain x j s' where k: "kmalloc (Suc 0) 100 demo_smem =
       Some (Vaddress (slabs demo_smem x) + cs_size (kmalloc_cache_size demo_smem 2) * word_of_nat j, s')"
    "x = cache_pool (kmalloc_cache_size demo_smem 2)" "j < unat (color_count (slabs demo_smem x))"
    "\<not> ubit (maps demo_smem (color_map (slabs demo_smem x))) j" "cache_ok s' 2 []"
    unfolding demo_index by auto
  have "x = 10" using k(2) by (simp add: demo_smem_def)
  moreover have "j = 1"
    using k(3,4) by (auto simp: demo_smem_def ubit_def less_2_cases_iff)
  ultimately show ?thesis using k(1,5) by auto
qed

theorem kfree_undoes_kmalloc_witness:
  "\<exists>a s'. kmalloc 1 100 demo_smem = Some (a, s') \<and> kfree 1 a s' = Some (1, demo_smem)"
proof -
  have "\<exists>a s'. kmalloc (Suc 0) 100 demo_smem = Some (a, s') \<and> kfree (Suc 0) a s' = Some (1, demo_smem)"
    by (rule kfree_undoes_kmalloc [where rest = "[]"])
      (simp_all add: demo_index demo_cache_ok demo_layout, simp add: demo_smem_def)
  then show ?thesis by simp
qed

end
