(* ===== verification/Errno.thy ===== *)
theory Errno
  imports Prelude
begin

text \<open>
  The error numbers of \<open>src/sys.h\<close> that the modelled code returns, negated, as \<open>long\<close>
  results.  They are those of this kernel, not those of Linux.
\<close>

definition EAGAIN :: u64 where "EAGAIN = 6"
definition EBADF :: u64 where "EBADF = 8"
definition ECHILD :: u64 where "ECHILD = 12"
definition EFAULT :: u64 where "EFAULT = 21"
definition EINVAL :: u64 where "EINVAL = 28"
definition EIO :: u64 where "EIO = 29"
definition EISDIR :: u64 where "EISDIR = 31"
definition EMFILE :: u64 where "EMFILE = 33"
definition ENAMETOOLONG :: u64 where "ENAMETOOLONG = 37"
definition ENOENT :: u64 where "ENOENT = 45"
definition ENOMEM :: u64 where "ENOMEM = 49"
definition ENOSPC :: u64 where "ENOSPC = 52"
definition ENOSYS :: u64 where "ENOSYS = 55"
definition ENOTDIR :: u64 where "ENOTDIR = 57"
definition EOVERFLOW :: u64 where "EOVERFLOW = 65"

lemmas errnos = EBADF_def EFAULT_def EINVAL_def EIO_def EISDIR_def EMFILE_def ENAMETOOLONG_def
  ENOENT_def ENOMEM_def ENOSPC_def ENOTDIR_def EOVERFLOW_def

text \<open>A result the callers test with \<open>< 0\<close>.\<close>

lemma errno_negative:
  "e \<in> {EBADF, EFAULT, EINVAL, EIO, EISDIR, EMFILE, ENAMETOOLONG, ENOENT, ENOMEM, ENOSPC, ENOTDIR, EOVERFLOW} \<Longrightarrow>
   sint (- e) < 0"
  by (elim insertE) (simp_all add: errnos)

end
