(* ===== verification/Paging.thy ===== *)
theory Paging
  imports Slab Errno
begin

unbundle bit_operations_syntax

text \<open>
  The page tables of \<open>src/memory.c\<close>: \<open>pagetable_init\<close>, which maps all physical memory into
  the kernel half, and \<open>do_brk\<close>, which maps pages of the user heap.  \<open>ptm\<close> is the memory
  that holds page tables, by virtual address.  A null result of \<open>kmalloc\<close> is passed to
  \<open>memset\<close> by the code; it is a fault (\<^const>\<open>None\<close>) here.
\<close>

record vmem =
  sm :: smem
  ptm :: "addr \<Rightarrow> u64"

definition PAGE_KERNEL_GDT :: u64 where "PAGE_KERNEL_GDT = 3"
definition PAGE_KERNEL_Dir :: u64 where "PAGE_KERNEL_Dir = 3"
definition PAGE_KERNEL_Page :: u64 where "PAGE_KERNEL_Page = 0x83"
definition PAGE_USER_GDT :: u64 where "PAGE_USER_GDT = 7"
definition PAGE_USER_Dir :: u64 where "PAGE_USER_Dir = 7"
definition PAGE_USER_Page :: u64 where "PAGE_USER_Page = 0x87"


text \<open>The slot of a virtual address in the table at the physical address \<open>tbl\<close>.\<close>

definition pt_slot :: "u64 \<Rightarrow> nat \<Rightarrow> addr \<Rightarrow> addr" where
  "pt_slot tbl shift va = Phy_To_Virt (tbl AND NOT 0xfff) + (drop_bit shift va AND 0x1ff) * 8"

definition zero_table :: "addr \<Rightarrow> (addr \<Rightarrow> u64) \<Rightarrow> addr \<Rightarrow> u64" where
  "zero_table v m = fold (\<lambda>k m. m(v + 8 * word_of_nat k := 0)) [0..<512] m"

text \<open>\<open>if(*tmp == 0) { virtual = kmalloc(PAGE_4K_SIZE,0); memset(..); set_mpl4t(tmp, mk_mpl4t(..)); }\<close>\<close>

definition pt_fill :: "addr \<Rightarrow> u64 \<Rightarrow> vmem \<Rightarrow> vmem option" where
  "pt_fill slot attr s =
     (if ptm s slot \<noteq> 0 then Some s
      else do {
        (v, m) \<leftarrow> kmalloc 2 0x1000 (sm s);
        if v = NULL then None
        else Some (s\<lparr>sm := m, ptm := (zero_table v (ptm s))(slot := Virt_To_Phy v OR attr)\<rparr>)
      })"

definition map_kernel_page :: "u64 \<Rightarrow> nat \<Rightarrow> vmem \<Rightarrow> vmem option" where
  "map_kernel_page cr3 p s = do {
     let phys = page_phys (sm s) p;
     let va = Phy_To_Virt phys;
     let t1 = pt_slot cr3 39 va;
     s \<leftarrow> pt_fill t1 PAGE_KERNEL_GDT s;
     let t2 = pt_slot (ptm s t1) 30 va;
     s \<leftarrow> pt_fill t2 PAGE_KERNEL_Dir s;
     let t3 = pt_slot (ptm s t2) 21 va;
     Some (s\<lparr>ptm := (ptm s)(t3 := phys OR PAGE_KERNEL_Page)\<rparr>)
   }"

fun map_kernel_pages :: "u64 \<Rightarrow> nat list \<Rightarrow> vmem \<Rightarrow> vmem option" where
  "map_kernel_pages cr3 [] s = Some s"
| "map_kernel_pages cr3 (p # ps) s = do { s \<leftarrow> map_kernel_page cr3 p s; map_kernel_pages cr3 ps s }"

fun map_zones :: "u64 \<Rightarrow> nat list \<Rightarrow> vmem \<Rightarrow> vmem option" where
  "map_zones cr3 [] s = Some s"
| "map_zones cr3 (i # js) s =
     (let g = gm (sm s); z = zones_struct g i
      in if ZONE_UNMAPED_INDEX g \<noteq> 0 \<and> int i = ZONE_UNMAPED_INDEX g then Some s
         else do {
           s \<leftarrow> map_kernel_pages cr3 [pages_group z..<pages_group z + unat (z_pages_length z)] s;
           map_zones cr3 js s
         })"

definition pagetable_init :: "u64 \<Rightarrow> vmem \<Rightarrow> vmem option" where
  "pagetable_init cr3 s = map_zones cr3 [0..<zones_size (gm (sm s))] s"

text \<open>One turn of the loop of \<open>do_brk\<close>; \<open>Some (False, s)\<close> is the return of \<open>-ENOMEM\<close>.\<close>

definition brk_page :: "u64 \<Rightarrow> addr \<Rightarrow> vmem \<Rightarrow> (bool \<times> vmem) option" where
  "brk_page pgd i s = do {
     let t1 = pt_slot pgd 39 i;
     s \<leftarrow> pt_fill t1 PAGE_USER_GDT s;
     let t2 = pt_slot (ptm s t1) 30 i;
     s \<leftarrow> pt_fill t2 PAGE_USER_Dir s;
     let t3 = pt_slot (ptm s t2) 21 i;
     if ptm s t3 \<noteq> 0 then Some (True, s)
     else case alloc_pages ZONE_NORMAL 1 PG_PTable_Maped (gm (sm s)) of
            (None, g) \<Rightarrow> Some (False, s\<lparr>sm := (sm s)\<lparr>gm := g\<rparr>\<rparr>)
          | (Some p, g) \<Rightarrow>
              Some (True, s\<lparr>sm := (sm s)\<lparr>gm := g\<rparr>,
                ptm := (ptm s)(t3 := PHY_address (pages_struct g p) OR PAGE_USER_Page)\<rparr>)
   }"

partial_function (option) brk_loop :: "u64 \<Rightarrow> addr \<Rightarrow> addr \<Rightarrow> vmem \<Rightarrow> ((bool \<times> addr) \<times> vmem) option" where
  "brk_loop pgd lim i s =
     (if i < lim
      then do {
        (ok, s) \<leftarrow> brk_page pgd i s;
        if ok then brk_loop pgd lim (i + PAGE_2M_SIZE) s else Some ((False, i), s)
      }
      else Some ((True, i), s))"

text \<open>The result and the new \<open>end_brk\<close> of the address space.\<close>

definition do_brk :: "u64 \<Rightarrow> addr \<Rightarrow> u64 \<Rightarrow> u64 \<Rightarrow> vmem \<Rightarrow> (u64 \<times> u64 \<times> vmem) option" where
  "do_brk pgd addr len end_brk s = do {
     ((ok, i), s) \<leftarrow> brk_loop pgd (addr + len) addr s;
     if ok then Some (i, i, s) else Some (- ENOMEM, end_brk, s)
   }"

section \<open>One page of the heap\<close>

text \<open>The walk the processor makes: the leaf entry of a virtual address, or 0.\<close>

definition pt_leaf :: "(addr \<Rightarrow> u64) \<Rightarrow> u64 \<Rightarrow> addr \<Rightarrow> u64" where
  "pt_leaf m pgd va =
     (let e1 = m (pt_slot pgd 39 va)
      in if e1 = 0 then 0
         else let e2 = m (pt_slot e1 30 va)
              in if e2 = 0 then 0 else m (pt_slot e2 21 va))"

text \<open>A turn of \<open>do_brk\<close> below existing upper tables maps the page: when it does not
  report \<open>-ENOMEM\<close> the address translates afterwards, only the leaf slot of that address is
  written, and a page that was mapped already is left exactly as it was.\<close>

theorem brk_page_maps:
  assumes "ptm s (pt_slot pgd 39 i) = e1" "e1 \<noteq> 0" "ptm s (pt_slot e1 30 i) = e2" "e2 \<noteq> 0"
    and "pt_slot e2 21 i \<noteq> pt_slot pgd 39 i" "pt_slot e2 21 i \<noteq> pt_slot e1 30 i"
  shows "\<exists>s' ok. brk_page pgd i s = Some (ok, s') \<and> (ok \<longrightarrow> pt_leaf (ptm s') pgd i \<noteq> 0) \<and>
     (\<forall>a. a \<noteq> pt_slot e2 21 i \<longrightarrow> ptm s' a = ptm s a) \<and>
     (pt_leaf (ptm s) pgd i \<noteq> 0 \<longrightarrow> s' = s \<and> ok)"
proof (cases "ptm s (pt_slot e2 21 i) = 0")
  case False
  with assms show ?thesis by (auto simp: brk_page_def pt_fill_def pt_leaf_def Let_def)
next
  case True
  obtain po g where a: "alloc_pages ZONE_NORMAL 1 PG_PTable_Maped (gm (sm s)) = (po, g)" by fastforce
  have or: "w OR PAGE_USER_Page \<noteq> 0" for w
  proof
    assume "w OR PAGE_USER_Page = 0"
    then have "bit (w OR PAGE_USER_Page) 0 = bit (0 :: u64) 0" by simp
    then show False by (simp add: PAGE_USER_Page_def bit_simps)
  qed
  show ?thesis
  proof (cases po)
    case None
    with a True assms show ?thesis by (auto simp: brk_page_def pt_fill_def pt_leaf_def Let_def)
  next
    case (Some p)
    with a True assms or show ?thesis by (auto simp: brk_page_def pt_fill_def pt_leaf_def Let_def)
  qed
qed

definition demo_vmem :: vmem where
  "demo_vmem = \<lparr>sm = demo_smem, ptm = (\<lambda>_. 0)
     (Phy_To_Virt 0x1000 := 0x2007, Phy_To_Virt 0x2000 := 0x3007)\<rparr>"

theorem brk_page_maps_witness:
  "\<exists>s'. brk_page 0x1000 0x200000 demo_vmem = Some (True, s') \<and> pt_leaf (ptm s') 0x1000 0x200000 \<noteq> 0"
proof -
  have "\<exists>s' ok. brk_page 0x1000 0x200000 demo_vmem = Some (ok, s') \<and>
     (ok \<longrightarrow> pt_leaf (ptm s') 0x1000 0x200000 \<noteq> 0) \<and>
     (\<forall>a. a \<noteq> pt_slot 0x3007 21 0x200000 \<longrightarrow> ptm s' a = ptm demo_vmem a) \<and>
     (pt_leaf (ptm demo_vmem) 0x1000 0x200000 \<noteq> 0 \<longrightarrow> s' = demo_vmem \<and> ok)"
  proof (rule brk_page_maps [of demo_vmem "0x1000" "0x200000" "0x2007" "0x3007"])
    show "ptm demo_vmem (pt_slot 0x1000 39 0x200000) = 0x2007" by code_simp
    show "(0x2007 :: u64) \<noteq> 0" "(0x3007 :: u64) \<noteq> 0" by simp_all
    show "ptm demo_vmem (pt_slot 0x2007 30 0x200000) = 0x3007" by code_simp
    show "pt_slot 0x3007 21 0x200000 \<noteq> pt_slot 0x1000 39 0x200000"
      "pt_slot 0x3007 21 0x200000 \<noteq> pt_slot 0x2007 30 0x200000" by code_simp+
  qed
  moreover have "map_option fst (brk_page 0x1000 0x200000 demo_vmem) = Some True" by code_simp
  ultimately show ?thesis by auto
qed

end
