(* ===== verification/Console.thy ===== *)
theory Console
  imports Printk Paging
begin

unbundle bit_operations_syntax

text \<open>
  The text console of \<open>src/printk.c\<close>: glyphs in the frame buffer, the cursor of
  \<open>struct position\<close>, \<open>color_printk\<close>, and the mapping of the frame buffer.  \<open>pix\<close> is the
  memory addressed through \<open>Pos.FB_addr\<close>, by pixel index; an index outside the screen is memory
  behind or before the buffer.  The glyphs of \<open>src/font.h\<close> are a table given to the functions.
  Resolutions and character sizes are positive, so the quotients of the code are those of
  \<open>div\<close>.  The lock is that of \<open>Spinlock\<close>; with it held one call runs alone.
\<close>

type_synonym font = "nat \<Rightarrow> nat \<Rightarrow> u8"

record position =
  XResolution :: int
  YResolution :: int
  XPosition :: int
  YPosition :: int
  XCharSize :: int
  YCharSize :: int
  FB_addr :: addr
  FB_length :: u64
  pix :: "int \<Rightarrow> u32"

section \<open>Glyphs\<close>

definition glyph_bit :: "font \<Rightarrow> nat \<Rightarrow> nat \<Rightarrow> nat \<Rightarrow> bool" where
  "glyph_bit font ch i j = bit (font ch i) (7 - j)"

definition put_row :: "font \<Rightarrow> u32 \<Rightarrow> u32 \<Rightarrow> nat \<Rightarrow> nat \<Rightarrow> int \<Rightarrow> (int \<Rightarrow> u32) \<Rightarrow> int \<Rightarrow> u32" where
  "put_row font FR BK ch i a fb =
     fold (\<lambda>j fb. fb(a + int j := if glyph_bit font ch i j then FR else BK)) [0..<8] fb"

definition putchar :: "font \<Rightarrow> int \<Rightarrow> int \<Rightarrow> int \<Rightarrow> u32 \<Rightarrow> u32 \<Rightarrow> char \<Rightarrow> (int \<Rightarrow> u32) \<Rightarrow> int \<Rightarrow> u32" where
  "putchar font Xsize x y FR BK ch fb =
     fold (\<lambda>i fb. put_row font FR BK (of_char ch) i (Xsize * (y + int i) + x) fb) [0..<16] fb"

section \<open>\<open>color_printk\<close>\<close>

definition put_cell :: "font \<Rightarrow> u32 \<Rightarrow> u32 \<Rightarrow> char \<Rightarrow> position \<Rightarrow> position" where
  "put_cell font FR BK ch p =
     p\<lparr>pix := putchar font (XResolution p) (XPosition p * XCharSize p) (YPosition p * YCharSize p) FR BK ch (pix p)\<rparr>"

text \<open>The two tests at the end of the loop body.\<close>

definition wrap_cursor :: "position \<Rightarrow> position" where
  "wrap_cursor p =
     (let p = (if XPosition p \<ge> XResolution p div XCharSize p
               then p\<lparr>YPosition := YPosition p + 1, XPosition := 0\<rparr> else p)
      in if YPosition p \<ge> YResolution p div YCharSize p then p\<lparr>YPosition := 0\<rparr> else p)"

definition newline :: "position \<Rightarrow> position" where
  "newline p = p\<lparr>YPosition := YPosition p + 1, XPosition := 0\<rparr>"

definition backspace :: "font \<Rightarrow> u32 \<Rightarrow> u32 \<Rightarrow> position \<Rightarrow> position" where
  "backspace font FR BK p =
     (let p = p\<lparr>XPosition := XPosition p - 1\<rparr>;
          p = (if XPosition p < 0 then
                 let p = p\<lparr>XPosition := (XResolution p div XCharSize p - 1) * XCharSize p,
                           YPosition := YPosition p - 1\<rparr>
                 in if YPosition p < 0
                    then p\<lparr>YPosition := (YResolution p div YCharSize p - 1) * YCharSize p\<rparr> else p
               else p)
      in put_cell font FR BK CHR '' '' p)"

definition advance :: "font \<Rightarrow> u32 \<Rightarrow> u32 \<Rightarrow> char \<Rightarrow> position \<Rightarrow> position" where
  "advance font FR BK ch p =
     (let p = put_cell font FR BK ch p in p\<lparr>XPosition := XPosition p + 1\<rparr>)"

text \<open>The turns of the loop at \<open>Label_tab\<close>; \<open>line\<close> of them remain.\<close>

fun tab_loop :: "font \<Rightarrow> u32 \<Rightarrow> u32 \<Rightarrow> nat \<Rightarrow> position \<Rightarrow> position" where
  "tab_loop font FR BK 0 p = p"
| "tab_loop font FR BK (Suc line) p =
     tab_loop font FR BK line (wrap_cursor (advance font FR BK CHR '' '' p))"

definition tab_width :: "int \<Rightarrow> nat" where
  "tab_width x = nat (((x + 8) AND NOT 7) - x)"

definition put_char :: "font \<Rightarrow> u32 \<Rightarrow> u32 \<Rightarrow> char \<Rightarrow> position \<Rightarrow> position" where
  "put_char font FR BK ch p =
     (if ch = CHR 0x0A then wrap_cursor (newline p)
      else if ch = CHR 0x08 then wrap_cursor (backspace font FR BK p)
      else if ch = CHR 0x09 then tab_loop font FR BK (tab_width (XPosition p)) p
      else wrap_cursor (advance font FR BK ch p))"

definition put_text :: "font \<Rightarrow> u32 \<Rightarrow> u32 \<Rightarrow> string \<Rightarrow> position \<Rightarrow> position" where
  "put_text font FR BK cs p = fold (put_char font FR BK) cs p"

definition color_printk ::
  "font \<Rightarrow> u32 \<Rightarrow> u32 \<Rightarrow> string \<Rightarrow> u64 list \<Rightarrow> mem \<Rightarrow> position \<Rightarrow> (int \<times> mem \<times> position) option" where
  "color_printk font FR BK fmt args m p = do {
     (i, cs, m) \<leftarrow> vsprintf fmt args m;
     Some (i, m, put_text font FR BK cs p)
   }"

definition position_init :: "position \<Rightarrow> position" where
  "position_init p = p\<lparr>XResolution := 1440, YResolution := 900, XPosition := 0, YPosition := 0,
     XCharSize := 8, YCharSize := 16, FB_addr := 0xffff800003000000, FB_length := 1440 * 900 * 4\<rparr>"

section \<open>Mapping the frame buffer\<close>

definition PAGE_PWT :: u64 where "PAGE_PWT = 8"
definition PAGE_PCD :: u64 where "PAGE_PCD = 0x10"

text \<open>A missing table is allocated; unlike \<^const>\<open>pt_fill\<close> the code neither clears it nor checks
  the result of \<open>kmalloc\<close>.\<close>

definition fb_fill :: "addr \<Rightarrow> u64 \<Rightarrow> vmem \<Rightarrow> vmem option" where
  "fb_fill slot attr s =
     (if ptm s slot \<noteq> 0 then Some s
      else do {
        (v, m) \<leftarrow> kmalloc 2 0x1000 (sm s);
        Some (s\<lparr>sm := m, ptm := (ptm s)(slot := Virt_To_Phy v OR attr)\<rparr>)
      })"

definition fb_map_page :: "addr \<Rightarrow> u64 \<Rightarrow> u64 \<Rightarrow> vmem \<Rightarrow> vmem" where
  "fb_map_page t2 fb i s =
     s\<lparr>ptm := (ptm s)(pt_slot (ptm s t2) 21 (fb + i) :=
         (0xe0000000 + i) OR (PAGE_KERNEL_Page OR PAGE_PWT OR PAGE_PCD))\<rparr>"

definition frame_buffer_init :: "u64 \<Rightarrow> position \<Rightarrow> vmem \<Rightarrow> (position \<times> vmem) option" where
  "frame_buffer_init cr3 p s = do {
     let fb = Phy_To_Virt 0xe0000000;
     let t1 = pt_slot cr3 39 fb;
     s \<leftarrow> fb_fill t1 PAGE_KERNEL_GDT s;
     let t2 = pt_slot (ptm s t1) 30 fb;
     s \<leftarrow> fb_fill t2 PAGE_KERNEL_Dir s;
     let s = fold (\<lambda>k. fb_map_page t2 fb (word_of_nat k * PAGE_2M_SIZE))
               [0..<(unat (FB_length p) + 0x1fffff) div 0x200000] s;
     Some (p\<lparr>FB_addr := fb\<rparr>, s)
   }"

section \<open>The cursor stays on the screen\<close>

definition screen_ok :: "position \<Rightarrow> bool" where
  "screen_ok p \<longleftrightarrow> 0 < XCharSize p \<and> 0 < YCharSize p \<and>
     0 < XResolution p div XCharSize p \<and> 0 < YResolution p div YCharSize p"

definition cursor_ok :: "position \<Rightarrow> bool" where
  "cursor_ok p \<longleftrightarrow> screen_ok p \<and> 0 \<le> XPosition p \<and> XPosition p < XResolution p div XCharSize p \<and>
     0 \<le> YPosition p \<and> YPosition p < YResolution p div YCharSize p"

lemma put_cell_simps [simp]:
  "XResolution (put_cell f FR BK c p) = XResolution p" "YResolution (put_cell f FR BK c p) = YResolution p"
  "XPosition (put_cell f FR BK c p) = XPosition p" "YPosition (put_cell f FR BK c p) = YPosition p"
  "XCharSize (put_cell f FR BK c p) = XCharSize p" "YCharSize (put_cell f FR BK c p) = YCharSize p"
  by (simp_all add: put_cell_def)

lemma wrap_cursor_simps [simp]:
  "XResolution (wrap_cursor p) = XResolution p" "YResolution (wrap_cursor p) = YResolution p"
  "XCharSize (wrap_cursor p) = XCharSize p" "YCharSize (wrap_cursor p) = YCharSize p"
  "pix (wrap_cursor p) = pix p"
  by (simp_all add: wrap_cursor_def Let_def)

lemmas cursor_defs = wrap_cursor_def newline_def backspace_def advance_def cursor_ok_def screen_ok_def Let_def

lemma advance_ok: "cursor_ok p \<Longrightarrow> cursor_ok (wrap_cursor (advance f FR BK c p))"
  by (auto simp: cursor_defs)

lemma newline_ok: "cursor_ok p \<Longrightarrow> cursor_ok (wrap_cursor (newline p))"
  by (auto simp: cursor_defs)

lemma backspace_ok: "cursor_ok p \<Longrightarrow> cursor_ok (wrap_cursor (backspace f FR BK p))"
proof (cases "XPosition p = 0")
  case False
  assume "cursor_ok p"
  with False show ?thesis by (auto simp: cursor_defs)
next
  case True
  assume p: "cursor_ok p"
  define cols rows where "cols = XResolution p div XCharSize p" and "rows = YResolution p div YCharSize p"
  have "0 \<le> (cols - 1) * XCharSize p" "0 \<le> (rows - 1) * YCharSize p"
    using p by (auto simp: cursor_defs cols_def rows_def)
  with True p show ?thesis
    by (auto simp: cursor_defs cols_def [symmetric] rows_def [symmetric])
qed

lemma tab_loop_ok: "cursor_ok p \<Longrightarrow> cursor_ok (tab_loop f FR BK n p)"
  by (induction n arbitrary: p) (auto intro: advance_ok)

lemma put_char_ok: "cursor_ok p \<Longrightarrow> cursor_ok (put_char f FR BK c p)"
  by (simp add: put_char_def advance_ok newline_ok backspace_ok tab_loop_ok)

lemma put_text_ok: "cursor_ok p \<Longrightarrow> cursor_ok (put_text f FR BK cs p)"
  unfolding put_text_def by (induction cs arbitrary: p) (auto intro: put_char_ok)

section \<open>Which pixels change\<close>

lemma fold_row:
  "fold (\<lambda>j fb. fb(a + int j := v j)) [0..<n] fb k =
     (if a \<le> k \<and> k < a + int n then v (nat (k - a)) else fb k)"
  by (induction n) auto

lemma put_row_apply:
  "put_row f FR BK ch i a fb k =
     (if a \<le> k \<and> k < a + 8 then if glyph_bit f ch i (nat (k - a)) then FR else BK else fb k)"
  unfolding put_row_def by (subst fold_row) simp

text \<open>The pixel in row \<open>i\<close>, column \<open>j\<close> of the cell shows the glyph.\<close>

lemma putchar_inside:
  assumes "8 \<le> Xsize" and "i < 16" and "j < 8"
  shows "putchar f Xsize x y FR BK ch fb (Xsize * (y + int i) + x + int j) =
     (if glyph_bit f (of_char ch) i j then FR else BK)"
proof -
  have "i < n \<Longrightarrow> fold (\<lambda>i fb. put_row f FR BK (of_char ch) i (Xsize * (y + int i) + x) fb) [0..<n] fb
      (Xsize * (y + int i) + x + int j) = (if glyph_bit f (of_char ch) i j then FR else BK)" for n
  proof (induction n)
    case (Suc n)
    show ?case
    proof (cases "i = n")
      case True
      then show ?thesis using assms(3) by (simp add: put_row_apply)
    next
      case False
      with Suc.prems have "i < n" by simp
      then have "Xsize * (y + int i) + Xsize \<le> Xsize * (y + int n)"
        using assms(1) mult_left_mono [of "y + int i + 1" "y + int n" Xsize] by (simp add: algebra_simps)
      then have "\<not> Xsize * (y + int n) + x \<le> Xsize * (y + int i) + x + int j"
        using assms by linarith
      with Suc.IH [OF \<open>i < n\<close>] show ?thesis by (simp add: put_row_apply)
    qed
  qed simp
  from this [of 16] assms(2) show ?thesis by (simp add: putchar_def)
qed

lemma putchar_outside:
  assumes "0 \<le> x" and "x + 8 \<le> Xsize" and "0 \<le> y" and "y + 16 \<le> Ysize" and "k < 0 \<or> Xsize * Ysize \<le> k"
  shows "putchar f Xsize x y FR BK ch fb k = fb k"
proof -
  have "n \<le> 16 \<Longrightarrow> fold (\<lambda>i fb. put_row f FR BK (of_char ch) i (Xsize * (y + int i) + x) fb) [0..<n] fb k = fb k" for n
  proof (induction n)
    case (Suc n)
    have "0 \<le> Xsize * (y + int n)" using assms by (intro mult_nonneg_nonneg) auto
    moreover have "Xsize * (y + int n) + Xsize \<le> Xsize * Ysize"
      using assms Suc.prems mult_left_mono [of "y + int n + 1" Ysize Xsize] by (simp add: algebra_simps)
    ultimately have "\<not> (Xsize * (y + int n) + x \<le> k \<and> k < Xsize * (y + int n) + x + 8)"
      using assms by linarith
    then have "put_row f FR BK (of_char ch) n (Xsize * (y + int n) + x) g k = g k" for g
      by (subst put_row_apply) (simp only: if_False)
    with Suc show ?case by simp
  qed simp
  from this [of 16] show ?thesis by (simp add: putchar_def)
qed

text \<open>A cell under a cursor on the screen lies in the frame buffer.\<close>

definition glyph_size :: "position \<Rightarrow> bool" where
  "glyph_size p \<longleftrightarrow> XCharSize p = 8 \<and> YCharSize p = 16"

definition off_screen :: "position \<Rightarrow> int \<Rightarrow> bool" where
  "off_screen p k \<longleftrightarrow> k < 0 \<or> XResolution p * YResolution p \<le> k"

definition same_frame :: "position \<Rightarrow> position \<Rightarrow> bool" where
  "same_frame p q \<longleftrightarrow> XResolution q = XResolution p \<and> YResolution q = YResolution p \<and>
     XCharSize q = XCharSize p \<and> YCharSize q = YCharSize p \<and> (\<forall>k. off_screen p k \<longrightarrow> pix q k = pix p k)"

lemma same_frame_refl: "same_frame p p"
  by (simp add: same_frame_def)

lemma same_frame_trans: "same_frame p q \<Longrightarrow> same_frame q r \<Longrightarrow> same_frame p r"
  by (simp add: same_frame_def off_screen_def)

lemma advance_same_frame:
  assumes "cursor_ok p" and "glyph_size p"
  shows "same_frame p (wrap_cursor (advance f FR BK c p))"
proof -
  have "(XPosition p + 1) * 8 \<le> XResolution p"
    using assms mult_right_mono [of "XPosition p + 1" "XResolution p div 8" 8]
    by (auto simp: cursor_ok_def glyph_size_def)
  moreover have "(YPosition p + 1) * 16 \<le> YResolution p"
    using assms mult_right_mono [of "YPosition p + 1" "YResolution p div 16" 16]
    by (auto simp: cursor_ok_def glyph_size_def)
  ultimately have "off_screen p k \<Longrightarrow> pix (put_cell f FR BK c p) k = pix p k" for k
    using assms unfolding put_cell_def off_screen_def cursor_ok_def glyph_size_def
    by (simp add: putchar_outside)
  then show ?thesis
    by (auto simp: same_frame_def wrap_cursor_def advance_def Let_def)
qed

lemma same_frame_size: "same_frame p q \<Longrightarrow> glyph_size p \<Longrightarrow> glyph_size q"
  by (simp add: same_frame_def glyph_size_def)

lemma tab_loop_same_frame:
  "cursor_ok p \<Longrightarrow> glyph_size p \<Longrightarrow> same_frame p (tab_loop f FR BK n p)"
proof (induction n arbitrary: p)
  case 0
  then show ?case by (simp add: same_frame_refl)
next
  case (Suc n)
  from advance_same_frame [OF Suc.prems] have s: "same_frame p (wrap_cursor (advance f FR BK CHR '' '' p))" .
  with Suc show ?case
    by (auto intro: same_frame_trans [OF s] advance_ok same_frame_size)
qed

lemma newline_same_frame: "same_frame p (wrap_cursor (newline p))"
  by (simp add: same_frame_def newline_def)

lemma put_char_same_frame:
  "cursor_ok p \<Longrightarrow> glyph_size p \<Longrightarrow> c \<noteq> CHR 0x08 \<Longrightarrow> same_frame p (put_char f FR BK c p)"
  by (simp add: put_char_def tab_loop_same_frame advance_same_frame newline_same_frame)

lemma put_text_same_frame:
  "cursor_ok p \<Longrightarrow> glyph_size p \<Longrightarrow> CHR 0x08 \<notin> set cs \<Longrightarrow> same_frame p (put_text f FR BK cs p)"
  unfolding put_text_def
proof (induction cs arbitrary: p)
  case (Cons c cs)
  then have s: "same_frame p (put_char f FR BK c p)" by (auto intro: put_char_same_frame)
  with Cons show ?case
    by (auto intro!: same_frame_trans [OF s] put_char_ok same_frame_size [OF s])
qed (simp add: same_frame_refl)

section \<open>Properties\<close>

definition demo_console :: position where
  "demo_console = position_init \<lparr>XResolution = 0, YResolution = 0, XPosition = 0, YPosition = 0,
     XCharSize = 0, YCharSize = 0, FB_addr = 0, FB_length = 0, pix = \<lambda>_. 0\<rparr>"

lemma demo_console_ok: "cursor_ok demo_console \<and> glyph_size demo_console"
  by (simp add: demo_console_def position_init_def cursor_ok_def screen_ok_def glyph_size_def)

text \<open>\<open>putchar\<close> draws the glyph: every pixel of the 8 by 16 cell shows the foreground
  colour exactly where the font has a bit, and a cell inside the screen changes no memory outside the
  frame buffer.\<close>

theorem putchar_draws_glyph:
  assumes "0 \<le> x" and "x + 8 \<le> Xsize" and "0 \<le> y" and "y + 16 \<le> Ysize"
  shows "(\<forall>i j. i < 16 \<and> j < 8 \<longrightarrow> putchar f Xsize x y FR BK ch fb (Xsize * (y + int i) + x + int j) =
       (if glyph_bit f (of_char ch) i j then FR else BK)) \<and>
     (\<forall>k. k < 0 \<or> Xsize * Ysize \<le> k \<longrightarrow> putchar f Xsize x y FR BK ch fb k = fb k)"
  using assms putchar_inside [of Xsize] putchar_outside [OF assms] by auto

theorem putchar_draws_glyph_witness:
  "putchar (\<lambda>ch i. if ch = 65 \<and> i = 3 then 0x10 else 0) 1440 8 16 7 0 CHR ''A'' (\<lambda>_. 9) (1440 * 19 + 11) = 7"
proof -
  have "glyph_bit (\<lambda>ch i. if ch = 65 \<and> i = 3 then 0x10 else 0) 65 3 3"
    by (simp add: glyph_bit_def)
  then show ?thesis
    using putchar_draws_glyph [of 8 1440 16 900 "\<lambda>ch i. if ch = 65 \<and> i = 3 then 0x10 else 0" 7 0 "CHR ''A''" "\<lambda>_. 9"]
    by (auto dest!: conjunct1 spec [of _ 3])
qed



text \<open>A backspace in the first cell of the screen paints behind the frame buffer: the code sets
  the cursor to a pixel position where it means a cell, so the blank is drawn at 16 times the row of
  the last line; the cursor ends in the first cell again.\<close>

theorem backspace_writes_outside:
  assumes "cursor_ok p" and "glyph_size p" and "XPosition p = 0" and "YPosition p = 0"
    and "16 \<le> XResolution p" and "32 \<le> YResolution p"
  shows "\<exists>k. XResolution p * YResolution p \<le> k \<and>
     pix (put_char f FR BK CHR 0x08 p) k = (if glyph_bit f 32 0 0 then FR else BK) \<and>
     XPosition (put_char f FR BK CHR 0x08 p) = 0 \<and> YPosition (put_char f FR BK CHR 0x08 p) = 0"
proof -
  define cols rows where "cols = XResolution p div 8" and "rows = YResolution p div 16"
  have cr: "2 \<le> cols" "2 \<le> rows" using assms(5,6) by (auto simp: cols_def rows_def)
  have "YResolution p \<le> rows * 16 + 15" unfolding rows_def by presburger
  then have "YResolution p \<le> (rows - 1) * 16 * 16" using cr(2) by simp
  then have "XResolution p * YResolution p \<le> XResolution p * ((rows - 1) * 16 * 16)"
    using assms(5) by (intro mult_left_mono) auto
  moreover have "0 \<le> (cols - 1) * 8 * 8" using cr by simp
  ultimately have k: "XResolution p * YResolution p \<le> XResolution p * ((rows - 1) * 16 * 16) + (cols - 1) * 8 * 8"
    by linarith
  have "(cols - 1) * 8 \<ge> cols" "(rows - 1) * 16 \<ge> rows" using cr by auto
  then have b: "put_char f FR BK CHR 0x08 p = p\<lparr>XPosition := 0, YPosition := 0,
      pix := putchar f (XResolution p) ((cols - 1) * 8 * 8) ((rows - 1) * 16 * 16) FR BK CHR '' '' (pix p)\<rparr>"
    using assms(2-4) by (simp add: put_char_def backspace_def wrap_cursor_def put_cell_def Let_def
      glyph_size_def cols_def [symmetric] rows_def [symmetric])
  have "putchar f (XResolution p) ((cols - 1) * 8 * 8) ((rows - 1) * 16 * 16) FR BK CHR '' '' (pix p)
      (XResolution p * ((rows - 1) * 16 * 16) + (cols - 1) * 8 * 8) = (if glyph_bit f 32 0 0 then FR else BK)"
    using putchar_inside [of "XResolution p" 0 0 f "(cols - 1) * 8 * 8" "(rows - 1) * 16 * 16"] assms(5) by simp
  with k show ?thesis unfolding b by (intro exI [of _ "XResolution p * ((rows - 1) * 16 * 16) + (cols - 1) * 8 * 8"]) simp
qed

theorem backspace_writes_outside_witness:
  "\<exists>k. 1440 * 900 \<le> k \<and> pix (put_char (\<lambda>_ _. 0) 7 5 CHR 0x08 demo_console) k = 5"
  using backspace_writes_outside [of demo_console "\<lambda>_ _. 0" 7 5] demo_console_ok
  by (auto simp: demo_console_def position_init_def glyph_bit_def)

end
