(* ===== verification/Vfs_Types.thy ===== *)
theory Vfs_Types
  imports KList KString Errno
begin

unbundle bit_operations_syntax

text \<open>
  The structures of \<open>src/VFS.h\<close> and \<open>src/fat32.h\<close> and the state the file system works on.  The
  structures of one type are a function from their addresses; the operation tables, which the code
  only selects among, are the constructors of a datatype.  \<open>fresh\<close> holds the addresses the next
  calls of \<open>kmalloc\<close> return (0 for a failed call; theory \<open>Slab\<close> shows what \<open>kmalloc\<close> promises
  about them) and \<open>live\<close> those that have not been freed.  The medium of the disk is a function
  from sectors and byte offsets.
\<close>

section \<open>Structures\<close>

datatype file_operations = No_file_ops | FAT32_file_ops | keyboard_fops
datatype index_node_operations = No_inode_ops | FAT32_inode_ops

record index_node =
  file_size :: u64
  blocks :: u64
  attribute :: u64
  i_sb :: addr
  i_f_ops :: file_operations
  inode_ops :: index_node_operations
  private_index_info :: addr

record dir_entry =
  d_name :: addr
  name_length :: u32
  dir_inode :: addr
  d_parent :: addr

text \<open>The two list nodes are embedded in the structure.\<close>

definition child_node :: "addr \<Rightarrow> addr" where "child_node d = d + 16"
definition subdirs_list :: "addr \<Rightarrow> addr" where "subdirs_list d = d + 32"

record vfile =
  f_position :: u64
  f_mode :: u64
  f_dentry :: addr
  f_f_ops :: file_operations

record super_block =
  sb_root :: addr
  private_sb_info :: addr

record FAT32_sb_info =
  start_sector :: u64
  sector_count :: u64
  sector_per_cluster :: u64
  bytes_per_cluster :: u64
  bytes_per_sector :: u64
  Data_firstsector :: u64
  FAT1_firstsector :: u64
  sector_per_FAT :: u64
  NumFATs :: u64
  fsinfo_sector_infat :: u64
  bootsector_bk_infat :: u64
  fat_fsinfo :: addr

record FAT32_inode_info =
  first_cluster :: u64
  dentry_location :: u64
  dentry_position :: u64
  create_date :: u16
  create_time :: u16
  write_date :: u16
  write_time :: u16

definition FS_ATTR_FILE :: u64 where "FS_ATTR_FILE = 1"
definition FS_ATTR_DIR :: u64 where "FS_ATTR_DIR = 2"
definition FS_ATTR_DEVICE :: u64 where "FS_ATTR_DEVICE = 4"

definition TASK_SIZE :: u64 where "TASK_SIZE = 0x00007fffffffffff"
definition TASK_FILE_MAX :: nat where "TASK_FILE_MAX = 10"

section \<open>State\<close>

type_synonym image = "u64 \<Rightarrow> nat \<Rightarrow> u8"

record vfs =
  vlnk :: links
  dentries :: "addr \<Rightarrow> dir_entry"
  inodes :: "addr \<Rightarrow> index_node"
  files :: "addr \<Rightarrow> vfile"
  supers :: "addr \<Rightarrow> super_block"
  fsbis :: "addr \<Rightarrow> FAT32_sb_info"
  finodes :: "addr \<Rightarrow> FAT32_inode_info"
  vmem :: mem
  img :: image
  fresh :: "addr list"
  live :: "addr list"
  root_sb :: addr

definition upd_inode :: "addr \<Rightarrow> (index_node \<Rightarrow> index_node) \<Rightarrow> vfs \<Rightarrow> vfs" where
  "upd_inode a f s = s\<lparr>inodes := (inodes s)(a := f (inodes s a))\<rparr>"

definition upd_finode :: "addr \<Rightarrow> (FAT32_inode_info \<Rightarrow> FAT32_inode_info) \<Rightarrow> vfs \<Rightarrow> vfs" where
  "upd_finode a f s = s\<lparr>finodes := (finodes s)(a := f (finodes s a))\<rparr>"

definition upd_dentry :: "addr \<Rightarrow> (dir_entry \<Rightarrow> dir_entry) \<Rightarrow> vfs \<Rightarrow> vfs" where
  "upd_dentry a f s = s\<lparr>dentries := (dentries s)(a := f (dentries s a))\<rparr>"

definition upd_file :: "addr \<Rightarrow> (vfile \<Rightarrow> vfile) \<Rightarrow> vfs \<Rightarrow> vfs" where
  "upd_file a f s = s\<lparr>files := (files s)(a := f (files s a))\<rparr>"

section \<open>Allocation\<close>

definition get_object :: "vfs \<Rightarrow> (addr \<times> vfs) option" where
  "get_object s = (case fresh s of [] \<Rightarrow> None
     | a # as \<Rightarrow> Some (a, s\<lparr>fresh := as, live := (if a = NULL then live s else a # live s)\<rparr>))"

text \<open>Where the code uses the result of \<open>kmalloc\<close> without a test, a null pointer is a fault.\<close>

definition get_nonnull :: "vfs \<Rightarrow> (addr \<times> vfs) option" where
  "get_nonnull s = do { (a, s) \<leftarrow> get_object s; if a = NULL then None else Some (a, s) }"

definition put_object :: "addr \<Rightarrow> vfs \<Rightarrow> vfs" where
  "put_object a s = s\<lparr>live := remove1 a (live s)\<rparr>"

lemma get_nonnull_Some:
  "get_nonnull s = Some (a, s') \<longleftrightarrow>
     (\<exists>as. fresh s = a # as \<and> a \<noteq> NULL \<and> s' = s\<lparr>fresh := as, live := a # live s\<rparr>)"
  by (auto simp: get_nonnull_def get_object_def bind_eq_Some_conv split: list.splits)

lemma get_nonnull_Cons:
  "fresh s = a # as \<Longrightarrow> a \<noteq> NULL \<Longrightarrow> get_nonnull s = Some (a, s\<lparr>fresh := as, live := a # live s\<rparr>)"
  by (simp add: get_nonnull_def get_object_def)

section \<open>Disk transfers\<close>

text \<open>What \<open>IDE_device_operation.transfer\<close> leaves in memory and on the medium once the request is
  served: consecutive sectors of 512 bytes.  Its result is 1 for both commands
  (\<open>IDE_transfer_result\<close> in theory \<open>Fat32_Table\<close>), so the callers' branches for 0 are dead.\<close>

definition ide_read :: "u64 \<Rightarrow> u64 \<Rightarrow> addr \<Rightarrow> image \<Rightarrow> mem \<Rightarrow> mem" where
  "ide_read lba cnt b d m = (\<lambda>a.
     if unat (a - b) < 512 * unat cnt
     then d (lba + word_of_nat (unat (a - b) div 512)) (unat (a - b) mod 512) else m a)"

definition ide_write :: "u64 \<Rightarrow> u64 \<Rightarrow> addr \<Rightarrow> mem \<Rightarrow> image \<Rightarrow> image" where
  "ide_write lba cnt b m d = (\<lambda>s k.
     if unat (s - lba) < unat cnt \<and> k < 512
     then m (b + word_of_nat (512 * unat (s - lba) + k)) else d s k)"

definition load_le :: "nat \<Rightarrow> addr \<Rightarrow> mem \<Rightarrow> u64" where
  "load_le k a m = le_word (map (\<lambda>i. m (a + word_of_nat i)) [0..<k])"

section \<open>Signed division\<close>

definition long_div :: "u64 \<Rightarrow> u64 \<Rightarrow> u64" where
  "long_div a b = word_of_int (sint a sdiv sint b)"

definition long_mod :: "u64 \<Rightarrow> u64 \<Rightarrow> u64" where
  "long_mod a b = word_of_int (sint a smod sint b)"

lemma int_smod_pos: "int m smod int k = int (m mod k)"
  by (cases "m = 0"; cases "k = 0") (simp_all add: signed_modulo_int_def zmod_int)

lemma long_div_nat:
  assumes "0 \<le> sint a" and "0 \<le> sint b"
  shows "unat (long_div a b) = unat a div unat b"
proof -
  have "unat a div unat b < 2 ^ 64"
    using unat_less_2p64 [of a] by (rule le_less_trans [OF div_le_dividend])
  then show ?thesis
    using assms by (simp only: long_div_def sint_nonneg_eq_unat int_sdiv_pos of_int_of_nat_eq unat_of_nat_small)
qed

lemma long_mod_nat:
  assumes "0 \<le> sint a" and "0 \<le> sint b"
  shows "unat (long_mod a b) = unat a mod unat b"
proof -
  have "unat a mod unat b < 2 ^ 64"
    using unat_less_2p64 [of a] by (rule le_less_trans [OF mod_less_eq_dividend])
  then show ?thesis
    using assms by (simp only: long_mod_def sint_nonneg_eq_unat int_smod_pos of_int_of_nat_eq unat_of_nat_small)
qed

section \<open>Words as lengths\<close>

lemma sint_small:
  assumes "unat (w :: 'a :: len word) < 2 ^ (LENGTH('a) - Suc 0)"
  shows "sint w = int (unat w)"
proof -
  have "int (unat w) < int (2 ^ (LENGTH('a) - Suc 0))" using assms by (simp only: of_nat_less_iff)
  then have "uint w < 2 ^ (LENGTH('a) - Suc 0)" by (simp only: uint_nat of_nat_power of_nat_numeral)
  moreover have "- (2 ^ (LENGTH('a) - Suc 0)) \<le> uint w" by (rule order_trans [OF _ unsigned_greater_eq]) simp
  ultimately have "signed_take_bit (LENGTH('a) - Suc 0) (uint w) = uint w"
    by (intro signed_take_bit_int_eq_self)
  then show ?thesis unfolding sint_uint by (simp only: uint_nat)
qed

lemma sint_small_8: "unat (w :: u8) < 2 ^ 7 \<Longrightarrow> sint w = int (unat w)"
  by (rule sint_small) simp

lemma sint_small_32: "unat (w :: u32) < 2 ^ 31 \<Longrightarrow> sint w = int (unat w)"
  by (rule sint_small) simp

lemma sint_small_64: "unat (w :: u64) < 2 ^ 63 \<Longrightarrow> sint w = int (unat w)"
  by (rule sint_small) simp

lemma scast_small: "unat (w :: u32) < 2 ^ 31 \<Longrightarrow> (scast w :: u64) = word_of_nat (unat w)"
  using sint_small_32 [of w] by (simp only: scast_eq of_int_of_nat_eq)

lemma unat_scast_small: "unat (w :: u32) < 2 ^ 31 \<Longrightarrow> unat (scast w :: u64) = unat w"
  using unat_of_nat_small [of "unat w"] by (simp only: scast_small) simp

end
