(* ===== verification/Disk.thy ===== *)
theory Disk
  imports Schedule Slab KString
begin

unbundle bit_operations_syntax

text \<open>
  The IDE driver of \<open>src/disk.c\<close>: a queue of requests, the request in service, and the handlers
  the interrupt runs.  What the driver does to the controller is a log of port accesses; the waiting
  loops on the status register are entries of the log, which the controller is assumed to end.  An
  interrupt brings the error bit of the status register and the 512 bytes the controller offers.  A
  request node is identified with the wait queue entry embedded in it (\<open>container_of\<close>).
\<close>

datatype pio =
    Out8 nat u8             \<comment> \<open>\<open>io_out8(port, value)\<close>\<close>
  | Wait_clear nat u8       \<comment> \<open>\<open>while(io_in8(port) & mask)\<close>\<close>
  | Wait_set nat u8         \<comment> \<open>\<open>while(!(io_in8(port) & mask))\<close>\<close>
  | Out_sector nat "u8 list" \<comment> \<open>\<open>port_outsw(port, buffer, 256)\<close>\<close>

definition PORT_DISK1_DATA :: nat where "PORT_DISK1_DATA = 0x170"
definition PORT_DISK1_ERR_FEATURE :: nat where "PORT_DISK1_ERR_FEATURE = 0x171"
definition PORT_DISK1_SECTOR_CNT :: nat where "PORT_DISK1_SECTOR_CNT = 0x172"
definition PORT_DISK1_SECTOR_LOW :: nat where "PORT_DISK1_SECTOR_LOW = 0x173"
definition PORT_DISK1_SECTOR_MID :: nat where "PORT_DISK1_SECTOR_MID = 0x174"
definition PORT_DISK1_SECTOR_HIGH :: nat where "PORT_DISK1_SECTOR_HIGH = 0x175"
definition PORT_DISK1_DEVICE :: nat where "PORT_DISK1_DEVICE = 0x176"
definition PORT_DISK1_STATUS_CMD :: nat where "PORT_DISK1_STATUS_CMD = 0x177"
definition PORT_DISK1_ALT_STA_CTL :: nat where "PORT_DISK1_ALT_STA_CTL = 0x376"

lemmas disk_ports = PORT_DISK1_DATA_def PORT_DISK1_ERR_FEATURE_def PORT_DISK1_SECTOR_CNT_def
  PORT_DISK1_SECTOR_LOW_def PORT_DISK1_SECTOR_MID_def PORT_DISK1_SECTOR_HIGH_def
  PORT_DISK1_DEVICE_def PORT_DISK1_STATUS_CMD_def PORT_DISK1_ALT_STA_CTL_def

definition DISK_STATUS_BUSY :: u8 where "DISK_STATUS_BUSY = 0x80"
definition DISK_STATUS_READY :: u8 where "DISK_STATUS_READY = 0x40"
definition DISK_STATUS_REQ :: u8 where "DISK_STATUS_REQ = 8"

definition ATA_READ_CMD :: u64 where "ATA_READ_CMD = 0x24"
definition ATA_WRITE_CMD :: u64 where "ATA_WRITE_CMD = 0x34"
definition GET_IDENTIFY_DISK_CMD :: u64 where "GET_IDENTIFY_DISK_CMD = 0xEC"

lemmas disk_cmds = ATA_READ_CMD_def ATA_WRITE_CMD_def GET_IDENTIFY_DISK_CMD_def

datatype end_handler = Read_handler | Write_handler | Other_handler

record block_buffer_node =
  bb_count :: u32
  bb_cmd :: u8
  bb_LBA :: u64
  bb_buffer :: addr
  bb_handler :: end_handler

record disk =
  dk :: ksched
  dsm :: smem
  bb :: "addr \<Rightarrow> block_buffer_node"
  disk_request :: addr
  in_using :: addr
  block_request_count :: int
  port_log :: "pio list"
  dmem :: mem

definition upd_bb :: "addr \<Rightarrow> (block_buffer_node \<Rightarrow> block_buffer_node) \<Rightarrow> disk \<Rightarrow> disk" where
  "upd_bb n f d = d\<lparr>bb := (bb d)(n := f (bb d n))\<rparr>"

definition log :: "pio list \<Rightarrow> disk \<Rightarrow> disk" where
  "log es d = d\<lparr>port_log := port_log d @ es\<rparr>"

definition sector_bytes :: "addr \<Rightarrow> mem \<Rightarrow> u8 list" where
  "sector_bytes a m = map (\<lambda>i. m (a + word_of_nat i)) [0..<512]"

section \<open>Programming a command\<close>

text \<open>The registers are two deep: the high bytes of count and address first.\<close>

definition lba48_high :: "block_buffer_node \<Rightarrow> pio list" where
  "lba48_high n =
     [Out8 PORT_DISK1_ERR_FEATURE 0,
      Out8 PORT_DISK1_SECTOR_CNT (byte_of 1 (ucast (bb_count n))),
      Out8 PORT_DISK1_SECTOR_LOW (byte_of 3 (bb_LBA n)),
      Out8 PORT_DISK1_SECTOR_MID (byte_of 4 (bb_LBA n)),
      Out8 PORT_DISK1_SECTOR_HIGH (byte_of 5 (bb_LBA n))]"

definition lba_low :: "block_buffer_node \<Rightarrow> pio list" where
  "lba_low n =
     [Out8 PORT_DISK1_ERR_FEATURE 0,
      Out8 PORT_DISK1_SECTOR_CNT (byte_of 0 (ucast (bb_count n))),
      Out8 PORT_DISK1_SECTOR_LOW (byte_of 0 (bb_LBA n)),
      Out8 PORT_DISK1_SECTOR_MID (byte_of 1 (bb_LBA n)),
      Out8 PORT_DISK1_SECTOR_HIGH (byte_of 2 (bb_LBA n))]"

definition start_cmd :: "block_buffer_node \<Rightarrow> pio list" where
  "start_cmd n = [Wait_set PORT_DISK1_STATUS_CMD DISK_STATUS_READY, Out8 PORT_DISK1_STATUS_CMD (bb_cmd n)]"

definition cmd_log :: "block_buffer_node \<Rightarrow> mem \<Rightarrow> pio list" where
  "cmd_log n m =
     (if bb_cmd n = ucast ATA_WRITE_CMD then
        Out8 PORT_DISK1_DEVICE 0x40 # lba48_high n @ lba_low n @ start_cmd n @
        [Wait_set PORT_DISK1_STATUS_CMD DISK_STATUS_REQ,
         Out_sector PORT_DISK1_DATA (sector_bytes (bb_buffer n) m)]
      else if bb_cmd n = ucast ATA_READ_CMD then
        Out8 PORT_DISK1_DEVICE 0x40 # lba48_high n @ lba_low n @ start_cmd n
      else if bb_cmd n = ucast GET_IDENTIFY_DISK_CMD then
        Out8 PORT_DISK1_DEVICE 0xe0 # lba_low n @ start_cmd n
      else [])"

section \<open>The request queue\<close>

definition add_request :: "addr \<Rightarrow> disk \<Rightarrow> disk" where
  "add_request n d =
     d\<lparr>dk := (dk d)\<lparr>lnk := list_add_to_before (lnk (dk d)) (disk_request d) n\<rparr>,
       block_request_count := block_request_count d + 1\<rparr>"

definition cmd_out :: "disk \<Rightarrow> disk" where
  "cmd_out d =
     (let n = list_next (lnk (dk d)) (disk_request d);
          d = d\<lparr>in_using := n\<rparr>;
          d = d\<lparr>dk := (dk d)\<lparr>lnk := list_del (lnk (dk d)) n\<rparr>\<rparr>;
          d = d\<lparr>block_request_count := block_request_count d - 1\<rparr>
      in log (Wait_clear PORT_DISK1_STATUS_CMD DISK_STATUS_BUSY # cmd_log (bb d n) (dmem d)) d)"

text \<open>The task that waits for the request is made runnable and queued; the caller is asked to
  reschedule.\<close>

definition end_request :: "addr \<Rightarrow> disk \<Rightarrow> disk option" where
  "end_request n d = do {
     s \<leftarrow> wakeup_process (wait_tsk (dk d) n) (dk d);
     (r, m) \<leftarrow> kfree 2 (in_using d) (dsm d);
     let d = d\<lparr>dk := s, dsm := m, in_using := NULL\<rparr>;
     if block_request_count d \<noteq> 0 then Some (cmd_out d) else Some d
   }"

text \<open>\<open>data\<close>: the bytes \<open>port_insw\<close> finds at the data port.\<close>

definition insw :: "addr \<Rightarrow> (nat \<Rightarrow> u8) \<Rightarrow> mem \<Rightarrow> mem" where
  "insw a data m = (\<lambda>x. if unat (x - a) < 512 then data (unat (x - a)) else m x)"

definition read_handler :: "bool \<Rightarrow> (nat \<Rightarrow> u8) \<Rightarrow> disk \<Rightarrow> disk option" where
  "read_handler err data d =
     (let n = in_using d;
          d = (if err then d else d\<lparr>dmem := insw (bb_buffer (bb d n)) data (dmem d)\<rparr>);
          d = upd_bb n (\<lambda>x. x\<lparr>bb_count := bb_count x - 1\<rparr>) d
      in if bb_count (bb d n) \<noteq> 0
         then Some (upd_bb n (\<lambda>x. x\<lparr>bb_buffer := bb_buffer x + 512\<rparr>) d)
         else end_request n d)"

definition write_handler :: "bool \<Rightarrow> disk \<Rightarrow> disk option" where
  "write_handler err d =
     (let n = in_using d;
          d = upd_bb n (\<lambda>x. x\<lparr>bb_count := bb_count x - 1\<rparr>) d
      in if bb_count (bb d n) \<noteq> 0
         then let d = upd_bb n (\<lambda>x. x\<lparr>bb_buffer := bb_buffer x + 512\<rparr>) d
              in Some (log [Wait_set PORT_DISK1_STATUS_CMD DISK_STATUS_REQ,
                       Out_sector PORT_DISK1_DATA (sector_bytes (bb_buffer (bb d n)) (dmem d))] d)
         else end_request n d)"

definition other_handler :: "bool \<Rightarrow> (nat \<Rightarrow> u8) \<Rightarrow> disk \<Rightarrow> disk option" where
  "other_handler err data d =
     (let n = in_using d;
          d = (if err then d else d\<lparr>dmem := insw (bb_buffer (bb d n)) data (dmem d)\<rparr>)
      in end_request n d)"

definition disk_handler :: "bool \<Rightarrow> (nat \<Rightarrow> u8) \<Rightarrow> disk \<Rightarrow> disk option" where
  "disk_handler err data d =
     (case bb_handler (bb d (in_using d)) of
        Read_handler \<Rightarrow> read_handler err data d
      | Write_handler \<Rightarrow> write_handler err d
      | Other_handler \<Rightarrow> other_handler err data d)"

section \<open>Making requests\<close>

definition sizeof_bb :: u64 where "sizeof_bb = 56"

text \<open>\<open>kmalloc\<close> may return a null pointer; the code does not test it and the node is at
  address 0 then, a fault.\<close>

definition make_request :: "u64 \<Rightarrow> u64 \<Rightarrow> u64 \<Rightarrow> addr \<Rightarrow> disk \<Rightarrow> (addr \<times> disk) option" where
  "make_request cmd blocks cnt buffer d = do {
     (n, m) \<leftarrow> kmalloc 2 sizeof_bb (dsm d);
     if n = NULL then None
     else
       let d = d\<lparr>dsm := m\<rparr>;
           d = d\<lparr>dk := wait_queue_init n (cur (dk d)) (dk d)\<rparr>;
           h = (if cmd = ATA_READ_CMD then Read_handler else if cmd = ATA_WRITE_CMD then Write_handler
                else Other_handler);
           d = upd_bb n (\<lambda>x. x\<lparr>bb_handler := h, bb_cmd := ucast cmd, bb_LBA := blocks,
                 bb_count := ucast cnt, bb_buffer := buffer\<rparr>) d
       in Some (n, d)
   }"

definition submit :: "addr \<Rightarrow> disk \<Rightarrow> disk" where
  "submit n d = (let d = add_request n d in if in_using d = NULL then cmd_out d else d)"

definition wait_for_finish :: "disk \<Rightarrow> disk option" where
  "wait_for_finish d = do {
     s \<leftarrow> schedule (upd_task (cur (dk d)) (\<lambda>k. k\<lparr>ts_state := TASK_UNINTERRUPTIBLE\<rparr>) (dk d));
     Some (d\<lparr>dk := s\<rparr>)
   }"

definition IDE_open :: u64 where "IDE_open = 1"
definition IDE_close :: u64 where "IDE_close = 1"

definition IDE_ioctl :: "u64 \<Rightarrow> u64 \<Rightarrow> disk \<Rightarrow> (u64 \<times> disk) option" where
  "IDE_ioctl cmd arg d =
     (if cmd = GET_IDENTIFY_DISK_CMD
      then do { (n, d) \<leftarrow> make_request cmd 0 0 arg d; d \<leftarrow> wait_for_finish (submit n d); Some (1, d) }
      else Some (0, d))"

definition IDE_transfer :: "u64 \<Rightarrow> u64 \<Rightarrow> u64 \<Rightarrow> addr \<Rightarrow> disk \<Rightarrow> (u64 \<times> disk) option" where
  "IDE_transfer cmd blocks cnt buffer d =
     (if cmd = ATA_READ_CMD \<or> cmd = ATA_WRITE_CMD
      then do {
        (n, d) \<leftarrow> make_request cmd blocks cnt buffer d;
        d \<leftarrow> wait_for_finish (submit n d);
        Some (1, d)
      }
      else Some (0, d))"

definition disk_init :: "disk \<Rightarrow> disk" where
  "disk_init d =
     log [Out8 PORT_DISK1_ALT_STA_CTL 0]
       (d\<lparr>dk := wait_queue_init (disk_request d) NULL (dk d), in_using := NULL, block_request_count := 0\<rparr>)"

section \<open>What the controller decodes\<close>

text \<open>The values written to a port, in order.  A register gives the last value, and its high byte
  is the one before.\<close>

fun port_writes :: "nat \<Rightarrow> pio list \<Rightarrow> u8 list" where
  "port_writes p [] = []"
| "port_writes p (Out8 q v # es) = (if q = p then v # port_writes p es else port_writes p es)"
| "port_writes p (e # es) = port_writes p es"

lemma port_writes_append [simp]: "port_writes p (es @ fs) = port_writes p es @ port_writes p fs"
  by (induction p es rule: port_writes.induct) auto

definition reg_low :: "nat \<Rightarrow> pio list \<Rightarrow> u8" where
  "reg_low p es = last (port_writes p es)"

definition reg_high :: "nat \<Rightarrow> pio list \<Rightarrow> u8" where
  "reg_high p es = last (butlast (port_writes p es))"

definition decoded_lba :: "pio list \<Rightarrow> u64" where
  "decoded_lba es = le_word
     [reg_low PORT_DISK1_SECTOR_LOW es, reg_low PORT_DISK1_SECTOR_MID es, reg_low PORT_DISK1_SECTOR_HIGH es,
      reg_high PORT_DISK1_SECTOR_LOW es, reg_high PORT_DISK1_SECTOR_MID es, reg_high PORT_DISK1_SECTOR_HIGH es]"

definition decoded_count :: "pio list \<Rightarrow> u64" where
  "decoded_count es = le_word [reg_low PORT_DISK1_SECTOR_CNT es, reg_high PORT_DISK1_SECTOR_CNT es]"

lemma le_word_6: "le_word (map (\<lambda>k. byte_of k w) [0, 1, 2, 3, 4, 5]) = take_bit 48 w"
proof -
  have "[0, 1, 2, 3, 4, 5] = [0..<6 :: nat]" by (simp add: upt_rec)
  then show ?thesis using le_word_bytes [of w 6] by (simp only:) simp
qed

lemma le_word_2: "le_word (map (\<lambda>k. byte_of k w) [0, 1]) = take_bit 16 w"
proof -
  have "[0, 1] = [0..<2 :: nat]" by (simp add: upt_rec)
  then show ?thesis using le_word_bytes [of w 2] by (simp only:) simp
qed

lemma decode_lba48:
  "decoded_lba (Out8 PORT_DISK1_DEVICE v # lba48_high n @ lba_low n @ es) = take_bit 48 (bb_LBA n) \<and>
   decoded_count (Out8 PORT_DISK1_DEVICE v # lba48_high n @ lba_low n @ es) = take_bit 16 (ucast (bb_count n))"
  if "port_writes PORT_DISK1_SECTOR_LOW es = []" "port_writes PORT_DISK1_SECTOR_MID es = []"
    "port_writes PORT_DISK1_SECTOR_HIGH es = []" "port_writes PORT_DISK1_SECTOR_CNT es = []"
  using that le_word_6 [of "bb_LBA n"] le_word_2 [of "ucast (bb_count n)"]
  by (simp add: decoded_lba_def decoded_count_def reg_low_def reg_high_def lba48_high_def lba_low_def
    disk_ports del: le_word.simps)

section \<open>The queue\<close>

definition disk_ok :: "disk \<Rightarrow> addr list \<Rightarrow> bool" where
  "disk_ok d xs \<longleftrightarrow> ring (lnk (dk d)) (disk_request d) xs \<and> block_request_count d = int (length xs) \<and>
     (in_using d = NULL \<longrightarrow> xs = []) \<and> NULL \<notin> set xs"

lemma log_simps [simp]:
  "dk (log es d) = dk d" "in_using (log es d) = in_using d" "block_request_count (log es d) = block_request_count d"
  "disk_request (log es d) = disk_request d" "bb (log es d) = bb d" "dmem (log es d) = dmem d"
  "port_log (log es d) = port_log d @ es" "dsm (log es d) = dsm d"
  by (simp_all add: log_def)

lemma add_request_ok:
  "ring (lnk (dk d)) (disk_request d) xs \<Longrightarrow> n \<notin> set (disk_request d # xs) \<Longrightarrow>
   ring (lnk (dk (add_request n d))) (disk_request d) (xs @ [n])"
  unfolding add_request_def by (simp add: kl.rep_before_head)

lemma cmd_out_ok:
  assumes "ring (lnk (dk d)) (disk_request d) (x # xs)" and "block_request_count d = int (Suc (length xs))"
    and "NULL \<notin> set (x # xs)"
  shows "disk_ok (cmd_out d) xs" and "in_using (cmd_out d) = x"
    and "port_log (cmd_out d) = port_log d @ Wait_clear PORT_DISK1_STATUS_CMD DISK_STATUS_BUSY # cmd_log (bb d x) (dmem d)"
    and "tsk (dk (cmd_out d)) = tsk (dk d)"
proof -
  have n: "list_next (lnk (dk d)) (disk_request d) = x" using kl.rep_succ [OF assms(1)] by simp
  show "disk_ok (cmd_out d) xs" "in_using (cmd_out d) = x"
    "port_log (cmd_out d) = port_log d @ Wait_clear PORT_DISK1_STATUS_CMD DISK_STATUS_BUSY # cmd_log (bb d x) (dmem d)"
    "tsk (dk (cmd_out d)) = tsk (dk d)"
    using assms(2,3) kl.pop_front [OF assms(1)]
    by (simp_all add: cmd_out_def Let_def n disk_ok_def)
qed

text \<open>Interrupts without errors deliver the sectors in order: after \<open>k\<close> of them the first
  \<open>k\<close> sectors of the buffer hold the data.\<close>

fun serve_read :: "(nat \<Rightarrow> nat \<Rightarrow> u8) \<Rightarrow> nat \<Rightarrow> disk \<Rightarrow> disk option" where
  "serve_read data 0 d = Some d"
| "serve_read data (Suc k) d = do { d \<leftarrow> serve_read data k d; read_handler False (data k) d }"

lemma read_handler_step:
  assumes "bb_count (bb d (in_using d)) \<noteq> 1"
  shows "\<exists>d'. read_handler False data d = Some d' \<and> in_using d' = in_using d \<and> dk d' = dk d \<and>
     dmem d' = insw (bb_buffer (bb d (in_using d))) data (dmem d) \<and>
     bb_count (bb d' (in_using d)) = bb_count (bb d (in_using d)) - 1 \<and>
     bb_buffer (bb d' (in_using d)) = bb_buffer (bb d (in_using d)) + 512"
proof -
  have "bb_count (bb d (in_using d)) - 1 \<noteq> 0" using assms by (metis eq_iff_diff_eq_0)
  then show ?thesis by (simp add: read_handler_def upd_bb_def Let_def)
qed

lemma serve_read_delivers:
  assumes "k < unat (bb_count (bb d (in_using d)))" and "k \<le> 2 ^ 32"
  shows "\<exists>d'. serve_read data k d = Some d' \<and> in_using d' = in_using d \<and> dk d' = dk d \<and>
     bb_count (bb d' (in_using d)) = bb_count (bb d (in_using d)) - word_of_nat k \<and>
     bb_buffer (bb d' (in_using d)) = bb_buffer (bb d (in_using d)) + 512 * word_of_nat k \<and>
     (\<forall>j i. j < k \<and> i < 512 \<longrightarrow>
        dmem d' (bb_buffer (bb d (in_using d)) + 512 * word_of_nat j + word_of_nat i) = data j i)"
  using assms
proof (induction k)
  case 0
  then show ?case by simp
next
  case (Suc k)
  let ?n = "in_using d" let ?a = "bb_buffer (bb d ?n)" let ?c = "bb_count (bb d ?n)"
  from Suc obtain d1 where d1: "serve_read data k d = Some d1" "in_using d1 = ?n" "dk d1 = dk d"
      "bb_count (bb d1 ?n) = ?c - word_of_nat k" "bb_buffer (bb d1 ?n) = ?a + 512 * word_of_nat k"
    and m: "\<And>j i. j < k \<Longrightarrow> i < 512 \<Longrightarrow> dmem d1 (?a + 512 * word_of_nat j + word_of_nat i) = data j i"
    by auto
  have "unat (?c - word_of_nat k) = unat ?c - k"
    using Suc.prems unat_less_2p32 [of ?c] by (subst unat_sub) (auto simp: word_le_nat_alt unat_of_nat)
  then have "unat (bb_count (bb d1 (in_using d1))) \<noteq> 1"
    using Suc.prems(1) d1(2,4) by simp
  then have "bb_count (bb d1 (in_using d1)) \<noteq> 1" by auto
  from read_handler_step [OF this, of "data k"] obtain d2 where
    d2: "read_handler False (data k) d1 = Some d2" "in_using d2 = ?n" "dk d2 = dk d1"
      "dmem d2 = insw (bb_buffer (bb d1 ?n)) (data k) (dmem d1)"
      "bb_count (bb d2 ?n) = bb_count (bb d1 ?n) - 1" "bb_buffer (bb d2 ?n) = bb_buffer (bb d1 ?n) + 512"
    unfolding d1(2) by blast
  have s: "serve_read data (Suc k) d = Some d2" using d1(1) d2(1) by simp
  have "dmem d2 (?a + 512 * word_of_nat j + word_of_nat i) = data j i" if "j < Suc k" "i < 512" for j i
  proof (cases "j = k")
    case True
    have "unat (word_of_nat i :: u64) = i" using that(2) by (intro unat_of_nat_small) simp
    with that(2) True show ?thesis by (simp add: d2(4) d1(5) insw_def)
  next
    case False
    then have j: "j < k" using that(1) by simp
    let ?x = "?a + 512 * word_of_nat j + word_of_nat i - (?a + 512 * word_of_nat k) :: u64"
    have ij: "512 * j + i + 1 \<le> 512 * k" using j that(2) by linarith
    have sum: "?x + word_of_nat (512 * k) = word_of_nat (512 * j + i)" by simp
    have "unat (word_of_nat (512 * k) :: u64) = 512 * k" "unat (word_of_nat (512 * j + i) :: u64) = 512 * j + i"
      using ij Suc.prems(2) by (auto intro!: unat_of_nat_small simp del: of_nat_mult of_nat_add)
    then have "\<not> unat ?x < 512"
      using ij Suc.prems(2) arg_cong [OF sum, of unat] by (auto simp: unat_word_ariths simp del: of_nat_mult of_nat_add)
    then show ?thesis using m [OF j that(2)] by (simp only: d2(4) d1(5) insw_def if_False)
  qed
  with s d2 d1 show ?case by (intro exI [of _ d2]) (auto simp: algebra_simps)
qed

section \<open>Properties\<close>

text \<open>C18.  The log of a read or write command programs the whole request: a controller with
  two deep registers decodes the low 48 bits of the block address and the low 16 bits of the count,
  and the command register is written last, before the first sector of a write.\<close>

theorem command_programs_lba:
  assumes "bb_cmd n = ucast ATA_READ_CMD \<or> bb_cmd n = ucast ATA_WRITE_CMD"
  shows "decoded_lba (cmd_log n m) = take_bit 48 (bb_LBA n) \<and>
     decoded_count (cmd_log n m) = take_bit 16 (ucast (bb_count n)) \<and>
     port_writes PORT_DISK1_STATUS_CMD (cmd_log n m) = [bb_cmd n]"
proof -
  let ?t = "if bb_cmd n = ucast ATA_WRITE_CMD then [Wait_set PORT_DISK1_STATUS_CMD DISK_STATUS_REQ,
      Out_sector PORT_DISK1_DATA (sector_bytes (bb_buffer n) m)] else []"
  have l: "cmd_log n m = Out8 PORT_DISK1_DEVICE 0x40 # lba48_high n @ lba_low n @ start_cmd n @ ?t"
    using assms by (auto simp: cmd_log_def)
  have "port_writes PORT_DISK1_STATUS_CMD (cmd_log n m) = [bb_cmd n]"
    unfolding l by (simp add: lba48_high_def lba_low_def start_cmd_def disk_ports)
  moreover have "port_writes p (start_cmd n @ ?t) = []" if "p \<noteq> PORT_DISK1_STATUS_CMD" for p
    using that by (simp add: start_cmd_def)
  then have "decoded_lba (cmd_log n m) = take_bit 48 (bb_LBA n) \<and>
      decoded_count (cmd_log n m) = take_bit 16 (ucast (bb_count n))"
    unfolding l by (intro decode_lba48) (simp_all add: disk_ports)
  ultimately show ?thesis by blast
qed

theorem command_programs_lba_witness:
  "decoded_lba (cmd_log \<lparr>bb_count = 3, bb_cmd = 0x24, bb_LBA = 0x123456789A, bb_buffer = 0, bb_handler = Read_handler\<rparr>
     (\<lambda>_. 0)) = 0x123456789A"
  using command_programs_lba [of "\<lparr>bb_count = 3, bb_cmd = 0x24, bb_LBA = 0x123456789A, bb_buffer = 0, bb_handler = Read_handler\<rparr>"
    "\<lambda>_. 0"] by (simp add: disk_cmds take_bit_eq_mask mask_eq_exp_minus_1)

text \<open>C19.  Requests are served in the order they are submitted: a request submitted to an idle
  disk is started at once, one submitted to a busy disk is queued last; when a request ends, its task
  becomes runnable and the oldest queued request is started, or the disk becomes idle.\<close>

theorem disk_requests_fifo:
  assumes ok: "disk_ok d ys" and new: "n \<notin> set (disk_request d # ys)" "n \<noteq> NULL"
    and wf: "sched_wf (dk d) xs" and free: "kfree 2 (in_using d) (dsm d) = Some (r, m)"
    and apart: "set (disk_request d # ys) \<inter> sched_nodes (dk d) xs = {}"
    and t: "t = wait_tsk (dk d) (in_using d)" "t \<notin> sched_nodes (dk d) xs"
      "ts_cpu_id (tsk (dk d) t) = SMP_cpu_id (dk d)" "t \<notin> set (disk_request d # ys)"
  shows "in_using (submit n d) = (if in_using d = NULL then n else in_using d) \<and>
     disk_ok (submit n d) (if in_using d = NULL then [] else ys @ [n]) \<and>
     (\<exists>d'. end_request (in_using d) d = Some d' \<and> in_using d' = hd (ys @ [NULL]) \<and> disk_ok d' (tl ys) \<and>
        ts_state (tsk (dk d') t) = TASK_RUNNING)"
proof (intro conjI)
  have r: "ring (lnk (dk d)) (disk_request d) ys" and c: "block_request_count d = int (length ys)"
    and z: "NULL \<notin> set ys" and e: "in_using d = NULL \<longrightarrow> ys = []"
    using ok by (auto simp: disk_ok_def)
  have r': "ring (lnk (dk (add_request n d))) (disk_request d) (ys @ [n])"
    using add_request_ok [OF r new(1)] .
  have a: "in_using (add_request n d) = in_using d" "disk_request (add_request n d) = disk_request d"
    "block_request_count (add_request n d) = int (Suc (length ys))"
    using c by (simp_all add: add_request_def)
  show "in_using (submit n d) = (if in_using d = NULL then n else in_using d)"
    using e r' a new(2) cmd_out_ok(2) [of "add_request n d" n "[]"] by (auto simp: submit_def Let_def)
  show "disk_ok (submit n d) (if in_using d = NULL then [] else ys @ [n])"
    using e r' a z new(2) cmd_out_ok(1) [of "add_request n d" n "[]"] by (auto simp: submit_def Let_def disk_ok_def)
  have t': "t \<noteq> cur (dk d)" "t \<notin> set xs" "t \<noteq> rqhead (dk d) (SMP_cpu_id (dk d))"
    "t \<noteq> init_task (dk d) (SMP_cpu_id (dk d))" using t(2) by (auto simp: sched_nodes_def)
  obtain s' where s': "wakeup_process t (dk d) = Some s'" "ts_state (tsk s' t) = TASK_RUNNING"
    "same_rings (insert t (set (rqhead (dk d) (SMP_cpu_id (dk d)) # xs))) (dk d) s'"
    using wakeup_process_refines [OF wf t' t(3)] by metis
  have "ring (lnk s') (disk_request d) ys"
    by (rule same_ringsD [OF s'(3) r]) (use apart t(4) in \<open>auto simp: sched_nodes_def\<close>)
  then have d1: "ring (lnk (dk (d\<lparr>dk := s', dsm := m, in_using := NULL\<rparr>))) (disk_request (d\<lparr>dk := s', dsm := m, in_using := NULL\<rparr>)) ys"
    by simp
  have end_eq: "end_request (in_using d) d =
      (if ys \<noteq> [] then Some (cmd_out (d\<lparr>dk := s', dsm := m, in_using := NULL\<rparr>)) else Some (d\<lparr>dk := s', dsm := m, in_using := NULL\<rparr>))"
    using s'(1) free c by (simp add: end_request_def t(1) Let_def)
  show "\<exists>d'. end_request (in_using d) d = Some d' \<and> in_using d' = hd (ys @ [NULL]) \<and> disk_ok d' (tl ys) \<and>
      ts_state (tsk (dk d') t) = TASK_RUNNING"
  proof (cases ys)
    case Nil
    with end_eq d1 c s'(2) show ?thesis by (simp add: disk_ok_def)
  next
    case (Cons y zs)
    with end_eq d1 c s'(2) z cmd_out_ok [of "d\<lparr>dk := s', dsm := m, in_using := NULL\<rparr>" y zs]
    show ?thesis by simp
  qed
qed

definition demo_disk :: disk where
  "demo_disk = \<lparr>dk = demo_sched\<lparr>wait_tsk := (\<lambda>_. 0x6000)\<rparr>, dsm = demo_smem, bb = (\<lambda>_. \<lparr>bb_count = 1, bb_cmd = 0x24,
     bb_LBA = 7, bb_buffer = 0x100000, bb_handler = Read_handler\<rparr>), disk_request = 0x8000, in_using = 0xA000,
     block_request_count = 1, port_log = [], dmem = (\<lambda>_. 0)\<rparr>"

lemma demo_kfree_find: "\<forall>i \<in> set js. i < 16 \<Longrightarrow> kfree_find demo_smem 0 js = Some None"
proof (induction js)
  case (Cons j js)
  have "8 + j < 2 ^ 64 \<and> (8 + j) * 0x200000 < 2 ^ 64" using Cons.prems by simp
  then have "unat ((8 + word_of_nat j) * 0x200000 :: u64) = (8 + j) * 0x200000"
    using unat_of_nat_small [of "(8 + j) * 0x200000"] by (simp add: algebra_simps)
  then have "(8 + word_of_nat j) * 0x200000 \<noteq> (0 :: u64)" by (metis add_is_0 mult_is_0 numeral_neq_zero unat_0)
  then have "kfree_walk demo_smem 0 (8 + word_of_nat j) (8 + word_of_nat j) = Some None"
    by (subst kfree_walk.simps) (simp add: demo_smem_def push_bit_eq_mult)
  moreover have "cache_pool (kmalloc_cache_size demo_smem j) = 8 + word_of_nat j"
    by (simp add: demo_smem_def)
  ultimately show ?case using Cons by simp
qed simp

lemma demo_kfree: "kfree 2 0xA000 demo_smem = Some (0, demo_smem)"
  using demo_kfree_find [of "[0..<16]"] by (simp add: numeral_2_eq_2)

theorem disk_requests_fifo_witness:
  "in_using (submit 0xB000 demo_disk) = 0xA000 \<and>
   (\<exists>d'. end_request 0xA000 demo_disk = Some d' \<and> in_using d' = 0x9000)"
proof -
  obtain r m where f: "kfree 2 (in_using demo_disk) (dsm demo_disk) = Some (r, m)"
    using demo_kfree by (auto simp: demo_disk_def)
  have "sched_wf (dk demo_disk) [0x2000, 0x3000]"
    using demo_wf by (simp add: demo_disk_def sched_wf_def runq_def SMP_cpu_id_def)
  moreover have "disk_ok demo_disk [0x9000]"
    using demo_waitq by (simp add: disk_ok_def demo_disk_def waitq_def)
  moreover have "set (disk_request demo_disk # [0x9000]) \<inter> sched_nodes (dk demo_disk) [0x2000, 0x3000] = {}"
    "0x6000 = wait_tsk (dk demo_disk) (in_using demo_disk)"
    "0x6000 \<notin> sched_nodes (dk demo_disk) [0x2000, 0x3000]"
    "ts_cpu_id (tsk (dk demo_disk) 0x6000) = SMP_cpu_id (dk demo_disk)"
    "0x6000 \<notin> set (disk_request demo_disk # [0x9000])"
    by (simp_all add: demo_disk_def sched_nodes_def demo_sched_def demo_task_def zero_task_def SMP_cpu_id_def)
  moreover have "0xB000 \<notin> set (disk_request demo_disk # [0x9000])" "(0xB000 :: addr) \<noteq> NULL"
    by (simp_all add: demo_disk_def)
  moreover note f
  ultimately have "in_using (submit 0xB000 demo_disk) = (if in_using demo_disk = NULL then 0xB000 else in_using demo_disk) \<and>
      (\<exists>d'. end_request (in_using demo_disk) demo_disk = Some d' \<and> in_using d' = hd ([0x9000] @ [NULL]))"
    using disk_requests_fifo [of demo_disk "[0x9000]" "0xB000" "[0x2000, 0x3000]" r m "0x6000"] by blast
  moreover have "in_using demo_disk = 0xA000" by (simp add: demo_disk_def)
  ultimately show ?thesis by simp
qed

end
