(* ===== verification/Fat32_Table.thy ===== *)
theory Fat32_Table
  imports Vfs_Types Disk
begin

unbundle bit_operations_syntax

text \<open>
  The file allocation table of \<open>src/fat32.c\<close>: reading and writing an entry and the search for a
  free cluster.  The interface \<open>alloc_table\<close> states what its clients rely on and proves once how
  cluster chains grow; it is interpreted on the code's operations.
\<close>

section \<open>Entries\<close>

text \<open>The 32-bit word \<open>buf[j]\<close> of a sector.\<close>

definition sector_word :: "(nat \<Rightarrow> u8) \<Rightarrow> nat \<Rightarrow> u32" where
  "sector_word f j = ucast (le_word (map (\<lambda>k. f (4 * j + k)) [0..<4]))"

definition set_sector_word :: "nat \<Rightarrow> u32 \<Rightarrow> (nat \<Rightarrow> u8) \<Rightarrow> nat \<Rightarrow> u8" where
  "set_sector_word j v f = (\<lambda>i. if i div 4 = j then byte_of (i mod 4) (ucast v) else f i)"

definition fat_sector :: "FAT32_sb_info \<Rightarrow> u32 \<Rightarrow> u64" where
  "fat_sector fsbi fat_entry = FAT1_firstsector fsbi + ucast (drop_bit 7 fat_entry)"

definition read_FAT_Entry :: "FAT32_sb_info \<Rightarrow> u32 \<Rightarrow> image \<Rightarrow> u32" where
  "read_FAT_Entry fsbi fat_entry d =
     sector_word (d (fat_sector fsbi fat_entry)) (unat (fat_entry AND 0x7f)) AND 0x0fffffff"

definition write_FAT_copy :: "FAT32_sb_info \<Rightarrow> u32 \<Rightarrow> (nat \<Rightarrow> u8) \<Rightarrow> nat \<Rightarrow> image \<Rightarrow> image" where
  "write_FAT_copy fsbi fat_entry buf i d =
     d(FAT1_firstsector fsbi + sector_per_FAT fsbi * word_of_nat i + ucast (drop_bit 7 fat_entry) :=
         (\<lambda>k. if k < 512 then buf k else
            d (FAT1_firstsector fsbi + sector_per_FAT fsbi * word_of_nat i + ucast (drop_bit 7 fat_entry)) k))"

definition write_FAT_Entry :: "FAT32_sb_info \<Rightarrow> u32 \<Rightarrow> u32 \<Rightarrow> image \<Rightarrow> image" where
  "write_FAT_Entry fsbi fat_entry v d =
     (let buf = d (fat_sector fsbi fat_entry);
          j = unat (fat_entry AND 0x7f);
          buf = set_sector_word j ((sector_word buf j AND 0xf0000000) OR (v AND 0x0fffffff)) buf
      in fold (write_FAT_copy fsbi fat_entry buf) [0..<unat (NumFATs fsbi)] d)"

section \<open>Free clusters\<close>

definition free_in_sector :: "(nat \<Rightarrow> u8) \<Rightarrow> nat option" where
  "free_in_sector f = find (\<lambda>j. sector_word f j AND 0x0fffffff = 0) [0..<128]"

fun find_available_loop :: "FAT32_sb_info \<Rightarrow> image \<Rightarrow> nat list \<Rightarrow> u64" where
  "find_available_loop fsbi d [] = 0"
| "find_available_loop fsbi d (i # is) =
     (case free_in_sector (d (FAT1_firstsector fsbi + word_of_nat i)) of
        Some j \<Rightarrow> scast (push_bit 7 (word_of_nat i) + word_of_nat j :: u32)
      | None \<Rightarrow> find_available_loop fsbi d is)"

definition find_available_cluster :: "FAT32_sb_info \<Rightarrow> image \<Rightarrow> u64" where
  "find_available_cluster fsbi d = find_available_loop fsbi d [0..<unat (sector_per_FAT fsbi)]"

section \<open>Reading back an entry\<close>

lemma bit_sector_word:
  "bit (sector_word f j) n \<longleftrightarrow> n < 32 \<and> bit (f (4 * j + n div 8)) (n mod 8)"
proof (cases "n < 32")
  case True
  then have "n div 8 < 4" by (simp add: div_less_iff_less_mult)
  with True show ?thesis by (simp add: sector_word_def bit_simps bit_le_word)
next
  case False
  then show ?thesis using bit_imp_le_length [of "sector_word f j" n] by auto
qed

lemma sector_word_set:
  "sector_word (set_sector_word j v f) i = (if i = j then v else sector_word f i)"
proof (rule bit_word_eqI)
  fix n
  assume n: "n < LENGTH(32)"
  then have q: "n div 8 < 4" by (simp add: div_less_iff_less_mult)
  then have d: "(4 * i + n div 8) div 4 = i" "(4 * i + n div 8) mod 4 = n div 8" by simp_all
  have "8 * (n div 8) + n mod 8 = n" by simp
  with n d show "bit (sector_word (set_sector_word j v f) i) n = bit (if i = j then v else sector_word f i) n"
    by (auto simp: bit_sector_word set_sector_word_def byte_of_def bit_simps)
qed

lemma sector_word_cong: "(\<And>k. k < 4 \<Longrightarrow> f (4 * j + k) = g (4 * j + k)) \<Longrightarrow> sector_word f j = sector_word g j"
  unfolding sector_word_def by (intro arg_cong [where f = "\<lambda>xs. ucast (le_word xs)"] map_cong) auto

lemma unat_and_127: "unat (e AND 0x7f :: u32) = unat e mod 128"
proof -
  have "e AND 0x7f = take_bit 7 e" by (simp add: take_bit_eq_mask mask_eq_exp_minus_1)
  then show ?thesis by (simp only: unsigned_take_bit_eq) (simp add: take_bit_eq_mod)
qed

lemma unat_drop_7: "unat (ucast (drop_bit 7 (e :: u32)) :: u64) = unat e div 128"
proof -
  have "take_bit 32 (unat e) = unat e" using unat_less_2p32 [of e] by (simp add: take_bit_nat_eq_self)
  then show ?thesis by (simp only: unat_ucast_32 unsigned_drop_bit_eq) (simp add: drop_bit_eq_div)
qed

text \<open>Where the table is: its copies lie one after the other without wrapping around.\<close>

definition table_ok :: "FAT32_sb_info \<Rightarrow> bool" where
  "table_ok fsbi \<longleftrightarrow> 0 < unat (NumFATs fsbi) \<and>
     unat (FAT1_firstsector fsbi) + unat (sector_per_FAT fsbi) * unat (NumFATs fsbi) < 2 ^ 64"

definition entry_ok :: "FAT32_sb_info \<Rightarrow> u32 \<Rightarrow> bool" where
  "entry_ok fsbi e \<longleftrightarrow> table_ok fsbi \<and> unat e div 128 < unat (sector_per_FAT fsbi)"

lemma unat_sum3:
  assumes "unat (a :: u64) + x * n < 2 ^ 64" and "i < n" and "unat (s :: u64) = x" and "unat (q :: u64) < x"
  shows "unat (a + s * word_of_nat i + q) = unat a + x * i + unat q"
proof -
  have "x * Suc i \<le> x * n" using assms(2) by (intro mult_le_mono2) simp
  then have le: "unat a + x * i + unat q < 2 ^ 64" using assms(1,4) by simp
  have "0 < x" using assms(4) by simp
  then have "i \<le> x * i" by simp
  then have i: "unat (word_of_nat i :: u64) = i" using le by (intro unat_of_nat_small) linarith
  have m: "unat (s * word_of_nat i) = x * i" using le assms(3) i by (simp add: unat_word_ariths)
  then have "unat (a + s * word_of_nat i) = unat a + x * i" using le by (simp add: unat_word_ariths)
  then show ?thesis using le by (simp add: unat_word_ariths)
qed

lemma fat_sector_nat:
  "entry_ok fsbi e \<Longrightarrow> i < unat (NumFATs fsbi) \<Longrightarrow>
   unat (FAT1_firstsector fsbi + sector_per_FAT fsbi * word_of_nat i + ucast (drop_bit 7 e)) =
     unat (FAT1_firstsector fsbi) + unat (sector_per_FAT fsbi) * i + unat e div 128"
  using unat_sum3 [of "FAT1_firstsector fsbi" "unat (sector_per_FAT fsbi)" "unat (NumFATs fsbi)" i
    "sector_per_FAT fsbi" "ucast (drop_bit 7 e)"]
  unfolding entry_ok_def table_ok_def unat_drop_7 by blast

text \<open>The write reaches the sector of an entry of the first copy only through the copy \<open>i = 0\<close>.\<close>

lemma first_copy_only:
  assumes "entry_ok fsbi e" and "entry_ok fsbi k" and "i < unat (NumFATs fsbi)"
    and "fat_sector fsbi k = FAT1_firstsector fsbi + sector_per_FAT fsbi * word_of_nat i + ucast (drop_bit 7 e)"
  shows "i = 0 \<and> unat k div 128 = unat e div 128"
proof -
  have n: "0 < unat (NumFATs fsbi)" using assms(1) by (simp add: entry_ok_def table_ok_def)
  have "unat (fat_sector fsbi k) = unat (FAT1_firstsector fsbi) + unat k div 128"
    using fat_sector_nat [OF assms(2) n] by (simp add: fat_sector_def)
  with fat_sector_nat [OF assms(1,3)] assms(4)
  have eq: "unat k div 128 = unat (sector_per_FAT fsbi) * i + unat e div 128" by simp
  have "unat k div 128 < unat (sector_per_FAT fsbi)" using assms(2) by (simp add: entry_ok_def)
  with eq have "unat (sector_per_FAT fsbi) * i < unat (sector_per_FAT fsbi) * 1" by linarith
  then have "i = 0" by (simp only: mult_less_cancel1) simp
  with eq show ?thesis by simp
qed

lemma same_sector:
  "unat k div 128 = unat e div 128 \<longleftrightarrow> (ucast (drop_bit 7 (k :: u32)) :: u64) = ucast (drop_bit 7 (e :: u32))"
  by (simp only: word_unat_eq_iff unat_drop_7)

lemma write_FAT_copy_apply:
  "write_FAT_copy fsbi e buf i d s =
     (if s = FAT1_firstsector fsbi + sector_per_FAT fsbi * word_of_nat i + ucast (drop_bit 7 e)
      then (\<lambda>k. if k < 512 then buf k else d s k) else d s)"
  unfolding write_FAT_copy_def fun_upd_apply by (rule if_cong [OF refl]) auto

lemma write_copies_sector:
  assumes "entry_ok fsbi e" and "entry_ok fsbi k" and "n \<le> unat (NumFATs fsbi)"
  shows "fold (write_FAT_copy fsbi e buf) [0..<n] d (fat_sector fsbi k) =
     (if 0 < n \<and> unat k div 128 = unat e div 128 then (\<lambda>i. if i < 512 then buf i else d (fat_sector fsbi k) i)
      else d (fat_sector fsbi k))"
  using assms(3)
proof (induction n)
  case 0
  then show ?case by simp
next
  case (Suc n)
  let ?d = "fold (write_FAT_copy fsbi e buf) [0..<n] d"
  let ?a = "FAT1_firstsector fsbi + sector_per_FAT fsbi * word_of_nat n + ucast (drop_bit 7 e)"
  have IH: "?d (fat_sector fsbi k) =
     (if 0 < n \<and> unat k div 128 = unat e div 128 then (\<lambda>i. if i < 512 then buf i else d (fat_sector fsbi k) i)
      else d (fat_sector fsbi k))" using Suc by simp
  have st: "fold (write_FAT_copy fsbi e buf) [0..<Suc n] d = write_FAT_copy fsbi e buf n ?d" by simp
  have step: "fold (write_FAT_copy fsbi e buf) [0..<Suc n] d (fat_sector fsbi k) =
      (if fat_sector fsbi k = ?a then (\<lambda>i. if i < 512 then buf i else ?d (fat_sector fsbi k) i)
       else ?d (fat_sector fsbi k))"
    unfolding st by (rule write_FAT_copy_apply)
  show ?case
  proof (cases "fat_sector fsbi k = ?a")
    case True
    with first_copy_only [OF assms(1,2), of n] Suc.prems have "n = 0" "unat k div 128 = unat e div 128" by auto
    then show ?thesis unfolding step if_P [OF True] IH by simp
  next
    case False
    then have "n = 0 \<Longrightarrow> unat k div 128 \<noteq> unat e div 128" by (auto simp: fat_sector_def same_sector)
    then show ?thesis unfolding step if_not_P [OF False] IH by (cases "n = 0") auto
  qed
qed

lemma read_write_FAT:
  assumes "entry_ok fsbi e" and "entry_ok fsbi k"
  shows "read_FAT_Entry fsbi k (write_FAT_Entry fsbi e v d) =
     (if k = e then v AND 0x0fffffff else read_FAT_Entry fsbi k d)"
proof -
  let ?j = "unat (e AND 0x7f)"
  let ?w = "(sector_word (d (fat_sector fsbi e)) ?j AND 0xf0000000) OR (v AND 0x0fffffff)"
  let ?b = "set_sector_word ?j ?w (d (fat_sector fsbi e))"
  let ?i = "unat (k AND 0x7f)"
  have n: "0 < unat (NumFATs fsbi)" using assms(1) by (simp add: entry_ok_def table_ok_def)
  have s: "write_FAT_Entry fsbi e v d (fat_sector fsbi k) =
     (if unat k div 128 = unat e div 128 then (\<lambda>i. if i < 512 then ?b i else d (fat_sector fsbi k) i)
      else d (fat_sector fsbi k))"
    using write_copies_sector [OF assms order_refl] n by (simp add: write_FAT_Entry_def Let_def)
  show ?thesis
  proof (cases "unat k div 128 = unat e div 128")
    case False
    then have "k \<noteq> e" by auto
    with False s show ?thesis by (simp add: read_FAT_Entry_def)
  next
    case True
    then have fs: "fat_sector fsbi k = fat_sector fsbi e"
      by (simp add: fat_sector_def same_sector)
    have j: "?i < 128" "?j < 128" by (simp_all add: unat_and_127)
    have "sector_word (write_FAT_Entry fsbi e v d (fat_sector fsbi k)) ?i = sector_word ?b ?i"
      unfolding s using True j by (intro sector_word_cong) simp
    then have w: "sector_word (write_FAT_Entry fsbi e v d (fat_sector fsbi k)) ?i =
        (if ?i = ?j then ?w else sector_word (d (fat_sector fsbi e)) ?i)"
      by (simp add: sector_word_set)
    have ij: "?i = ?j \<longleftrightarrow> k = e"
    proof
      assume "?i = ?j"
      then have "unat k mod 128 = unat e mod 128" by (simp add: unat_and_127)
      with True have "unat k = unat e" by (metis div_mult_mod_eq)
      then show "k = e" by (simp only: word_unat_eq_iff)
    qed simp
    have "(a AND h OR v AND x) AND x = (a AND (h AND x)) OR (v AND (x AND x))" for a h x :: u32
      by (rule bit_word_eqI) (auto simp: bit_simps)
    then have m: "?w AND 0x0fffffff = v AND 0x0fffffff" by simp
    show ?thesis unfolding read_FAT_Entry_def w ij using m fs by simp
  qed
qed

section \<open>Chains of clusters\<close>

text \<open>The clusters visited from \<open>c\<close> on when each entry holds the number of the next cluster,
  up to an end mark.\<close>

fun chain :: "('k \<Rightarrow> 'k) \<Rightarrow> ('k \<Rightarrow> bool) \<Rightarrow> 'k list \<Rightarrow> bool" where
  "chain g is_end [] \<longleftrightarrow> False"
| "chain g is_end [c] \<longleftrightarrow> is_end (g c)"
| "chain g is_end (c # x # xs) \<longleftrightarrow> \<not> is_end (g c) \<and> g c = x \<and> chain g is_end (x # xs)"

lemma chain_cong: "(\<And>c. c \<in> set cs \<Longrightarrow> g c = h c) \<Longrightarrow> chain g e cs = chain h e cs"
  by (induction g e cs rule: chain.induct) auto

lemma chain_tl: "chain g e (c # x # xs) \<Longrightarrow> chain g e (x # xs)"
  by simp

lemma chain_determined: "chain g e (c # xs) \<Longrightarrow> chain g e (c # ys) \<Longrightarrow> xs = ys"
proof (induction xs arbitrary: c ys)
  case Nil
  then show ?case by (cases ys) auto
next
  case (Cons x xs)
  then show ?case by (cases ys) auto
qed

lemma chain_suffix: "chain g e (xs @ c # ys) \<Longrightarrow> chain g e (c # ys)"
proof (induction xs)
  case (Cons x xs)
  then show ?case by (cases "xs @ c # ys") auto
qed simp

text \<open>A chain that ends has no loop.\<close>

lemma chain_distinct: "chain g e cs \<Longrightarrow> distinct cs"
proof (induction cs)
  case (Cons c cs)
  have "c \<notin> set cs"
  proof
    assume "c \<in> set cs"
    then obtain as bs where cs: "cs = as @ c # bs" by (meson split_list)
    then have "chain g e (c # bs)" using Cons.prems chain_suffix [of g e "c # as" c bs] by simp
    with Cons.prems have "bs = cs" using chain_determined by metis
    with cs show False by simp
  qed
  moreover have "distinct cs" using Cons by (cases cs) auto
  ultimately show ?case by simp
qed simp

lemma chain_next: "chain g e cs \<Longrightarrow> c \<in> set cs \<Longrightarrow> e (g c) \<or> g c \<in> set cs"
  by (induction g e cs rule: chain.induct) auto

lemma chain_nth: "chain g e cs \<Longrightarrow> Suc i < length cs \<Longrightarrow> g (cs ! i) = cs ! Suc i"
proof (induction cs arbitrary: i)
  case (Cons c cs)
  then show ?case by (cases cs; cases i) auto
qed simp

lemma chain_walk: "chain g e cs \<Longrightarrow> i < length cs \<Longrightarrow> (g ^^ i) (hd cs) = cs ! i"
  by (induction i) (auto simp: chain_nth hd_conv_nth)

locale alloc_table =
  fixes get :: "'d \<Rightarrow> 'k \<Rightarrow> 'k"
    and put :: "'d \<Rightarrow> 'k \<Rightarrow> 'k \<Rightarrow> 'd"
    and valid :: "'d \<Rightarrow> 'k \<Rightarrow> bool"
    and storable :: "'k \<Rightarrow> bool"
    and is_end :: "'k \<Rightarrow> bool"
    and unused :: 'k
  assumes get_put: "valid d k \<Longrightarrow> valid d j \<Longrightarrow> storable v \<Longrightarrow>
      get (put d k v) j = (if j = k then v else get d j)"
    and valid_put: "valid (put d k v) j = valid d j"
    and unused_not_end: "\<not> is_end unused"
begin

lemma free_not_in_chain:
  "chain (get d) is_end cs \<Longrightarrow> unused \<notin> set cs \<Longrightarrow> get d n = unused \<Longrightarrow> n \<notin> set cs"
  using chain_next [of "get d" is_end cs n] unused_not_end by auto

lemma chain_other:
  assumes "chain (get d) is_end cs" and "\<forall>c\<in>set cs. valid d c" and "valid d k" and "storable v"
    and "k \<notin> set cs"
  shows "chain (get (put d k v)) is_end cs"
proof -
  have "get (put d k v) c = get d c" if "c \<in> set cs" for c
    using that assms by (auto simp: get_put)
  then show ?thesis using assms(1) chain_cong [of cs "get (put d k v)" "get d"] by simp
qed

lemma chain_link:
  assumes "chain (get d) is_end cs" and "\<forall>c\<in>set cs. valid d c" and "valid d n" and "n \<notin> set cs"
    and "storable n" and "storable v" and "\<not> is_end n" and "is_end v"
  shows "chain (get (put (put d (last cs) n) n v)) is_end (cs @ [n])"
  using assms(1,2,4) chain_distinct [OF assms(1)]
proof (induction cs)
  case (Cons c cs)
  show ?case
  proof (cases cs)
    case Nil
    with Cons.prems assms show ?thesis by (simp add: get_put valid_put)
  next
    case (Cons x xs)
    from Cons.prems Cons have "chain (get (put (put d (last cs) n) n v)) is_end (cs @ [n])"
      by (intro Cons.IH) auto
    moreover have "get (put (put d (last cs) n) n v) c = x"
      using Cons.prems Cons assms by (auto simp: get_put valid_put)
    moreover have "\<not> is_end x" using Cons.prems Cons by auto
    ultimately show ?thesis using Cons by auto
  qed
qed simp

end

text \<open>The code's operations on a volume, a pair of its parameters and the medium.\<close>

definition END_MARK :: u32 where "END_MARK = 0x0ffffff8"

definition is_end_mark :: "u32 \<Rightarrow> bool" where "is_end_mark v \<longleftrightarrow> END_MARK \<le> v"

definition fat_get :: "FAT32_sb_info \<times> image \<Rightarrow> u32 \<Rightarrow> u32" where
  "fat_get v e = read_FAT_Entry (fst v) e (snd v)"

definition fat_put :: "FAT32_sb_info \<times> image \<Rightarrow> u32 \<Rightarrow> u32 \<Rightarrow> FAT32_sb_info \<times> image" where
  "fat_put v e x = (fst v, write_FAT_Entry (fst v) e x (snd v))"

interpretation fat: alloc_table fat_get fat_put "\<lambda>v. entry_ok (fst v)" "\<lambda>x. x AND 0x0fffffff = x" is_end_mark 0
  by unfold_locales (auto simp: fat_get_def fat_put_def read_write_FAT is_end_mark_def END_MARK_def)

section \<open>The search\<close>

lemma fat_entry_split:
  assumes "i * 128 + j < 2 ^ 32" and "j < 128"
  shows "fat_sector fsbi (word_of_nat (i * 128 + j)) = FAT1_firstsector fsbi + word_of_nat i"
    and "unat ((word_of_nat (i * 128 + j) :: u32) AND 0x7f) = j"
proof -
  have e: "unat (word_of_nat (i * 128 + j) :: u32) = i * 128 + j"
    using assms(1) by (simp only: unat_of_nat) simp
  have i: "i < 2 ^ 64" using assms(1) by simp
  have "unat (ucast (drop_bit 7 (word_of_nat (i * 128 + j) :: u32)) :: u64) = i"
    unfolding unat_drop_7 e using assms(2) by simp
  then have "ucast (drop_bit 7 (word_of_nat (i * 128 + j) :: u32)) = (word_of_nat i :: u64)"
    using i by (simp only: word_unat_eq_iff unat_of_nat_small)
  then show "fat_sector fsbi (word_of_nat (i * 128 + j)) = FAT1_firstsector fsbi + word_of_nat i"
    by (simp add: fat_sector_def)
  show "unat ((word_of_nat (i * 128 + j) :: u32) AND 0x7f) = j"
    unfolding unat_and_127 e using assms(2) by simp
qed

lemma cluster_number:
  assumes "i * 128 + j < 2 ^ 31"
  shows "scast (push_bit 7 (word_of_nat i) + word_of_nat j :: u32) = (word_of_nat (i * 128 + j) :: u64)"
proof -
  have "push_bit 7 (word_of_nat i) + word_of_nat j = (word_of_nat (i * 128 + j) :: u32)"
    by (simp add: push_bit_eq_mult)
  moreover have "scast (word_of_nat n :: u32) = (word_of_nat n :: u64)" if "n < 2 ^ 31" for n
    using that by transfer (simp add: signed_take_bit_int_eq_self)
  ultimately show ?thesis using assms by (simp only:)
qed

lemma free_in_sector_entry:
  assumes "i < 2 ^ 24"
  shows "(case free_in_sector (d (FAT1_firstsector fsbi + word_of_nat i)) of
      Some j \<Rightarrow> j < 128 \<and> read_FAT_Entry fsbi (word_of_nat (i * 128 + j)) d = 0 \<and>
        (\<forall>k < j. read_FAT_Entry fsbi (word_of_nat (i * 128 + k)) d \<noteq> 0)
    | None \<Rightarrow> \<forall>k < 128. read_FAT_Entry fsbi (word_of_nat (i * 128 + k)) d \<noteq> 0)"
proof -
  have r: "read_FAT_Entry fsbi (word_of_nat (i * 128 + k)) d =
      sector_word (d (FAT1_firstsector fsbi + word_of_nat i)) k AND 0x0fffffff" if "k < 128" for k
    using fat_entry_split [of i k] that assms by (simp add: read_FAT_Entry_def)
  show ?thesis
    unfolding free_in_sector_def
    by (auto simp: r find_None_iff find_Some_iff simp del: of_nat_add of_nat_mult split: option.splits)
qed

lemma find_available_loop_spec:
  assumes "n \<le> unat (sector_per_FAT fsbi)" and "unat (sector_per_FAT fsbi) < 2 ^ 24"
    and "\<forall>k < n * 128. read_FAT_Entry fsbi (word_of_nat k) d \<noteq> 0"
  shows "(\<exists>k < unat (sector_per_FAT fsbi) * 128.
       find_available_loop fsbi d [n..<unat (sector_per_FAT fsbi)] = word_of_nat k \<and>
       read_FAT_Entry fsbi (word_of_nat k) d = 0 \<and> (\<forall>i < k. read_FAT_Entry fsbi (word_of_nat i) d \<noteq> 0)) \<or>
     find_available_loop fsbi d [n..<unat (sector_per_FAT fsbi)] = 0 \<and>
       (\<forall>k < unat (sector_per_FAT fsbi) * 128. read_FAT_Entry fsbi (word_of_nat k) d \<noteq> 0)"
  using assms(1,3)
proof (induction "unat (sector_per_FAT fsbi) - n" arbitrary: n)
  case 0
  then show ?case by simp
next
  case (Suc m)
  let ?S = "unat (sector_per_FAT fsbi)"
  have n: "n < ?S" "m = ?S - Suc n" using Suc.hyps(2) by auto
  then have up: "[n..<?S] = n # [Suc n..<?S]" by (simp add: upt_conv_Cons)
  have below: "k < n * 128 \<or> (\<exists>j. k = n * 128 + j \<and> j < b)" if "k < n * 128 + b" for k b
    using that by (cases "k < n * 128") (auto intro: exI [of _ "k - n * 128"])
  show ?case
  proof (cases "free_in_sector (d (FAT1_firstsector fsbi + word_of_nat n))")
    case None
    with free_in_sector_entry [of n fsbi d] n(1) assms(2)
    have sec: "\<forall>k < 128. read_FAT_Entry fsbi (word_of_nat (n * 128 + k)) d \<noteq> 0"
      by (simp del: of_nat_add of_nat_mult)
    have all: "\<forall>k < Suc n * 128. read_FAT_Entry fsbi (word_of_nat k) d \<noteq> 0"
    proof (intro allI impI)
      fix k
      assume "k < Suc n * 128"
      then consider "k < n * 128" | j where "k = n * 128 + j" "j < 128" using below [of k 128] by auto
      then show "read_FAT_Entry fsbi (word_of_nat k) d \<noteq> 0" using Suc.prems(2) sec by cases blast+
    qed
    show ?thesis unfolding up find_available_loop.simps None option.case
      using Suc.hyps(1) [OF n(2) _ all] n(1) by simp
  next
    case (Some j)
    with free_in_sector_entry [of n fsbi d] n(1) assms(2)
    have j: "j < 128" "read_FAT_Entry fsbi (word_of_nat (n * 128 + j)) d = 0"
      "\<forall>k < j. read_FAT_Entry fsbi (word_of_nat (n * 128 + k)) d \<noteq> 0"
      by (simp_all del: of_nat_add of_nat_mult)
    have lt: "n * 128 + j < ?S * 128" "n * 128 + j < 2 ^ 31" using n(1) j(1) assms(2) by simp_all
    have "\<forall>i < n * 128 + j. read_FAT_Entry fsbi (word_of_nat i) d \<noteq> 0"
    proof (intro allI impI)
      fix i
      assume "i < n * 128 + j"
      then consider "i < n * 128" | k where "i = n * 128 + k" "k < j" using below [of i j] by auto
      then show "read_FAT_Entry fsbi (word_of_nat i) d \<noteq> 0" using Suc.prems(2) j(3) by cases blast+
    qed
    moreover have "find_available_loop fsbi d [n..<?S] = word_of_nat (n * 128 + j)"
      unfolding up find_available_loop.simps Some option.case by (rule cluster_number [OF lt(2)])
    ultimately show ?thesis using lt(1) j(2) by blast
  qed
qed

section \<open>The transfer of the driver\<close>

text \<open>The result of a transfer, and that the interrupts of a read request deliver exactly the bytes
  of \<open>ide_read\<close> when the controller offers the sectors of the medium.\<close>

lemma IDE_transfer_result:
  "cmd = ATA_READ_CMD \<or> cmd = ATA_WRITE_CMD \<Longrightarrow> IDE_transfer cmd lba n b d = Some (r, d') \<Longrightarrow> r = 1"
  by (auto simp: IDE_transfer_def bind_eq_Some_conv split: prod.splits)

lemma served_bytes:
  assumes "k < unat (bb_count (bb d (in_using d)))" and "j < k" and "i < 512"
    and "\<And>j. data j = m (lba + word_of_nat j)"
    and "bb_buffer (bb d (in_using d)) = b" and "k < 2 ^ 32"
  shows "\<exists>d'. serve_read data k d = Some d' \<and>
     dmem d' (b + 512 * word_of_nat j + word_of_nat i) =
     ide_read lba (word_of_nat k) b m (dmem d) (b + 512 * word_of_nat j + word_of_nat i)"
proof -
  obtain d' where d': "serve_read data k d = Some d'"
    "\<forall>j i. j < k \<and> i < 512 \<longrightarrow> dmem d' (bb_buffer (bb d (in_using d)) + 512 * word_of_nat j + word_of_nat i) = data j i"
    using serve_read_delivers [of k d data] assms(1,6) by auto
  have j: "512 * j + i < 2 ^ 64" "k < 2 ^ 64" using assms(2,3,6) by simp_all
  have "512 * word_of_nat j + word_of_nat i = (word_of_nat (512 * j + i) :: u64)" by simp
  then have u: "unat (b + 512 * word_of_nat j + word_of_nat i - b) = 512 * j + i"
    using unat_of_nat_small [OF j(1)] by (simp only: add.assoc add_diff_cancel_left')
  have "512 * j + i < 512 * k" "(512 * j + i) div 512 = j" "(512 * j + i) mod 512 = i" using assms(2,3) by simp_all
  then show ?thesis using d' assms(2-5) u unat_of_nat_small [OF j(2)] by (auto simp: ide_read_def)
qed

section \<open>Properties\<close>

text \<open>\<open>FAT32_find_available_cluster\<close> returns the lowest cluster whose entry is 0, searching
  every entry of the table, and 0 when there is none.\<close>

theorem find_available_least:
  assumes "unat (sector_per_FAT fsbi) < 2 ^ 24"
  shows "(\<exists>k < unat (sector_per_FAT fsbi) * 128. find_available_cluster fsbi d = word_of_nat k \<and>
       read_FAT_Entry fsbi (word_of_nat k) d = 0 \<and> (\<forall>i < k. read_FAT_Entry fsbi (word_of_nat i) d \<noteq> 0)) \<or>
     find_available_cluster fsbi d = 0 \<and>
       (\<forall>k < unat (sector_per_FAT fsbi) * 128. read_FAT_Entry fsbi (word_of_nat k) d \<noteq> 0)"
  unfolding find_available_cluster_def
  by (rule find_available_loop_spec [OF _ assms]) simp_all

definition demo_fsbi :: FAT32_sb_info where
  "demo_fsbi = \<lparr>start_sector = 0, sector_count = 1000, sector_per_cluster = 1, bytes_per_cluster = 512,
     bytes_per_sector = 512, Data_firstsector = 20, FAT1_firstsector = 10, sector_per_FAT = 1, NumFATs = 2,
     fsinfo_sector_infat = 1, bootsector_bk_infat = 6, fat_fsinfo = 0\<rparr>"

text \<open>A medium whose table reserves entries 0 and 1 and holds the chains 2, 3 and 5.\<close>

definition demo_image :: image where
  "demo_image = (\<lambda>s k. if s = 10 \<or> s = 11 then
     (if k < 8 then 0x0f else if k = 8 then 3 else if k \<in> {12, 13, 14, 20, 21, 22} then 0xff
      else if k \<in> {15, 23} then 0x0f else 0)
     else if s = 20 then word_of_nat k else if s = 21 then word_of_nat (k + 7) else 0)"

lemma demo_entries:
  "read_FAT_Entry demo_fsbi 0 demo_image \<noteq> 0" "read_FAT_Entry demo_fsbi 1 demo_image \<noteq> 0"
  "read_FAT_Entry demo_fsbi 2 demo_image = 3" "read_FAT_Entry demo_fsbi 3 demo_image = 0x0fffffff"
  "read_FAT_Entry demo_fsbi 4 demo_image = 0" "read_FAT_Entry demo_fsbi 5 demo_image = 0x0fffffff"
  by (simp_all add: read_FAT_Entry_def fat_sector_def sector_word_def demo_fsbi_def demo_image_def upt_rec)

theorem find_available_least_witness: "find_available_cluster demo_fsbi demo_image = 4"
proof -
  have s: "unat (sector_per_FAT demo_fsbi) = 1" by (simp add: demo_fsbi_def)
  have four: "read_FAT_Entry demo_fsbi (word_of_nat 4) demo_image = 0" using demo_entries(5) by simp
  have least: "k = 4" if "read_FAT_Entry demo_fsbi (word_of_nat k) demo_image = 0"
    "\<forall>i < k. read_FAT_Entry demo_fsbi (word_of_nat i) demo_image \<noteq> 0" for k
  proof (rule linorder_cases [of k 4])
    assume "k < 4"
    then consider "k = 0" | "k = 1" | "k = 2" | "k = 3" by linarith
    then show ?thesis using that(1) demo_entries by cases simp_all
  next
    assume "4 < k"
    then show ?thesis using that(2) four by blast
  qed simp
  have "unat (sector_per_FAT demo_fsbi) < 2 ^ 24" unfolding s by simp
  from find_available_least [OF this, of demo_image] show ?thesis
  proof (elim disjE exE conjE)
    assume "\<forall>k < unat (sector_per_FAT demo_fsbi) * 128. read_FAT_Entry demo_fsbi (word_of_nat k) demo_image \<noteq> 0"
    then have "read_FAT_Entry demo_fsbi (word_of_nat 4) demo_image \<noteq> 0" unfolding s by (elim allE [of _ 4]) simp
    with four show ?thesis by contradiction
  next
    fix k
    assume "find_available_cluster demo_fsbi demo_image = word_of_nat k"
      and "read_FAT_Entry demo_fsbi (word_of_nat k) demo_image = 0"
      and "\<forall>i < k. read_FAT_Entry demo_fsbi (word_of_nat i) demo_image \<noteq> 0"
    then show ?thesis using least [of k] by simp
  qed
qed

text \<open>C20.  Taking the free cluster the search returns and linking it behind the last cluster of a
  file, as the code does, extends the chain of the file by that cluster without a loop and leaves the
  chains of other files as they were.\<close>

theorem link_extends_chain:
  assumes "chain (\<lambda>c. read_FAT_Entry fsbi c d) is_end_mark cs"
    and "chain (\<lambda>c. read_FAT_Entry fsbi c d) is_end_mark cs'" and "set cs \<inter> set cs' = {}"
    and "\<forall>c \<in> set cs \<union> set cs'. entry_ok fsbi c \<and> c \<noteq> 0" and "entry_ok fsbi n"
    and "read_FAT_Entry fsbi n d = 0" and "n AND 0x0fffffff = n" and "n < END_MARK"
    and "d' = write_FAT_Entry fsbi n END_MARK (write_FAT_Entry fsbi (last cs) n d)"
  shows "chain (\<lambda>c. read_FAT_Entry fsbi c d') is_end_mark (cs @ [n]) \<and>
     chain (\<lambda>c. read_FAT_Entry fsbi c d') is_end_mark cs' \<and> distinct (cs @ [n])"
proof -
  have g: "fat_get (fsbi, x) = (\<lambda>c. read_FAT_Entry fsbi c x)" for x by (rule ext) (simp add: fat_get_def)
  have p: "fat_put (fat_put (fsbi, d) (last cs) n) n END_MARK = (fsbi, d')"
    unfolding assms(9) by (simp add: fat_put_def)
  have p1: "fat_put (fsbi, d) (last cs) n = (fsbi, write_FAT_Entry fsbi (last cs) n d)" by (simp add: fat_put_def)
  have n: "n \<notin> set cs" "n \<notin> set cs'"
    using fat.free_not_in_chain [of "(fsbi, d)"] assms by (auto simp: g)
  have ne: "cs \<noteq> []" using assms(1) by auto
  have e: "END_MARK AND 0x0fffffff = END_MARK" "is_end_mark END_MARK" "\<not> is_end_mark n"
    using assms(8) by (simp_all add: is_end_mark_def END_MARK_def)
  have new: "chain (\<lambda>c. read_FAT_Entry fsbi c d') is_end_mark (cs @ [n])"
    using fat.chain_link [of "(fsbi, d)" cs n END_MARK] assms n e by (simp add: g p)
  have l: "last cs \<notin> set cs'" "entry_ok fsbi (last cs)" using assms(3,4) last_in_set [OF ne] by auto
  have "chain (fat_get (fat_put (fsbi, d) (last cs) n)) is_end_mark cs'"
    using assms l by (intro fat.chain_other) (simp_all add: g)
  then have "chain (fat_get (fat_put (fat_put (fsbi, d) (last cs) n) n END_MARK)) is_end_mark cs'"
    using assms n e by (intro fat.chain_other [of "fat_put (fsbi, d) (last cs) n" cs' n END_MARK]) (simp_all add: p1)
  then have "chain (\<lambda>c. read_FAT_Entry fsbi c d') is_end_mark cs'" by (simp only: p g)
  with new show ?thesis using chain_distinct [OF new] by simp
qed

lemma demo_entry_ok: "unat e < 128 \<Longrightarrow> entry_ok demo_fsbi e"
  by (simp add: entry_ok_def table_ok_def demo_fsbi_def)

theorem link_extends_chain_witness:
  "chain (\<lambda>c. read_FAT_Entry demo_fsbi c
      (write_FAT_Entry demo_fsbi 4 END_MARK (write_FAT_Entry demo_fsbi 3 4 demo_image))) is_end_mark [2, 3, 4]"
proof -
  have c: "chain (\<lambda>c. read_FAT_Entry demo_fsbi c demo_image) is_end_mark [2, 3]"
    "chain (\<lambda>c. read_FAT_Entry demo_fsbi c demo_image) is_end_mark [5]"
    by (simp_all add: demo_entries is_end_mark_def END_MARK_def)
  show ?thesis
    using link_extends_chain [OF c, of 4] demo_entries(5) demo_entry_ok
    by (simp add: END_MARK_def del: chain.simps)
qed

end
