(* ===== verification/Fat32_File.thy ===== *)
theory Fat32_File
  imports Fat32_Table
begin

unbundle bit_operations_syntax

text \<open>
  The file operations of \<open>src/fat32.c\<close>: open, close, read, write and seek, and the write back of an
  inode into its directory entry.  \<open>*position\<close> is passed and returned as a value.  A result
  \<^const>\<open>None\<close> is a division by 0, the use of a null pointer or a loop that does not end.  A
  contract of a read is stated on the bytes of a file, which lie along its chain of clusters.
\<close>

section \<open>Open, close and seek\<close>

definition FAT32_open :: u64 where "FAT32_open = 1"
definition FAT32_close :: u64 where "FAT32_close = 1"

definition SEEK_SET :: u64 where "SEEK_SET = 0"
definition SEEK_CUR :: u64 where "SEEK_CUR = 1"
definition SEEK_END :: u64 where "SEEK_END = 2"

lemmas seeks = SEEK_SET_def SEEK_CUR_def SEEK_END_def

definition inode_of :: "addr \<Rightarrow> vfs \<Rightarrow> addr" where
  "inode_of filp s = dir_inode (dentries s (f_dentry (files s filp)))"

definition seek_target :: "addr \<Rightarrow> u64 \<Rightarrow> u64 \<Rightarrow> vfs \<Rightarrow> u64 option" where
  "seek_target filp offset origin s =
     (if origin = SEEK_SET then Some offset
      else if origin = SEEK_CUR then Some (f_position (files s filp) + offset)
      else if origin = SEEK_END then Some (file_size (inodes s (inode_of filp s)) + offset)
      else None)"

definition FAT32_lseek :: "addr \<Rightarrow> u64 \<Rightarrow> u64 \<Rightarrow> vfs \<Rightarrow> u64 \<times> vfs" where
  "FAT32_lseek filp offset origin s =
     (case seek_target filp offset origin s of
        None \<Rightarrow> (- EINVAL, s)
      | Some pos \<Rightarrow>
          if sint pos < 0 \<or> pos > file_size (inodes s (inode_of filp s)) then (- EOVERFLOW, s)
          else (pos, upd_file filp (\<lambda>f. f\<lparr>f_position := pos\<rparr>) s))"

section \<open>Read\<close>

definition cluster_sector :: "FAT32_sb_info \<Rightarrow> u64 \<Rightarrow> u64" where
  "cluster_sector fsbi cluster = Data_firstsector fsbi + (cluster - 2) * sector_per_cluster fsbi"

definition next_in_FAT :: "FAT32_sb_info \<Rightarrow> image \<Rightarrow> u64 \<Rightarrow> u64" where
  "next_in_FAT fsbi d cluster = ucast (read_FAT_Entry fsbi (ucast cluster) d)"

definition seek_cluster :: "FAT32_sb_info \<Rightarrow> image \<Rightarrow> u32 \<Rightarrow> u64 \<Rightarrow> u64" where
  "seek_cluster fsbi d index cluster = (next_in_FAT fsbi d ^^ nat (sint index)) cluster"

text \<open>\<open>index <= bytes_per_cluster - offset ? index : bytes_per_cluster - offset\<close>, as an \<open>int\<close>.\<close>

definition piece :: "FAT32_sb_info \<Rightarrow> u32 \<Rightarrow> u64 \<Rightarrow> u32" where
  "piece fsbi index offset =
     (if sint index \<le> sint (bytes_per_cluster fsbi - offset) then index
      else ucast (bytes_per_cluster fsbi - offset))"

definition read_cluster :: "FAT32_sb_info \<Rightarrow> addr \<Rightarrow> u64 \<Rightarrow> vfs \<Rightarrow> vfs" where
  "read_cluster fsbi buffer sector s =
     (let m = snd (memset buffer 0 (bytes_per_cluster fsbi) (vmem s))
      in s\<lparr>vmem := ide_read sector (sector_per_cluster fsbi) buffer (img s) m\<rparr>)"

definition copy_out_piece :: "addr \<Rightarrow> addr \<Rightarrow> u32 \<Rightarrow> vfs \<Rightarrow> vfs" where
  "copy_out_piece from buf len s =
     s\<lparr>vmem := snd (if buf < TASK_SIZE then copy_to_user from buf (scast len) (vmem s)
                    else memcpy from buf (scast len) (vmem s))\<rparr>"

partial_function (option) FAT32_read_loop ::
    "FAT32_sb_info \<Rightarrow> addr \<Rightarrow> u64 \<Rightarrow> u32 \<Rightarrow> u64 \<Rightarrow> addr \<Rightarrow> u64 \<Rightarrow> vfs \<Rightarrow> (u32 \<times> u64 \<times> vfs) option" where
  "FAT32_read_loop fsbi buffer cluster index offset buf pos s =
     (let s = read_cluster fsbi buffer (cluster_sector fsbi cluster) s;
          len = piece fsbi index offset;
          s = copy_out_piece (buffer + offset) buf len s;
          index = index - len;
          buf = buf + scast len;
          pos = pos + scast len
      in if index = 0 then Some (index, pos, s)
         else let cluster = next_in_FAT fsbi (img s) cluster
              in if cluster = 0 then Some (index, pos, s)
                 else FAT32_read_loop fsbi buffer cluster index 0 buf pos s)"

definition FAT32_read :: "addr \<Rightarrow> addr \<Rightarrow> u64 \<Rightarrow> u64 \<Rightarrow> vfs \<Rightarrow> (u64 \<times> u64 \<times> vfs) option" where
  "FAT32_read filp buf cnt pos s =
     (let ip = inode_of filp s;
          finode = finodes s (private_index_info (inodes s ip));
          fsbi = fsbis s (private_sb_info (supers s (i_sb (inodes s ip))));
          size = file_size (inodes s ip)
      in if bytes_per_cluster fsbi = 0 then None else do {
        (buffer, s) \<leftarrow> get_nonnull s;
        if first_cluster finode = 0 then Some (- EFAULT, pos, s) else do {
          let index = (ucast (long_div pos (bytes_per_cluster fsbi)) :: u32);
          let offset = long_mod pos (bytes_per_cluster fsbi);
          let cluster = seek_cluster fsbi (img s) index (first_cluster finode);
          let cnt = (if pos + cnt > size then size - pos else cnt);
          (index, pos, s) \<leftarrow> FAT32_read_loop fsbi buffer cluster (ucast cnt) offset buf pos s;
          Some (if index = 0 then cnt else 0, pos, put_object buffer s)
        }
      })"

section \<open>Writing an inode back\<close>

text \<open>A directory entry is 32 bytes: the first cluster in two halves at 20 and 26 and the file size at
  28.\<close>

definition set_dentry_inode :: "addr \<Rightarrow> index_node \<Rightarrow> FAT32_inode_info \<Rightarrow> mem \<Rightarrow> mem" where
  "set_dentry_inode e inode finode m =
     (let m = stos 4 (file_size inode) (e + 28) m;
          m = stos 2 (first_cluster finode AND 0xffff) (e + 26) m
      in stos 2 ((load_le 2 (e + 20) m AND 0xf000) OR drop_bit 16 (first_cluster finode)) (e + 20) m)"

definition fat32_write_inode :: "addr \<Rightarrow> vfs \<Rightarrow> vfs option" where
  "fat32_write_inode ip s =
     (let finode = finodes s (private_index_info (inodes s ip));
          fsbi = fsbis s (private_sb_info (supers s (i_sb (inodes s ip))))
      in if dentry_location finode = 0 then Some s
         else do {
           let sector = cluster_sector fsbi (dentry_location finode);
           (buf, s) \<leftarrow> get_nonnull s;
           let s = read_cluster fsbi buf sector s;
           let m = set_dentry_inode (buf + 32 * dentry_position finode) (inodes s ip) finode (vmem s);
           let s = s\<lparr>vmem := m, img := ide_write sector (sector_per_cluster fsbi) buf m (img s)\<rparr>;
           Some (put_object buf s)
         })"

section \<open>Write\<close>

definition copy_in_piece :: "addr \<Rightarrow> addr \<Rightarrow> u32 \<Rightarrow> vfs \<Rightarrow> vfs" where
  "copy_in_piece buf to len s =
     s\<lparr>vmem := snd (if buf < TASK_SIZE then copy_from_user buf to (scast len) (vmem s)
                    else memcpy buf to (scast len) (vmem s))\<rparr>"

text \<open>The loop ends with \<open>index = 0\<close>, or with a full disk.  \<open>sector\<close> keeps its value when
  \<open>flags\<close> is set, and \<open>cluster\<close> is only advanced when the chain ended.\<close>

datatype write_end = Written | Disk_full

partial_function (option) FAT32_write_loop ::
    "FAT32_sb_info \<Rightarrow> addr \<Rightarrow> bool \<Rightarrow> u64 \<Rightarrow> u64 \<Rightarrow> u32 \<Rightarrow> u64 \<Rightarrow> addr \<Rightarrow> u64 \<Rightarrow> vfs \<Rightarrow> (write_end \<times> u64 \<times> vfs) option" where
  "FAT32_write_loop fsbi buffer flags sector cluster index offset buf pos s =
     (let sector = (if flags then sector else cluster_sector fsbi cluster);
          s = (if flags then s else read_cluster fsbi buffer sector s);
          len = piece fsbi index offset;
          s = copy_in_piece buf (buffer + offset) len s;
          s = s\<lparr>img := ide_write sector (sector_per_cluster fsbi) buffer (vmem s) (img s)\<rparr>;
          index = index - len;
          buf = buf + scast len;
          pos = pos + scast len
      in if index = 0 then Some (Written, pos, s)
         else if next_in_FAT fsbi (img s) cluster \<ge> 0x0ffffff8
         then let n = find_available_cluster fsbi (img s)
              in if n = 0 then Some (Disk_full, pos, s)
                 else let s = s\<lparr>img := write_FAT_Entry fsbi (ucast cluster) (ucast n) (img s)\<rparr>;
                          s = s\<lparr>img := write_FAT_Entry fsbi (ucast n) 0x0ffffff8 (img s)\<rparr>
                      in FAT32_write_loop fsbi buffer True sector n index 0 buf pos s
         else FAT32_write_loop fsbi buffer flags sector cluster index 0 buf pos s)"

definition FAT32_write :: "addr \<Rightarrow> addr \<Rightarrow> u64 \<Rightarrow> u64 \<Rightarrow> vfs \<Rightarrow> (u64 \<times> u64 \<times> vfs) option" where
  "FAT32_write filp buf cnt pos s =
     (let ip = inode_of filp s;
          fip = private_index_info (inodes s ip);
          fsbi = fsbis s (private_sb_info (supers s (i_sb (inodes s ip))));
          first = first_cluster (finodes s fip)
      in if bytes_per_cluster fsbi = 0 then None else do {
        let index = (ucast (long_div pos (bytes_per_cluster fsbi)) :: u32);
        let offset = long_mod pos (bytes_per_cluster fsbi);
        (buffer, s) \<leftarrow> get_nonnull s;
        let flags = (first = 0);
        let cluster = (if flags then find_available_cluster fsbi (img s)
                       else seek_cluster fsbi (img s) index first);
        if cluster = 0 then Some (- ENOSPC, pos, put_object buffer s) else do {
          s \<leftarrow> (if flags then do {
                 s \<leftarrow> fat32_write_inode ip (upd_finode fip (\<lambda>x. x\<lparr>first_cluster := cluster\<rparr>) s);
                 Some (s\<lparr>img := write_FAT_Entry fsbi (ucast cluster) 0x0ffffff8 (img s)\<rparr>)
               } else Some s);
          (e, pos, s) \<leftarrow> FAT32_write_loop fsbi buffer flags 0 cluster (ucast cnt) offset buf pos s;
          case e of
            Disk_full \<Rightarrow> Some (- ENOSPC, pos, put_object buffer s)
          | Written \<Rightarrow> do {
              s \<leftarrow> (if pos > file_size (inodes s ip)
                   then fat32_write_inode ip (upd_inode ip (\<lambda>x. x\<lparr>file_size := pos\<rparr>) s) else Some s);
              Some (cnt, pos, put_object buffer s)
            }
        }
      })"

section \<open>The bytes of a file\<close>

abbreviation (input) bpc :: "FAT32_sb_info \<Rightarrow> nat" where
  "bpc fsbi \<equiv> unat (bytes_per_cluster fsbi)"

definition volume_ok :: "FAT32_sb_info \<Rightarrow> bool" where
  "volume_ok fsbi \<longleftrightarrow> 0 < unat (sector_per_cluster fsbi) \<and> unat (sector_per_cluster fsbi) < 256 \<and>
     bpc fsbi = 512 * unat (sector_per_cluster fsbi)"

definition cluster_byte :: "FAT32_sb_info \<Rightarrow> image \<Rightarrow> u64 \<Rightarrow> nat \<Rightarrow> u8" where
  "cluster_byte fsbi d c i = d (cluster_sector fsbi c + word_of_nat (i div 512)) (i mod 512)"

definition file_byte :: "FAT32_sb_info \<Rightarrow> image \<Rightarrow> u32 list \<Rightarrow> nat \<Rightarrow> u8" where
  "file_byte fsbi d cs p = cluster_byte fsbi d (ucast (cs ! (p div bpc fsbi))) (p mod bpc fsbi)"

lemma file_byte_first: "p < bpc fsbi \<Longrightarrow> file_byte fsbi d (c # cs) p = cluster_byte fsbi d (ucast c) p"
  by (simp add: file_byte_def)

lemma file_byte_later:
  "0 < bpc fsbi \<Longrightarrow> file_byte fsbi d (c # cs) (bpc fsbi + p) = file_byte fsbi d cs p"
  by (simp add: file_byte_def div_add_self1)

text \<open>A caller's area: entirely below the user limit, or entirely above it.\<close>

definition area_ok :: "addr \<Rightarrow> nat \<Rightarrow> bool" where
  "area_ok a n \<longleftrightarrow> (if a < TASK_SIZE then unat a + n \<le> unat TASK_SIZE else unat a + n \<le> 2 ^ 64)"

definition in_area :: "addr \<Rightarrow> nat \<Rightarrow> addr \<Rightarrow> bool" where
  "in_area a n x \<longleftrightarrow> unat (x - a) < n"

definition areas_apart :: "addr \<Rightarrow> nat \<Rightarrow> addr \<Rightarrow> nat \<Rightarrow> bool" where
  "areas_apart a n b k \<longleftrightarrow> (\<forall>x. \<not> (in_area a n x \<and> in_area b k x))"

lemma area_below: "area_ok a n \<Longrightarrow> k \<le> n \<Longrightarrow> area_ok a k"
  by (auto simp: area_ok_def split: if_splits)

lemma unat_area: "area_ok a n \<Longrightarrow> k < n \<Longrightarrow> unat (a + word_of_nat k) = unat a + k"
proof -
  assume a: "area_ok a n" "k < n"
  then have "unat a + k < 2 ^ 64"
    using unat_less_2p64 [of TASK_SIZE] by (auto simp: area_ok_def split: if_splits)
  then show ?thesis by (simp add: unat_word_ariths unat_of_nat_small)
qed

lemma area_rest:
  assumes "area_ok a n" and "k < n"
  shows "area_ok (a + word_of_nat k) (n - k)"
  using assms unat_area [OF assms]
  by (auto simp: area_ok_def word_less_nat_alt split: if_splits)

lemma in_area_start: "k < n \<Longrightarrow> n \<le> 2 ^ 64 \<Longrightarrow> in_area a n (a + word_of_nat k)"
  by (simp add: in_area_def unat_of_nat_small)

lemma in_area_split:
  "k \<le> n \<Longrightarrow> n < 2 ^ 64 \<Longrightarrow> in_area a n x \<longleftrightarrow> in_area a k x \<or> in_area (a + word_of_nat k) (n - k) x"
  using below_split [of k "n - k" "x - a"] by (simp add: in_area_def diff_diff_eq)

lemma in_area_sub:
  assumes "unat (x - (a + word_of_nat j)) < k" and "j + k \<le> n" and "n < 2 ^ 64"
  shows "in_area a n x"
proof -
  have "unat (word_of_nat j + y) = j + unat y" if "unat y < k" for y :: u64
    using that assms(2,3) by (simp add: unat_word_ariths unat_of_nat_small)
  from this [OF assms(1)] show ?thesis using assms(1,2) by (simp add: in_area_def)
qed

lemma in_area_disjoint:
  assumes "in_area a k x" and "k + n \<le> 2 ^ 64"
  shows "\<not> in_area (a + word_of_nat k) n x"
proof
  let ?y = "x - a - word_of_nat k"
  assume "in_area (a + word_of_nat k) n x"
  then have y: "unat ?y < n" by (simp add: in_area_def diff_diff_eq)
  then have "unat (word_of_nat k :: u64) = k" using assms(2) by (intro unat_of_nat_small) linarith
  then have "unat (?y + word_of_nat k) = unat ?y + k" using y assms(2) by (simp only: unat_word_ariths) simp
  then show False using assms(1) by (simp add: in_area_def)
qed

lemma areas_apart_apart:
  assumes "areas_apart a n b k" and "j + i \<le> n" and "i \<le> k" and "n < 2 ^ 64"
  shows "apart i (a + word_of_nat j) b"
  unfolding apart_def
proof (intro allI impI notI)
  fix x y :: u64
  assume xy: "unat x < i" "unat y < i" "a + word_of_nat j + x = b + y"
  then have "unat (word_of_nat j + x) = j + unat x"
    using assms(2,4) by (simp add: unat_word_ariths unat_of_nat_small)
  then have "in_area a n (a + word_of_nat j + x)" using xy(1) assms(2) by (simp add: in_area_def add.assoc)
  moreover have "in_area b k (b + y)" using xy(2) assms(3) by (simp add: in_area_def)
  ultimately show False using assms(1) xy(3) by (auto simp: areas_apart_def)
qed

lemma piece_small:
  assumes "volume_ok fsbi" and "off < bpc fsbi" and "unat index < 2 ^ 31"
  shows "unat (piece fsbi index (word_of_nat off)) = min (unat index) (bpc fsbi - off)"
proof -
  have b: "bpc fsbi < 2 ^ 17" using assms(1) by (simp add: volume_ok_def)
  have o: "unat (word_of_nat off :: u64) = off" using assms(2) b by (intro unat_of_nat_small) simp
  have r: "unat (bytes_per_cluster fsbi - word_of_nat off) = bpc fsbi - off"
    using assms(2) o by (simp add: unat_sub word_le_nat_alt)
  then have s: "sint (bytes_per_cluster fsbi - word_of_nat off) = int (bpc fsbi - off)"
    using b by (simp add: sint_small_64)
  have "unat (ucast (bytes_per_cluster fsbi - word_of_nat off) :: u32) = bpc fsbi - off"
    using b r by (simp add: unsigned_ucast_eq take_bit_nat_eq_self)
  then show ?thesis
    unfolding piece_def s sint_small_32 [OF assms(3)] of_nat_le_iff by simp
qed

section \<open>One iteration of a transfer\<close>

lemma volume_bounds:
  "volume_ok fsbi \<Longrightarrow> 0 < bpc fsbi \<and> bpc fsbi < 2 ^ 17 \<and> sint (bytes_per_cluster fsbi) = int (bpc fsbi)"
proof -
  assume v: "volume_ok fsbi"
  then have b: "0 < bpc fsbi" "bpc fsbi < 2 ^ 17" by (simp_all add: volume_ok_def)
  then have "bpc fsbi < 2 ^ 63" by simp
  with b show ?thesis using sint_small_64 by blast
qed

lemma read_cluster_mem:
  assumes "volume_ok fsbi"
  shows "vmem (read_cluster fsbi buffer (cluster_sector fsbi c) s) x =
     (if in_area buffer (bpc fsbi) x then cluster_byte fsbi (img s) c (unat (x - buffer)) else vmem s x)"
proof -
  have "0 \<le> sint (bytes_per_cluster fsbi)" using volume_bounds [OF assms] by simp
  then have m: "snd (memset buffer 0 (bytes_per_cluster fsbi) (vmem s)) = fill (bpc fsbi) 0 buffer (vmem s)"
    by (simp add: memset_fill)
  show ?thesis using assms
    by (auto simp: read_cluster_def Let_def m ide_read_def in_area_def cluster_byte_def volume_ok_def fill_def)
qed

lemma read_cluster_upd: "(read_cluster fsbi buffer sec s)\<lparr>vmem := m\<rparr> = s\<lparr>vmem := m\<rparr>"
  by (simp add: read_cluster_def Let_def)

lemma area_verified: "buf < TASK_SIZE \<Longrightarrow> area_ok buf n \<Longrightarrow> unat w = n \<Longrightarrow> verify_area buf w"
  using unat_less_2p64 [of TASK_SIZE]
  by (simp add: area_ok_def verify_area_def word_le_nat_alt unat_word_ariths TASK_SIZE_def)

lemma copy_out_mem:
  assumes "area_ok buf (unat len)" and "unat len < 2 ^ 31" and "apart (unat len) from buf"
  shows "copy_out_piece from buf len s = s\<lparr>vmem := movs (unat len) from buf (vmem s)\<rparr>"
proof -
  have u: "unat (scast len :: u64) = unat len" by (rule unat_scast_small [OF assms(2)])
  have sg: "0 \<le> sint (scast len :: u64)" using assms(2) u by (simp add: sint_small_64)
  show ?thesis
  proof (cases "buf < TASK_SIZE")
    case True
    then have "verify_area buf (scast len)" using area_verified [OF _ assms(1) u] by simp
    then show ?thesis
      using True assms(3) by (simp add: copy_out_piece_def copy_to_user_def copy_words_blit u)
  next
    case False
    then show ?thesis
      using assms(3) sg by (simp add: copy_out_piece_def memcpy_blit u)
  qed
qed

lemma read_piece:
  assumes vol: "volume_ok fsbi" and off: "off + unat len \<le> bpc fsbi"
    and buf: "area_ok buf (unat len)" and ap: "areas_apart buffer (bpc fsbi) buf (unat len)"
  shows "\<exists>m. copy_out_piece (buffer + word_of_nat off) buf len
       (read_cluster fsbi buffer (cluster_sector fsbi c) s) = s\<lparr>vmem := m\<rparr> \<and>
     (\<forall>i < unat len. m (buf + word_of_nat i) = cluster_byte fsbi (img s) c (off + i)) \<and>
     (\<forall>x. \<not> in_area buffer (bpc fsbi) x \<longrightarrow> \<not> in_area buf (unat len) x \<longrightarrow> m x = vmem s x)"
proof -
  let ?s = "read_cluster fsbi buffer (cluster_sector fsbi c) s"
  let ?m = "movs (unat len) (buffer + word_of_nat off) buf (vmem ?s)"
  note v = volume_bounds [OF vol]
  have l: "unat len < 2 ^ 31" using off v by simp
  have "apart (unat len) (buffer + word_of_nat off) buf"
    using areas_apart_apart [OF ap, of off "unat len"] off v by simp
  then have "copy_out_piece (buffer + word_of_nat off) buf len ?s = ?s\<lparr>vmem := ?m\<rparr>"
    using buf l by (intro copy_out_mem)
  also have "\<dots> = s\<lparr>vmem := ?m\<rparr>" by (rule read_cluster_upd)
  finally have eq: "copy_out_piece (buffer + word_of_nat off) buf len ?s = s\<lparr>vmem := ?m\<rparr>" .
  have bytes: "?m (buf + word_of_nat i) = cluster_byte fsbi (img s) c (off + i)" if i: "i < unat len" for i
  proof -
    have "off + i < 2 ^ 64" "i < 2 ^ 64" using i off v by simp_all
    then have u: "unat (word_of_nat i :: u64) = i" "unat (word_of_nat (off + i) :: u64) = off + i"
      by (simp_all only: unat_of_nat_small)
    have a: "buffer + word_of_nat off + word_of_nat i = buffer + word_of_nat (off + i)" by simp
    have "?m (buf + word_of_nat i) = vmem ?s (buffer + word_of_nat (off + i))"
      unfolding movs_apply using i u by (simp add: a)
    then show ?thesis
      unfolding read_cluster_mem [OF vol] using i off u by (simp add: in_area_def del: of_nat_add)
  qed
  have frame: "?m x = vmem s x" if "\<not> in_area buffer (bpc fsbi) x" "\<not> in_area buf (unat len) x" for x
    using that by (simp add: movs_apply read_cluster_mem [OF vol] in_area_def)
  from eq bytes frame show ?thesis by blast
qed

section \<open>The loop of a read\<close>

lemma ucast_ucast_32 [simp]: "ucast (ucast (c :: u32) :: u64) = c"
  by (rule bit_word_eqI) (simp add: bit_simps)

lemma chain_next_FAT:
  "chain (\<lambda>c. read_FAT_Entry fsbi c d) E (c # c' # cs) \<Longrightarrow> next_in_FAT fsbi d (ucast c) = ucast c'"
  by (simp add: next_in_FAT_def)

lemma read_loop_bytes:
  assumes vol: "volume_ok fsbi"
  shows "\<lbrakk>chain (\<lambda>c. read_FAT_Entry fsbi c (img s)) E (c # cs); 0 \<notin> set cs; off < bpc fsbi;
      off + unat index \<le> length (c # cs) * bpc fsbi; unat index < 2 ^ 31; area_ok buf (unat index);
      areas_apart buffer (bpc fsbi) buf (unat index)\<rbrakk> \<Longrightarrow>
    \<exists>m. FAT32_read_loop fsbi buffer (ucast c) index (word_of_nat off) buf pos s =
        Some (0, pos + word_of_nat (unat index), s\<lparr>vmem := m\<rparr>) \<and>
      (\<forall>i < unat index. m (buf + word_of_nat i) = file_byte fsbi (img s) (c # cs) (off + i)) \<and>
      (\<forall>x. \<not> in_area buffer (bpc fsbi) x \<longrightarrow> \<not> in_area buf (unat index) x \<longrightarrow> m x = vmem s x)"
proof (induction cs arbitrary: c off index buf pos s)
  case Nil
  note v = volume_bounds [OF vol]
  have p: "piece fsbi index (word_of_nat off) = index"
    using Nil.prems piece_small [OF vol Nil.prems(3,5)] by (simp add: word_unat_eq_iff)
  obtain m where m: "copy_out_piece (buffer + word_of_nat off) buf index
       (read_cluster fsbi buffer (cluster_sector fsbi (ucast c)) s) = s\<lparr>vmem := m\<rparr>"
     "\<forall>i < unat index. m (buf + word_of_nat i) = cluster_byte fsbi (img s) (ucast c) (off + i)"
     "\<forall>x. \<not> in_area buffer (bpc fsbi) x \<longrightarrow> \<not> in_area buf (unat index) x \<longrightarrow> m x = vmem s x"
    using read_piece [OF vol _ Nil.prems(6,7), of off "ucast c" s] Nil.prems(4) by auto
  have "FAT32_read_loop fsbi buffer (ucast c) index (word_of_nat off) buf pos s =
      Some (0, pos + word_of_nat (unat index), s\<lparr>vmem := m\<rparr>)"
    by (subst FAT32_read_loop.simps) (simp add: Let_def p m(1) scast_small [OF Nil.prems(5)])
  moreover have "file_byte fsbi (img s) [c] (off + i) = cluster_byte fsbi (img s) (ucast c) (off + i)"
    if "i < unat index" for i using that Nil.prems(4) by (intro file_byte_first) simp
  ultimately show ?case using m(2,3) by auto
next
  case (Cons c' cs)
  note v = volume_bounds [OF vol]
  let ?len = "piece fsbi index (word_of_nat off)"
  have pl: "unat ?len = min (unat index) (bpc fsbi - off)"
    by (rule piece_small [OF vol Cons.prems(3,5)])
  then have l31: "unat ?len < 2 ^ 31" "unat ?len \<le> unat index" using Cons.prems(5) by simp_all
  have fit: "off + unat ?len \<le> bpc fsbi" using pl Cons.prems(3) by simp
  have ap: "areas_apart buffer (bpc fsbi) buf (unat ?len)"
    using Cons.prems(7) l31(2) by (auto simp: areas_apart_def in_area_def)
  obtain m where m: "copy_out_piece (buffer + word_of_nat off) buf ?len
       (read_cluster fsbi buffer (cluster_sector fsbi (ucast c)) s) = s\<lparr>vmem := m\<rparr>"
     "\<forall>i < unat ?len. m (buf + word_of_nat i) = cluster_byte fsbi (img s) (ucast c) (off + i)"
     "\<forall>x. \<not> in_area buffer (bpc fsbi) x \<longrightarrow> \<not> in_area buf (unat ?len) x \<longrightarrow> m x = vmem s x"
    using read_piece [OF vol fit area_below [OF Cons.prems(6) l31(2)] ap, of "ucast c" s] by blast
  have first: "file_byte fsbi (img s) (c # c' # cs) (off + i) = cluster_byte fsbi (img s) (ucast c) (off + i)"
    if "i < unat ?len" for i using that fit by (intro file_byte_first) linarith
  show ?case
  proof (cases "unat index \<le> bpc fsbi - off")
    case True
    then have p: "?len = index" using pl by (simp add: word_unat_eq_iff)
    have "FAT32_read_loop fsbi buffer (ucast c) index (word_of_nat off) buf pos s =
        Some (0, pos + word_of_nat (unat index), s\<lparr>vmem := m\<rparr>)"
      using m(1) by (subst FAT32_read_loop.simps) (simp add: Let_def p scast_small [OF Cons.prems(5)])
    then show ?thesis using m(2,3) first unfolding p by auto
  next
    case False
    let ?k = "bpc fsbi - off"
    have k: "unat ?len = ?k" "0 < ?k" using pl False Cons.prems(3) by simp_all
    have i': "unat (index - ?len) = unat index - ?k" using k l31(2) by (simp add: unat_sub word_le_nat_alt)
    have ne: "index \<noteq> ?len" using k False by auto
    have nx: "next_in_FAT fsbi (img s) (ucast c) = ucast c'" using Cons.prems(1) by (intro chain_next_FAT)
    have c': "(ucast c' :: u64) \<noteq> 0"
      using Cons.prems(2) by (metis list.set_intros(1) unat_0 unat_ucast_32 word_unat_eq_iff)
    have loop: "FAT32_read_loop fsbi buffer (ucast c) index (word_of_nat off) buf pos s =
        FAT32_read_loop fsbi buffer (ucast c') (index - ?len) (word_of_nat 0) (buf + word_of_nat ?k)
          (pos + word_of_nat ?k) (s\<lparr>vmem := m\<rparr>)"
      by (subst FAT32_read_loop.simps)
        (simp add: Let_def m(1) ne nx c' scast_small [OF l31(1)] k(1) del: of_nat_diff)
    let ?n = "unat index - ?k"
    have k64: "?k < unat index" "unat index < 2 ^ 64" using False Cons.prems(5) by simp_all
    have split: "in_area buf (unat index) x \<longleftrightarrow> in_area buf ?k x \<or> in_area (buf + word_of_nat ?k) ?n x" for x
      using k64 by (intro in_area_split) simp_all
    have "areas_apart buffer (bpc fsbi) (buf + word_of_nat ?k) ?n"
      using Cons.prems(7) split by (auto simp: areas_apart_def)
    moreover have "area_ok (buf + word_of_nat ?k) ?n" using Cons.prems(6) k64(1) by (rule area_rest)
    moreover have "chain (\<lambda>c. read_FAT_Entry fsbi c (img (s\<lparr>vmem := m\<rparr>))) E (c' # cs)" "0 \<notin> set cs"
      using Cons.prems(1,2) by auto
    moreover have "?n < 2 ^ 31" using Cons.prems(5) by (rule less_imp_diff_less)
    moreover have "0 + ?n \<le> length (c' # cs) * bpc fsbi" using Cons.prems(3,4) k64(1) by simp
    ultimately obtain m' where
      l: "FAT32_read_loop fsbi buffer (ucast c') (index - ?len) (word_of_nat 0) (buf + word_of_nat ?k)
          (pos + word_of_nat ?k) (s\<lparr>vmem := m\<rparr>) =
        Some (0, pos + word_of_nat ?k + word_of_nat ?n, s\<lparr>vmem := m'\<rparr>)" and
      b: "\<forall>i < ?n. m' (buf + word_of_nat ?k + word_of_nat i) = file_byte fsbi (img s) (c' # cs) i" and
      f: "\<forall>x. \<not> in_area buffer (bpc fsbi) x \<longrightarrow> \<not> in_area (buf + word_of_nat ?k) ?n x \<longrightarrow> m' x = m x"
      using Cons.IH [where c = c' and s = "s\<lparr>vmem := m\<rparr>" and off = 0 and index = "index - ?len"
          and buf = "buf + word_of_nat ?k" and pos = "pos + word_of_nat ?k"]
        v i' k64 Cons.prems(5) by (auto simp del: of_nat_diff)
    have sum: "word_of_nat ?k + word_of_nat ?n = (word_of_nat (unat index) :: u64)"
      using k64(1) by (simp flip: of_nat_add)
    have bytes: "m' (buf + word_of_nat i) = file_byte fsbi (img s) (c # c' # cs) (off + i)" if i: "i < unat index" for i
    proof (cases "i < ?k")
      case True
      have ib: "in_area buf (unat index) (buf + word_of_nat i)" using i k64(2) by (intro in_area_start) simp_all
      then have "\<not> in_area buffer (bpc fsbi) (buf + word_of_nat i)" using Cons.prems(7) by (auto simp: areas_apart_def)
      moreover have "\<not> in_area (buf + word_of_nat ?k) ?n (buf + word_of_nat i)"
        using k64 True by (intro in_area_disjoint in_area_start) simp_all
      ultimately show ?thesis using f m(2) first [of i] True k(1) by simp
    next
      case False
      then obtain j where j: "i = ?k + j" using le_Suc_ex not_less by blast
      then have "m' (buf + word_of_nat i) = file_byte fsbi (img s) (c' # cs) j"
        using b i by (simp add: add.assoc del: of_nat_diff)
      moreover have "off + i = bpc fsbi + j" using j Cons.prems(3) by simp
      ultimately show ?thesis using v by (simp only: file_byte_later)
    qed
    have "\<forall>x. \<not> in_area buffer (bpc fsbi) x \<longrightarrow> \<not> in_area buf (unat index) x \<longrightarrow> m' x = vmem s x"
      using f m(3) split k(1) by auto
    with loop l bytes show ?thesis by (auto simp: sum add.assoc simp del: of_nat_diff)
  qed
qed

section \<open>Reading a file\<close>

definition volume_of :: "addr \<Rightarrow> vfs \<Rightarrow> FAT32_sb_info" where
  "volume_of filp s = fsbis s (private_sb_info (supers s (i_sb (inodes s (inode_of filp s)))))"

definition finode_of :: "addr \<Rightarrow> vfs \<Rightarrow> FAT32_inode_info" where
  "finode_of filp s = finodes s (private_index_info (inodes s (inode_of filp s)))"

definition size_of :: "addr \<Rightarrow> vfs \<Rightarrow> u64" where
  "size_of filp s = file_size (inodes s (inode_of filp s))"

text \<open>An open file whose clusters are \<open>cs\<close>; they hold at least the bytes its size promises.\<close>

definition opened :: "vfs \<Rightarrow> addr \<Rightarrow> u32 list \<Rightarrow> bool" where
  "opened s filp cs \<longleftrightarrow> volume_ok (volume_of filp s) \<and>
     chain (\<lambda>c. read_FAT_Entry (volume_of filp s) c (img s)) is_end_mark cs \<and> 0 \<notin> set cs \<and>
     first_cluster (finode_of filp s) = ucast (hd cs) \<and>
     unat (size_of filp s) \<le> length cs * bpc (volume_of filp s) \<and> unat (size_of filp s) < 2 ^ 31"

lemma seek_chain:
  assumes "chain (\<lambda>c. read_FAT_Entry fsbi c d) E cs" and "i < length cs" and "unat index = i" and "i < 2 ^ 31"
  shows "seek_cluster fsbi d index (ucast (hd cs)) = ucast (cs ! i)"
proof -
  have w: "(next_in_FAT fsbi d ^^ k) (ucast c) = ucast (((\<lambda>c. read_FAT_Entry fsbi c d) ^^ k) c)" for k c
    by (induction k) (simp_all add: next_in_FAT_def)
  have "nat (sint index) = i" using sint_small_32 [of index] assms(3,4) by (simp only: nat_int)
  then show ?thesis unfolding seek_cluster_def w using chain_walk [OF assms(1,2)] by simp
qed

lemma read_loop_nothing:
  assumes "volume_ok fsbi" and "off < bpc fsbi" and "area_ok buf 0"
  shows "\<exists>m. FAT32_read_loop fsbi buffer c 0 (word_of_nat off) buf pos s = Some (0, pos, s\<lparr>vmem := m\<rparr>) \<and>
     (\<forall>x. \<not> in_area buffer (bpc fsbi) x \<longrightarrow> m x = vmem s x)"
proof -
  have "unat (piece fsbi 0 (word_of_nat off)) = 0" using piece_small [OF assms(1,2), of 0] by simp
  then have p: "piece fsbi 0 (word_of_nat off) = 0" by (simp only: unat_eq_0)
  have ap: "areas_apart buffer (bpc fsbi) buf (unat (0 :: u32))" by (simp add: areas_apart_def in_area_def)
  show ?thesis
    using read_piece [OF assms(1) _ _ ap, of off c s] assms(2,3)
    by (subst FAT32_read_loop.simps) (auto simp: Let_def p in_area_def)
qed

lemma file_byte_drop:
  assumes "0 < bpc fsbi" and "i < length cs"
  shows "file_byte fsbi d (drop i cs) p = file_byte fsbi d cs (i * bpc fsbi + p)"
  using assms by (simp add: file_byte_def div_mult_self3 add.commute)

lemma FAT32_read_unfold:
  assumes "fresh s = buffer # rest" and "buffer \<noteq> NULL" and "bytes_per_cluster (volume_of filp s) \<noteq> 0"
    and "first_cluster (finode_of filp s) \<noteq> 0"
    and "cnt' = (if pos + cnt > size_of filp s then size_of filp s - pos else cnt)"
  shows "FAT32_read filp buf cnt pos s = do {
       (index, pos, s) \<leftarrow> FAT32_read_loop (volume_of filp s) buffer
         (seek_cluster (volume_of filp s) (img s) (ucast (long_div pos (bytes_per_cluster (volume_of filp s))))
            (first_cluster (finode_of filp s)))
         (ucast cnt') (long_mod pos (bytes_per_cluster (volume_of filp s))) buf pos
         (s\<lparr>fresh := rest, live := buffer # live s\<rparr>);
       Some (if index = 0 then cnt' else 0, pos, put_object buffer s)
     }"
  using assms(3,4) unfolding assms(5)
  by (cases "pos + cnt > size_of filp s")
    (simp_all add: FAT32_read_def Let_def get_nonnull_Cons [OF assms(1,2)] finode_of_def volume_of_def size_of_def
      cong del: if_weak_cong)

lemma FAT32_read_bytes:
  assumes op: "opened s filp cs" and pos: "unat pos \<le> unat (size_of filp s)" and cnt: "unat cnt < 2 ^ 63"
    and buffer: "fresh s = buffer # rest" "buffer \<noteq> NULL"
    and n: "n = min (unat cnt) (unat (size_of filp s) - unat pos)"
    and area: "area_ok buf n" "areas_apart buffer (bpc (volume_of filp s)) buf n"
  shows "\<exists>m. FAT32_read filp buf cnt pos s =
       Some (word_of_nat n, pos + word_of_nat n, s\<lparr>vmem := m, fresh := rest\<rparr>) \<and>
     (\<forall>i < n. m (buf + word_of_nat i) = file_byte (volume_of filp s) (img s) cs (unat pos + i)) \<and>
     (\<forall>x. \<not> in_area buffer (bpc (volume_of filp s)) x \<longrightarrow> \<not> in_area buf n x \<longrightarrow> m x = vmem s x)"
proof -
  define fsbi where "fsbi = volume_of filp s"
  define cnt' where "cnt' = (if pos + cnt > size_of filp s then size_of filp s - pos else cnt)"
  define i where "i = unat pos div bpc fsbi"
  define off where "off = unat pos mod bpc fsbi"
  let ?s = "s\<lparr>fresh := rest, live := buffer # live s\<rparr>"
  have vol: "volume_ok fsbi" using op by (simp add: opened_def fsbi_def)
  note v = volume_bounds [OF vol]
  have size31: "unat (size_of filp s) < 2 ^ 31" using op by (simp add: opened_def)
  then have pos31: "unat pos < 2 ^ 31" using pos by simp
  have "unat (pos + cnt) = unat pos + unat cnt" using pos31 cnt by (simp add: unat_word_ariths)
  then have ncnt: "unat cnt' = n" and c': "cnt' = word_of_nat n"
    using pos by (auto simp: cnt'_def n word_less_nat_alt unat_sub word_le_nat_alt word_unat_eq_iff min_def)
  have n31: "n < 2 ^ 31" using n size31 by simp
  have idx: "unat (ucast cnt' :: u32) = n"
    using n31 ncnt by (simp add: unsigned_ucast_eq take_bit_nat_eq_self)
  have sp: "0 \<le> sint pos" "0 \<le> sint (bytes_per_cluster fsbi)" using pos31 v by (simp_all add: sint_small_64)
  have "unat (long_mod pos (bytes_per_cluster fsbi)) = off" using long_mod_nat [OF sp] by (simp add: off_def)
  then have "word_of_nat (unat (long_mod pos (bytes_per_cluster fsbi))) = (word_of_nat off :: u64)" by (rule arg_cong)
  then have off: "long_mod pos (bytes_per_cluster fsbi) = word_of_nat off" "off < bpc fsbi"
    using v by (simp_all add: off_def)
  have i31: "i < 2 ^ 31" using pos31 unfolding i_def by (rule le_less_trans [OF div_le_dividend])
  have i: "unat (ucast (long_div pos (bytes_per_cluster fsbi)) :: u32) = i"
    using long_div_nat [OF sp] i31 by (simp add: i_def unsigned_ucast_eq take_bit_nat_eq_self)
  have "cs \<noteq> []" "0 \<notin> set cs" "first_cluster (finode_of filp s) = ucast (hd cs)"
    using op by (auto simp: opened_def)
  then have first: "first_cluster (finode_of filp s) \<noteq> 0"
    by (metis hd_in_set unat_0 unat_ucast_32 word_unat_eq_iff)
  let ?c = "seek_cluster fsbi (img s) (ucast (long_div pos (bytes_per_cluster fsbi))) (first_cluster (finode_of filp s))"
  have ipos: "i * bpc fsbi + off = unat pos" by (simp add: i_def off_def)
  have "\<exists>m. FAT32_read_loop fsbi buffer ?c (ucast cnt') (word_of_nat off) buf pos ?s =
        Some (0, pos + word_of_nat n, ?s\<lparr>vmem := m\<rparr>) \<and>
      (\<forall>j < n. m (buf + word_of_nat j) = file_byte fsbi (img s) cs (unat pos + j)) \<and>
      (\<forall>x. \<not> in_area buffer (bpc fsbi) x \<longrightarrow> \<not> in_area buf n x \<longrightarrow> m x = vmem s x)"
  proof (cases "n = 0")
    case True
    then have "(ucast cnt' :: u32) = 0" using idx by (simp only: unat_eq_0)
    then show ?thesis
      using True read_loop_nothing [OF vol off(2), of buf buffer ?c pos ?s] area(1) by auto
  next
    case False
    have chain: "chain (\<lambda>c. read_FAT_Entry fsbi c (img s)) is_end_mark cs" "0 \<notin> set cs"
      "unat (size_of filp s) \<le> length cs * bpc fsbi" "first_cluster (finode_of filp s) = ucast (hd cs)"
      using op by (simp_all add: opened_def fsbi_def)
    have "i * bpc fsbi < length cs * bpc fsbi" using False n chain(3) ipos by linarith
    then have il: "i < length cs" by simp
    have c: "?c = ucast (cs ! i)" unfolding chain(4) by (rule seek_chain [OF chain(1) il i i31])
    have dr: "drop i cs = cs ! i # drop (Suc i) cs" using il by (rule Cons_nth_drop_Suc [symmetric])
    have "chain (\<lambda>c. read_FAT_Entry fsbi c (img ?s)) is_end_mark (cs ! i # drop (Suc i) cs)"
      using chain_suffix [of _ _ "take i cs" "cs ! i" "drop (Suc i) cs"] chain(1) il by (simp add: id_take_nth_drop [symmetric])
    moreover have "0 \<notin> set (drop (Suc i) cs)" using chain(2) by (meson in_set_dropD)
    moreover have "off + unat (ucast cnt' :: u32) \<le> length (cs ! i # drop (Suc i) cs) * bpc fsbi"
    proof -
      have "length cs * bpc fsbi = i * bpc fsbi + (length cs - i) * bpc fsbi"
        using il by (simp flip: distrib_right)
      then have "off + n \<le> (length cs - i) * bpc fsbi" using ipos n pos chain(3) by linarith
      then show ?thesis using idx il dr by (metis length_drop)
    qed
    ultimately obtain m where
      l: "FAT32_read_loop fsbi buffer (ucast (cs ! i)) (ucast cnt') (word_of_nat off) buf pos ?s =
          Some (0, pos + word_of_nat n, ?s\<lparr>vmem := m\<rparr>)"
        "\<forall>j < n. m (buf + word_of_nat j) = file_byte fsbi (img s) (drop i cs) (off + j)"
        "\<forall>x. \<not> in_area buffer (bpc fsbi) x \<longrightarrow> \<not> in_area buf n x \<longrightarrow> m x = vmem s x"
      using read_loop_bytes [OF vol, where c = "cs ! i" and s = ?s and E = is_end_mark and cs = "drop (Suc i) cs"
          and off = off and index = "ucast cnt'" and buf = buf and buffer = buffer and pos = pos]
        off(2) n31 area unfolding idx dr fsbi_def [symmetric] by auto
    have "file_byte fsbi (img s) (drop i cs) (off + j) = file_byte fsbi (img s) cs (unat pos + j)" for j
      using file_byte_drop [of fsbi i cs "img s" "off + j"] v il ipos by (simp add: add.assoc [symmetric])
    then show ?thesis using l unfolding c by auto
  qed
  then obtain m where
    l: "FAT32_read_loop fsbi buffer ?c (ucast cnt') (word_of_nat off) buf pos ?s =
        Some (0, pos + word_of_nat n, ?s\<lparr>vmem := m\<rparr>)" and
    m: "\<forall>j < n. m (buf + word_of_nat j) = file_byte fsbi (img s) cs (unat pos + j)"
      "\<forall>x. \<not> in_area buffer (bpc fsbi) x \<longrightarrow> \<not> in_area buf n x \<longrightarrow> m x = vmem s x" by blast
  have nz: "bytes_per_cluster fsbi \<noteq> 0" using v by auto
  have "FAT32_read filp buf cnt pos s = Some (word_of_nat n, pos + word_of_nat n, s\<lparr>vmem := m, fresh := rest\<rparr>)"
    unfolding FAT32_read_unfold [OF buffer nz [unfolded fsbi_def] first cnt'_def] fsbi_def [symmetric] off(1) l
    by (simp add: c' put_object_def)
  then show ?thesis using m unfolding fsbi_def by blast
qed

section \<open>Where clusters are on the medium\<close>

text \<open>The boot sector comes before the tables and the tables before the data.\<close>

definition geometry :: "FAT32_sb_info \<Rightarrow> bool" where
  "geometry fsbi \<longleftrightarrow> volume_ok fsbi \<and> unat (Data_firstsector fsbi) < 2 ^ 62 \<and> 0 < unat (NumFATs fsbi) \<and>
     unat (FAT1_firstsector fsbi) + unat (sector_per_FAT fsbi) * unat (NumFATs fsbi) \<le> unat (Data_firstsector fsbi)"

definition cluster_ok :: "FAT32_sb_info \<Rightarrow> u32 \<Rightarrow> bool" where
  "cluster_ok fsbi c \<longleftrightarrow> 2 \<le> unat c \<and> unat c div 128 < unat (sector_per_FAT fsbi)"

lemma cluster_entry_ok: "geometry fsbi \<Longrightarrow> cluster_ok fsbi c \<Longrightarrow> entry_ok fsbi c"
  using unat_less_2p64 [of "Data_firstsector fsbi"]
  by (auto simp: geometry_def cluster_ok_def entry_ok_def table_ok_def)

lemma sector_nat:
  assumes "geometry fsbi" and "cluster_ok fsbi c" and "j < unat (sector_per_cluster fsbi)"
  shows "unat (cluster_sector fsbi (ucast c) + word_of_nat j) =
     unat (Data_firstsector fsbi) + (unat c - 2) * unat (sector_per_cluster fsbi) + j"
proof -
  let ?D = "unat (Data_firstsector fsbi)" and ?S = "unat (sector_per_cluster fsbi)"
  have s: "?S < 256" "?D < 2 ^ 62" using assms(1) by (simp_all add: geometry_def volume_ok_def)
  have c: "2 \<le> unat c" using assms(2) by (simp add: cluster_ok_def)
  have "unat (ucast c - 2 :: u64) = unat c - 2" using c by (simp add: unat_sub word_le_nat_alt)
  moreover have b: "(unat c - 2) * ?S < 2 ^ 32 * 256"
    using s(1) unat_less_2p32 [of c] by (intro mult_strict_mono) simp_all
  ultimately have m: "unat ((ucast c - 2) * sector_per_cluster fsbi) = (unat c - 2) * ?S"
    by (simp only: unat_word_ariths) simp
  have "unat (cluster_sector fsbi (ucast c)) = ?D + (unat c - 2) * ?S"
    unfolding cluster_sector_def unat_word_ariths(1) m using s(2) b by simp
  then show ?thesis
    unfolding unat_word_ariths(1) using s b assms(3) by (simp add: unat_of_nat_small)
qed

lemma sector_inside:
  assumes "geometry fsbi" and "cluster_ok fsbi c"
  shows "unat (s - cluster_sector fsbi (ucast c)) < unat (sector_per_cluster fsbi) \<longleftrightarrow>
     (\<exists>j < unat (sector_per_cluster fsbi). s = cluster_sector fsbi (ucast c) + word_of_nat j)"
proof
  assume "unat (s - cluster_sector fsbi (ucast c)) < unat (sector_per_cluster fsbi)"
  then show "\<exists>j < unat (sector_per_cluster fsbi). s = cluster_sector fsbi (ucast c) + word_of_nat j"
    by (intro exI [of _ "unat (s - cluster_sector fsbi (ucast c))"]) simp
next
  assume "\<exists>j < unat (sector_per_cluster fsbi). s = cluster_sector fsbi (ucast c) + word_of_nat j"
  then obtain j where j: "j < unat (sector_per_cluster fsbi)" "s - cluster_sector fsbi (ucast c) = word_of_nat j" by auto
  then show "unat (s - cluster_sector fsbi (ucast c)) < unat (sector_per_cluster fsbi)"
    using unat_less_2p64 [of "sector_per_cluster fsbi"] by (simp add: unat_of_nat_small)
qed

lemma clusters_disjoint:
  assumes "geometry fsbi" and "cluster_ok fsbi c" and "cluster_ok fsbi c'" and "c \<noteq> c'"
    and "j < unat (sector_per_cluster fsbi)"
  shows "\<not> unat (cluster_sector fsbi (ucast c') + word_of_nat j - cluster_sector fsbi (ucast c)) < unat (sector_per_cluster fsbi)"
  unfolding sector_inside [OF assms(1,2)]
proof (intro notI, elim exE conjE)
  fix k
  let ?S = "unat (sector_per_cluster fsbi)"
  assume k: "k < ?S" "cluster_sector fsbi (ucast c') + word_of_nat j = cluster_sector fsbi (ucast c) + word_of_nat k"
  then have "(unat c' - 2) * ?S + j = (unat c - 2) * ?S + k"
    using sector_nat [OF assms(1,3,5)] sector_nat [OF assms(1,2) k(1)] by simp
  then have "((unat c' - 2) * ?S + j) div ?S = ((unat c - 2) * ?S + k) div ?S" by simp
  then have "unat c' - 2 = unat c - 2" using assms(5) k(1) by simp
  moreover have "2 \<le> unat c'" "2 \<le> unat c" using assms(2,3) by (simp_all add: cluster_ok_def)
  ultimately have "unat c' = unat c" by arith
  then show False using assms(4) by (simp add: word_unat_eq_iff)
qed

lemma below_clusters:
  assumes "geometry fsbi" and "cluster_ok fsbi c" and "unat s < unat (Data_firstsector fsbi)"
  shows "\<not> unat (s - cluster_sector fsbi (ucast c)) < unat (sector_per_cluster fsbi)"
  unfolding sector_inside [OF assms(1,2)] using sector_nat [OF assms(1,2)] assms(3) by auto

section \<open>Writing inside a cluster\<close>

lemma ide_write_cluster:
  assumes "geometry fsbi" and "cluster_ok fsbi c" and "cluster_ok fsbi c'" and "i < bpc fsbi"
    and "d' = ide_write (cluster_sector fsbi (ucast c)) (sector_per_cluster fsbi) buffer m d"
  shows "cluster_byte fsbi d' (ucast c') i =
     (if c' = c then m (buffer + word_of_nat i) else cluster_byte fsbi d (ucast c') i)"
proof -
  let ?j = "i div 512"
  have j: "?j < unat (sector_per_cluster fsbi)" "i < 2 ^ 64"
    using assms(1,4) by (simp_all add: geometry_def volume_ok_def div_less_iff_less_mult)
  show ?thesis
  proof (cases "c' = c")
    case False
    then show ?thesis
      using clusters_disjoint [OF assms(1-3) _ j(1)] by (auto simp: assms(5) cluster_byte_def ide_write_def)
  next
    case True
    have "unat (word_of_nat ?j :: u64) = ?j" using j(2) by (intro unat_of_nat_small) simp
    moreover have "512 * ?j + i mod 512 = i" by simp
    ultimately show ?thesis
      using True j(1) by (simp add: assms(5) cluster_byte_def ide_write_def)
  qed
qed

lemma ide_write_table:
  assumes "geometry fsbi" and "cluster_ok fsbi c" and "cluster_ok fsbi e"
  shows "read_FAT_Entry fsbi e (ide_write (cluster_sector fsbi (ucast c)) (sector_per_cluster fsbi) buffer m d) =
     read_FAT_Entry fsbi e d"
proof -
  have e: "entry_ok fsbi e" by (rule cluster_entry_ok [OF assms(1,3)])
  have n: "0 < unat (NumFATs fsbi)" using assms(1) by (simp add: geometry_def)
  have "unat (fat_sector fsbi e) = unat (FAT1_firstsector fsbi) + unat e div 128"
    using fat_sector_nat [OF e n] by (simp add: fat_sector_def)
  moreover have "unat e div 128 < unat (sector_per_FAT fsbi) * unat (NumFATs fsbi)"
  proof -
    have "unat (sector_per_FAT fsbi) * 1 \<le> unat (sector_per_FAT fsbi) * unat (NumFATs fsbi)"
      using n by (intro mult_le_mono2) simp
    moreover have "unat e div 128 < unat (sector_per_FAT fsbi) * 1" using e by (simp add: entry_ok_def)
    ultimately show ?thesis by (rule less_le_trans [rotated])
  qed
  ultimately have "unat (fat_sector fsbi e) < unat (Data_firstsector fsbi)"
    using assms(1) by (simp add: geometry_def)
  from below_clusters [OF assms(1,2) this] show ?thesis
    by (simp add: read_FAT_Entry_def ide_write_def)
qed

lemma copy_in_mem:
  assumes "area_ok buf (unat len)" and "unat len < 2 ^ 31" and "apart (unat len) buf to"
  shows "copy_in_piece buf to len s = s\<lparr>vmem := movs (unat len) buf to (vmem s)\<rparr>"
proof -
  have u: "unat (scast len :: u64) = unat len" by (rule unat_scast_small [OF assms(2)])
  have sg: "0 \<le> sint (scast len :: u64)" using assms(2) u by (simp add: sint_small_64)
  show ?thesis
  proof (cases "buf < TASK_SIZE")
    case True
    then have "verify_area buf (scast len)" using area_verified [OF _ assms(1) u] by simp
    then show ?thesis
      using True assms(3) by (simp add: copy_in_piece_def copy_from_user_def copy_words_blit u)
  next
    case False
    then show ?thesis using assms(3) sg by (simp add: copy_in_piece_def memcpy_blit u)
  qed
qed

text \<open>One iteration on a cluster: the bytes of the caller replace those from \<open>off\<close> on.\<close>

definition put_cluster :: "FAT32_sb_info \<Rightarrow> addr \<Rightarrow> u64 \<Rightarrow> nat \<Rightarrow> addr \<Rightarrow> u32 \<Rightarrow> vfs \<Rightarrow> vfs" where
  "put_cluster fsbi buffer sec off buf len s =
     (let s = copy_in_piece buf (buffer + word_of_nat off) len (read_cluster fsbi buffer sec s)
      in s\<lparr>img := ide_write sec (sector_per_cluster fsbi) buffer (vmem s) (img s)\<rparr>)"

lemma areas_apart_swap: "areas_apart a n b k \<Longrightarrow> areas_apart b k a n"
  by (auto simp: areas_apart_def)

lemma apart_swap: "apart n a b \<Longrightarrow> apart n b a"
  unfolding apart_def by metis

lemma write_piece:
  assumes geo: "geometry fsbi" and c: "cluster_ok fsbi c" and off: "off + unat len \<le> bpc fsbi"
    and buf: "area_ok buf (unat len)" and ap: "areas_apart buffer (bpc fsbi) buf (unat len)"
  shows "\<exists>m d. put_cluster fsbi buffer (cluster_sector fsbi (ucast c)) off buf len s = s\<lparr>vmem := m, img := d\<rparr> \<and>
     (\<forall>x. \<not> in_area buffer (bpc fsbi) x \<longrightarrow> m x = vmem s x) \<and>
     (\<forall>e. cluster_ok fsbi e \<longrightarrow> read_FAT_Entry fsbi e d = read_FAT_Entry fsbi e (img s)) \<and>
     (\<forall>c' i. cluster_ok fsbi c' \<longrightarrow> i < bpc fsbi \<longrightarrow> cluster_byte fsbi d (ucast c') i =
        (if c' = c \<and> off \<le> i \<and> i < off + unat len then vmem s (buf + word_of_nat (i - off))
         else cluster_byte fsbi (img s) (ucast c') i))"
proof -
  let ?s = "read_cluster fsbi buffer (cluster_sector fsbi (ucast c)) s"
  let ?m = "movs (unat len) buf (buffer + word_of_nat off) (vmem ?s)"
  let ?d = "ide_write (cluster_sector fsbi (ucast c)) (sector_per_cluster fsbi) buffer ?m (img s)"
  have vol: "volume_ok fsbi" using geo by (simp add: geometry_def)
  note v = volume_bounds [OF vol]
  have l: "unat len < 2 ^ 31" using off v by simp
  have "apart (unat len) (buffer + word_of_nat off) buf"
    using areas_apart_apart [OF ap, of off "unat len"] off v by simp
  then have "apart (unat len) buf (buffer + word_of_nat off)" by (rule apart_swap)
  then have "copy_in_piece buf (buffer + word_of_nat off) len ?s = ?s\<lparr>vmem := ?m\<rparr>"
    using buf l by (intro copy_in_mem)
  then have eq: "put_cluster fsbi buffer (cluster_sector fsbi (ucast c)) off buf len s = s\<lparr>vmem := ?m, img := ?d\<rparr>"
    by (simp add: put_cluster_def Let_def read_cluster_def)
  have inb: "in_area buffer (bpc fsbi) x" if "unat (x - (buffer + word_of_nat off)) < unat len" for x
    using that off v by (intro in_area_sub) simp_all
  have frame: "?m x = vmem s x" if "\<not> in_area buffer (bpc fsbi) x" for x
    using that inb [of x] by (auto simp: movs_apply read_cluster_mem [OF vol])
  have source: "vmem ?s (buf + word_of_nat k) = vmem s (buf + word_of_nat k)" if "k < unat len" for k
  proof -
    have "in_area buf (unat len) (buf + word_of_nat k)" using that l by (intro in_area_start) simp_all
    then show ?thesis using ap by (auto simp: areas_apart_def read_cluster_mem [OF vol])
  qed
  have byte: "?m (buffer + word_of_nat i) =
      (if off \<le> i \<and> i < off + unat len then vmem s (buf + word_of_nat (i - off))
       else cluster_byte fsbi (img s) (ucast c) i)" if i: "i < bpc fsbi" for i
  proof -
    have u: "unat (word_of_nat i :: u64) = i" "unat (word_of_nat off :: u64) = off"
      using i off v by (simp_all add: unat_of_nat_small)
    have d: "unat (buffer + word_of_nat i - (buffer + word_of_nat off)) < unat len \<longleftrightarrow> off \<le> i \<and> i < off + unat len"
    proof (cases "off \<le> i")
      case True
      then have "unat (word_of_nat i - word_of_nat off :: u64) = i - off"
        using u by (simp add: unat_sub word_le_nat_alt)
      then show ?thesis using True by auto
    next
      case False
      have "\<not> in_area (buffer + word_of_nat off) (unat len) (buffer + word_of_nat i)"
        using False l off v i by (intro in_area_disjoint in_area_start) simp_all
      then show ?thesis using False by (simp add: in_area_def)
    qed
    have "buffer + word_of_nat i - (buffer + word_of_nat off) = word_of_nat (i - off)" if "off \<le> i"
      using that by (simp add: of_nat_diff)
    then show ?thesis
      unfolding movs_apply d using i u source [of "i - off"]
      by (auto simp: read_cluster_mem [OF vol] in_area_def)
  qed
  have "cluster_byte fsbi ?d (ucast c') i =
      (if c' = c \<and> off \<le> i \<and> i < off + unat len then vmem s (buf + word_of_nat (i - off))
       else cluster_byte fsbi (img s) (ucast c') i)" if "cluster_ok fsbi c'" "i < bpc fsbi" for c' i
    using ide_write_cluster [OF geo c that refl] byte [OF that(2)] by auto
  then show ?thesis using eq frame ide_write_table [OF geo c] by blast
qed

text \<open>An iteration on an allocated cluster; \<open>cluster\<close> stays where it is unless the chain ends.\<close>

lemma write_loop_step:
  assumes len: "piece fsbi index (word_of_nat off) = len"
    and s': "s' = put_cluster fsbi buffer (cluster_sector fsbi c) off buf len s"
  shows "index = len \<Longrightarrow> FAT32_write_loop fsbi buffer False sec c index (word_of_nat off) buf pos s =
      Some (Written, pos + scast len, s')"
    and "index \<noteq> len \<Longrightarrow> next_in_FAT fsbi (img s') c < 0x0ffffff8 \<Longrightarrow>
      FAT32_write_loop fsbi buffer False sec c index (word_of_nat off) buf pos s =
      FAT32_write_loop fsbi buffer False (cluster_sector fsbi c) c (index - len) 0 (buf + scast len) (pos + scast len) s'"
proof -
  assume "index = len"
  then have i: "index - len = 0" "(index - len = 0) = True" by simp_all
  show "FAT32_write_loop fsbi buffer False sec c index (word_of_nat off) buf pos s = Some (Written, pos + scast len, s')"
    by (subst FAT32_write_loop.simps) (simp only: len s' put_cluster_def Let_def i(2) if_True if_False)
next
  assume "index \<noteq> len" and "next_in_FAT fsbi (img s') c < 0x0ffffff8"
  then have i: "(index - len = 0) = False" "(next_in_FAT fsbi (img s') c \<ge> 0x0ffffff8) = False"
    by (simp_all add: not_le)
  show "FAT32_write_loop fsbi buffer False sec c index (word_of_nat off) buf pos s =
      FAT32_write_loop fsbi buffer False (cluster_sector fsbi c) c (index - len) 0 (buf + scast len) (pos + scast len) s'"
    using i(2) unfolding s'
    by (subst FAT32_write_loop.simps) (simp only: len put_cluster_def Let_def i(1) if_False)
qed

lemma FAT32_write_unfold:
  assumes "fresh s = buffer # rest" and "buffer \<noteq> NULL" and "bytes_per_cluster (volume_of filp s) \<noteq> 0"
    and "first_cluster (finode_of filp s) \<noteq> 0"
    and "c = seek_cluster (volume_of filp s) (img s) (ucast (long_div pos (bytes_per_cluster (volume_of filp s))))
            (first_cluster (finode_of filp s))"
    and "c \<noteq> 0"
    and "FAT32_write_loop (volume_of filp s) buffer False 0 c (ucast cnt)
           (long_mod pos (bytes_per_cluster (volume_of filp s))) buf pos (s\<lparr>fresh := rest, live := buffer # live s\<rparr>) =
         Some (Written, pos', s')"
    and "inodes s' = inodes s" and "\<not> pos' > size_of filp s"
  shows "FAT32_write filp buf cnt pos s = Some (cnt, pos', put_object buffer s')"
  using assms(3-) by (simp add: FAT32_write_def Let_def get_nonnull_Cons [OF assms(1,2)] finode_of_def volume_of_def size_of_def)

text \<open>The position of an access in terms of the chain.\<close>

lemma position_split:
  assumes op: "opened s filp cs" and pos: "unat pos < unat (size_of filp s)"
  shows "long_mod pos (bytes_per_cluster (volume_of filp s)) = word_of_nat (unat pos mod bpc (volume_of filp s))"
    and "seek_cluster (volume_of filp s) (img s) (ucast (long_div pos (bytes_per_cluster (volume_of filp s))))
        (first_cluster (finode_of filp s)) = ucast (cs ! (unat pos div bpc (volume_of filp s)))"
    and "unat pos div bpc (volume_of filp s) < length cs" and "first_cluster (finode_of filp s) \<noteq> 0"
    and "ucast (cs ! (unat pos div bpc (volume_of filp s))) \<noteq> (0 :: u64)"
proof -
  let ?b = "volume_of filp s" and ?i = "unat pos div bpc (volume_of filp s)"
  have ch: "chain (\<lambda>c. read_FAT_Entry ?b c (img s)) is_end_mark cs" "0 \<notin> set cs" "volume_ok ?b"
    "unat (size_of filp s) \<le> length cs * bpc ?b" "first_cluster (finode_of filp s) = ucast (hd cs)"
    "unat (size_of filp s) < 2 ^ 31"
    using op by (simp_all add: opened_def)
  note v = volume_bounds [OF ch(3)]
  have pos31: "unat pos < 2 ^ 31" using pos ch(6) by simp
  have sp: "0 \<le> sint pos" "0 \<le> sint (bytes_per_cluster ?b)" using pos31 v by (simp_all add: sint_small_64)
  show "long_mod pos (bytes_per_cluster ?b) = word_of_nat (unat pos mod bpc ?b)"
    unfolding long_mod_nat [OF sp, symmetric] by simp
  have i31: "?i < 2 ^ 31" using pos31 by (rule le_less_trans [OF div_le_dividend])
  have i: "unat (ucast (long_div pos (bytes_per_cluster ?b)) :: u32) = ?i"
    using long_div_nat [OF sp] i31 by (simp add: unsigned_ucast_eq take_bit_nat_eq_self)
  show il: "?i < length cs" using pos ch(4) by (simp add: less_mult_imp_div_less)
  show "seek_cluster ?b (img s) (ucast (long_div pos (bytes_per_cluster ?b))) (first_cluster (finode_of filp s)) =
      ucast (cs ! ?i)"
    unfolding ch(5) by (rule seek_chain [OF ch(1) il i i31])
  have nz: "(ucast c :: u64) \<noteq> 0" if "c \<in> set cs" for c
    using that ch(2) by (metis unat_0 unat_ucast_32 word_unat_eq_iff)
  have "cs \<noteq> []" using il by auto
  then show "first_cluster (finode_of filp s) \<noteq> 0" using nz ch(5) by simp
  show "ucast (cs ! ?i) \<noteq> (0 :: u64)" using nz il by simp
qed

lemma file_byte_update:
  assumes vol: "volume_ok fsbi" and "distinct cs" and "i < length cs" and "p < length cs * bpc fsbi"
    and "off + n \<le> bpc fsbi"
    and "\<And>c k. c \<in> set cs \<Longrightarrow> k < bpc fsbi \<Longrightarrow> cluster_byte fsbi d' (ucast c) k =
      (if c = cs ! i \<and> off \<le> k \<and> k < off + n then f (k - off) else cluster_byte fsbi d (ucast c) k)"
  shows "file_byte fsbi d' cs p = (if i * bpc fsbi + off \<le> p \<and> p < i * bpc fsbi + off + n
     then f (p - (i * bpc fsbi + off)) else file_byte fsbi d cs p)"
proof -
  let ?B = "bpc fsbi" and ?q = "p div bpc fsbi" and ?r = "p mod bpc fsbi"
  have B: "0 < ?B" using volume_bounds [OF vol] by simp
  have q: "?q < length cs" using assms(4) by (simp add: less_mult_imp_div_less)
  have r: "?r < ?B" using B by simp
  have p: "p = ?q * ?B + ?r" by simp
  have same: "cs ! ?q = cs ! i \<longleftrightarrow> ?q = i" using assms(2,3) q by (simp add: nth_eq_iff_index_eq)
  have range: "i * ?B + off \<le> p \<and> p < i * ?B + off + n \<longleftrightarrow> ?q = i \<and> off \<le> ?r \<and> ?r < off + n"
  proof
    assume h: "i * ?B + off \<le> p \<and> p < i * ?B + off + n"
    then have "i * ?B \<le> p" "p < Suc i * ?B" using assms(5) by simp_all
    then have "?q = i" by (intro div_nat_eqI) (simp_all add: mult.commute)
    with h p show "?q = i \<and> off \<le> ?r \<and> ?r < off + n" by (metis add_le_cancel_left add.assoc add_less_cancel_left)
  next
    assume "?q = i \<and> off \<le> ?r \<and> ?r < off + n"
    then show "i * ?B + off \<le> p \<and> p < i * ?B + off + n"
      by (metis p add_le_cancel_left add.assoc add_less_cancel_left)
  qed
  have "p - (i * ?B + off) = ?r - off" if "?q = i" using that p by (metis diff_diff_eq add_diff_cancel_left')
  then show ?thesis
    unfolding range file_byte_def using assms(6) [OF nth_mem [OF q] r] same by auto
qed

lemma chain_clusters_byte:
  assumes "opened s filp cs" and "\<forall>c \<in> set cs. cluster_ok (volume_of filp s) c"
    and "\<forall>e. cluster_ok (volume_of filp s) e \<longrightarrow>
      read_FAT_Entry (volume_of filp s) e d = read_FAT_Entry (volume_of filp s) e (img s)"
  shows "opened (s\<lparr>vmem := m, img := d, fresh := r, live := l\<rparr>) filp cs"
proof -
  have e: "inode_of filp (s\<lparr>vmem := m, img := d, fresh := r, live := l\<rparr>) = inode_of filp s"
    by (simp add: inode_of_def)
  have "chain (\<lambda>c. read_FAT_Entry (volume_of filp s) c d) is_end_mark cs =
      chain (\<lambda>c. read_FAT_Entry (volume_of filp s) c (img s)) is_end_mark cs"
    using assms(2,3) by (intro chain_cong) simp
  then show ?thesis using assms(1) by (simp add: opened_def volume_of_def finode_of_def size_of_def e)
qed

lemma FAT32_write_inside:
  assumes op: "opened s filp cs" and geo: "geometry (volume_of filp s)"
    and cs: "\<forall>c \<in> set cs. cluster_ok (volume_of filp s) c"
    and fit: "unat pos mod bpc (volume_of filp s) + unat cnt \<le> bpc (volume_of filp s)" "0 < unat cnt"
      "unat pos + unat cnt \<le> unat (size_of filp s)"
    and buffer: "fresh s = buffer # rest" "buffer \<noteq> NULL"
    and area: "area_ok buf (unat cnt)" "areas_apart buffer (bpc (volume_of filp s)) buf (unat cnt)"
  shows "\<exists>m d. FAT32_write filp buf cnt pos s = Some (cnt, pos + cnt, s\<lparr>vmem := m, img := d, fresh := rest\<rparr>) \<and>
     opened (s\<lparr>vmem := m, img := d, fresh := rest\<rparr>) filp cs \<and>
     (\<forall>x. \<not> in_area buffer (bpc (volume_of filp s)) x \<longrightarrow> m x = vmem s x) \<and>
     (\<forall>p < length cs * bpc (volume_of filp s). file_byte (volume_of filp s) d cs p =
        (if unat pos \<le> p \<and> p < unat pos + unat cnt then vmem s (buf + word_of_nat (p - unat pos))
         else file_byte (volume_of filp s) (img s) cs p))"
proof -
  define fsbi where "fsbi = volume_of filp s"
  let ?i = "unat pos div bpc fsbi" and ?off = "unat pos mod bpc fsbi"
  let ?s = "s\<lparr>fresh := rest, live := buffer # live s\<rparr>"
  have pos: "unat pos < unat (size_of filp s)" using fit by simp
  note sp = position_split [OF op pos, folded fsbi_def]
  have vol: "volume_ok fsbi" using geo by (simp add: geometry_def fsbi_def)
  note v = volume_bounds [OF vol]
  have size31: "unat (size_of filp s) < 2 ^ 31" using op by (simp add: opened_def)
  have idx: "unat (ucast cnt :: u32) = unat cnt"
    using fit(3) size31 by (simp add: unsigned_ucast_eq take_bit_nat_eq_self)
  then have c31: "unat (ucast cnt :: u32) < 2 ^ 31" using fit(3) size31 by simp
  have sc: "scast (ucast cnt :: u32) = cnt" using scast_small [OF c31] by (simp add: idx)
  have off: "?off < bpc fsbi" using v by simp
  have pc: "piece fsbi (ucast cnt) (word_of_nat ?off) = ucast cnt"
    using piece_small [OF vol off c31] fit(1) idx by (simp add: word_unat_eq_iff fsbi_def)
  have c: "cluster_ok fsbi (cs ! ?i)" using cs sp(3) by (simp add: fsbi_def)
  obtain m d where
    put: "put_cluster fsbi buffer (cluster_sector fsbi (ucast (cs ! ?i))) ?off buf (ucast cnt) ?s = ?s\<lparr>vmem := m, img := d\<rparr>" and
    frame: "\<forall>x. \<not> in_area buffer (bpc fsbi) x \<longrightarrow> m x = vmem s x" and
    tab: "\<forall>e. cluster_ok fsbi e \<longrightarrow> read_FAT_Entry fsbi e d = read_FAT_Entry fsbi e (img s)" and
    bytes: "\<forall>c' i. cluster_ok fsbi c' \<longrightarrow> i < bpc fsbi \<longrightarrow> cluster_byte fsbi d (ucast c') i =
        (if c' = cs ! ?i \<and> ?off \<le> i \<and> i < ?off + unat cnt then vmem s (buf + word_of_nat (i - ?off))
         else cluster_byte fsbi (img s) (ucast c') i)"
    using write_piece [OF geo [folded fsbi_def] c, of ?off "ucast cnt" buf buffer ?s] fit(1) area
    by (auto simp: idx fsbi_def)
  have "FAT32_write_loop fsbi buffer False 0 (ucast (cs ! ?i)) (ucast cnt) (word_of_nat ?off) buf pos ?s =
      Some (Written, pos + cnt, ?s\<lparr>vmem := m, img := d\<rparr>)"
    using write_loop_step(1) [OF pc refl refl, of buffer 0 "ucast (cs ! ?i)" buf pos ?s] put
    by (simp add: sc)
  moreover have "\<not> size_of filp s < pos + cnt"
    using fit(3) size31 by (simp add: word_less_nat_alt unat_word_ariths)
  moreover have "bytes_per_cluster fsbi \<noteq> 0" using v by auto
  ultimately have "FAT32_write filp buf cnt pos s = Some (cnt, pos + cnt, put_object buffer (?s\<lparr>vmem := m, img := d\<rparr>))"
    using sp by (intro FAT32_write_unfold [OF buffer]) (simp_all add: fsbi_def)
  then have w: "FAT32_write filp buf cnt pos s = Some (cnt, pos + cnt, s\<lparr>vmem := m, img := d, fresh := rest\<rparr>)"
    by (simp add: put_object_def)
  have o: "opened (s\<lparr>vmem := m, img := d, fresh := rest\<rparr>) filp cs"
    using chain_clusters_byte [OF op cs tab [unfolded fsbi_def], where m = m and r = rest and l = "live s"] by simp
  have dist: "distinct cs" using op by (auto simp: opened_def intro: chain_distinct)
  have "file_byte fsbi d cs p = (if unat pos \<le> p \<and> p < unat pos + unat cnt then vmem s (buf + word_of_nat (p - unat pos))
         else file_byte fsbi (img s) cs p)" if "p < length cs * bpc fsbi" for p
    using file_byte_update [OF vol dist sp(3) that, of ?off "unat cnt" d "\<lambda>k. vmem s (buf + word_of_nat k)" "img s"]
      bytes cs fit(1) by (simp add: fsbi_def)
  then show ?thesis using w o frame unfolding fsbi_def by blast
qed

text \<open>A write that goes beyond the end of a cluster that is not the last one.\<close>

lemma chain_not_end: "chain g e cs \<Longrightarrow> Suc i < length cs \<Longrightarrow> \<not> e (g (cs ! i))"
proof (induction cs arbitrary: i)
  case (Cons c cs)
  then show ?case by (cases cs; cases i) auto
qed simp

lemma write_loop_crossing:
  assumes geo: "geometry fsbi" and c: "cluster_ok fsbi c"
    and cross: "off < bpc fsbi" "bpc fsbi < off + unat index" "unat index \<le> bpc fsbi"
    and next_ok: "\<not> is_end_mark (read_FAT_Entry fsbi c (img s))"
    and area: "area_ok buf (unat index)" "areas_apart buffer (bpc fsbi) buf (unat index)"
  shows "\<exists>m d. FAT32_write_loop fsbi buffer False sec (ucast c) index (word_of_nat off) buf pos s =
       Some (Written, pos + word_of_nat (unat index), s\<lparr>vmem := m, img := d\<rparr>) \<and>
     (\<forall>x. \<not> in_area buffer (bpc fsbi) x \<longrightarrow> m x = vmem s x) \<and>
     (\<forall>c' k. cluster_ok fsbi c' \<longrightarrow> c' \<noteq> c \<longrightarrow> k < bpc fsbi \<longrightarrow>
        cluster_byte fsbi d (ucast c') k = cluster_byte fsbi (img s) (ucast c') k) \<and>
     (\<forall>k < off + unat index - bpc fsbi.
        cluster_byte fsbi d (ucast c) k = vmem s (buf + word_of_nat (bpc fsbi - off + k)))"
proof -
  let ?B = "bpc fsbi"
  have vol: "volume_ok fsbi" using geo by (simp add: geometry_def)
  note v = volume_bounds [OF vol]
  have i31: "unat index < 2 ^ 31" using cross v by simp
  define len where "len = piece fsbi index (word_of_nat off)"
  have len: "unat len = ?B - off" using piece_small [OF vol cross(1) i31] cross by (simp add: len_def)
  then have l31: "unat len < 2 ^ 31" using v less_imp_diff_less [of ?B "2 ^ 31" off] by simp
  have le: "unat len \<le> unat index" using len cross by simp
  have ne: "index \<noteq> len" using len cross by auto
  have rest: "unat (index - len) = unat index - unat len" using le by (simp add: unat_sub word_le_nat_alt)
  have split: "in_area buf (unat index) x \<longleftrightarrow>
      in_area buf (unat len) x \<or> in_area (buf + word_of_nat (unat len)) (unat index - unat len) x" for x
    using le i31 by (intro in_area_split) simp_all
  have ap: "areas_apart buffer ?B buf (unat len)"
    "areas_apart buffer ?B (buf + word_of_nat (unat len)) (unat (index - len))"
    using area(2) split unfolding rest by (auto simp: areas_apart_def)
  obtain m1 d1 where
    1: "put_cluster fsbi buffer (cluster_sector fsbi (ucast c)) off buf len s = s\<lparr>vmem := m1, img := d1\<rparr>"
      "\<forall>x. \<not> in_area buffer ?B x \<longrightarrow> m1 x = vmem s x"
      "\<forall>e. cluster_ok fsbi e \<longrightarrow> read_FAT_Entry fsbi e d1 = read_FAT_Entry fsbi e (img s)"
      "\<forall>c' i. cluster_ok fsbi c' \<longrightarrow> i < ?B \<longrightarrow> cluster_byte fsbi d1 (ucast c') i =
        (if c' = c \<and> off \<le> i \<and> i < off + unat len then vmem s (buf + word_of_nat (i - off))
         else cluster_byte fsbi (img s) (ucast c') i)"
    using write_piece [OF geo c, of off len buf buffer s] len cross area_below [OF area(1) le] ap by auto
  let ?s1 = "s\<lparr>vmem := m1, img := d1\<rparr>"
  have "next_in_FAT fsbi d1 (ucast c) < 0x0ffffff8"
    using next_ok 1(3) c by (simp add: next_in_FAT_def is_end_mark_def END_MARK_def word_less_nat_alt word_le_nat_alt)
  then have first: "FAT32_write_loop fsbi buffer False sec (ucast c) index (word_of_nat off) buf pos s =
      FAT32_write_loop fsbi buffer False (cluster_sector fsbi (ucast c)) (ucast c) (index - len) (word_of_nat 0)
        (buf + word_of_nat (unat len)) (pos + word_of_nat (unat len)) ?s1"
    using write_loop_step(2) [OF len_def [symmetric] 1(1) [symmetric] ne] by (simp add: scast_small [OF l31])
  have r31: "unat (index - len) < 2 ^ 31" using i31 unfolding rest by (rule less_imp_diff_less)
  have "unat (piece fsbi (index - len) (word_of_nat 0)) = unat (index - len)"
    using piece_small [OF vol _ r31, of 0] v cross unfolding rest by simp
  then have p2: "piece fsbi (index - len) (word_of_nat 0) = index - len" by (simp only: word_unat_eq_iff)
  have a2: "area_ok (buf + word_of_nat (unat len)) (unat (index - len))"
    unfolding rest using area(1) len cross by (intro area_rest) simp_all
  have fit: "0 + unat (index - len) \<le> ?B" using cross(3) unfolding rest by simp
  obtain m2 d2 where
    2: "put_cluster fsbi buffer (cluster_sector fsbi (ucast c)) 0 (buf + word_of_nat (unat len)) (index - len) ?s1 =
        ?s1\<lparr>vmem := m2, img := d2\<rparr>"
      "\<forall>x. \<not> in_area buffer ?B x \<longrightarrow> m2 x = m1 x"
      "\<forall>c' i. cluster_ok fsbi c' \<longrightarrow> i < ?B \<longrightarrow> cluster_byte fsbi d2 (ucast c') i =
        (if c' = c \<and> 0 \<le> i \<and> i < 0 + unat (index - len)
         then m1 (buf + word_of_nat (unat len) + word_of_nat (i - 0)) else cluster_byte fsbi d1 (ucast c') i)"
    using write_piece [OF geo c fit a2 ap(2), of ?s1] by (elim exE conjE) simp
  have sum: "word_of_nat (unat len) + word_of_nat (unat (index - len)) = (word_of_nat (unat index) :: u64)"
    unfolding rest using le by (simp flip: of_nat_add)
  have loop: "FAT32_write_loop fsbi buffer False sec (ucast c) index (word_of_nat off) buf pos s =
      Some (Written, pos + word_of_nat (unat index), s\<lparr>vmem := m2, img := d2\<rparr>)"
    unfolding first write_loop_step(1) [OF p2 refl refl] 2(1) scast_small [OF r31]
    by (simp only: add.assoc sum) simp
  have "cluster_byte fsbi d2 (ucast c) k = vmem s (buf + word_of_nat (?B - off + k))"
    if k: "k < off + unat index - ?B" for k
  proof -
    have kr: "k < unat (index - len)" "k < ?B" using k cross len unfolding rest by simp_all
    let ?x = "buf + word_of_nat (unat len) + word_of_nat k"
    have "in_area (buf + word_of_nat (unat len)) (unat (index - len)) ?x"
      using kr r31 by (intro in_area_start) simp_all
    then have "m1 ?x = vmem s ?x" using ap(2) 1(2) by (auto simp: areas_apart_def)
    then show ?thesis using 2(3) c kr len by (simp add: add.assoc flip: of_nat_add)
  qed
  then show ?thesis using loop 1(2,4) 2(2,3) by (intro exI [of _ m2] exI [of _ d2]) auto
qed

section \<open>Writing to an empty file\<close>

lemma write_FAT_below:
  assumes "entry_ok fsbi e" and "unat s < unat (FAT1_firstsector fsbi)"
  shows "write_FAT_Entry fsbi e v d s = d s"
proof -
  have "fold (write_FAT_copy fsbi e buf) [0..<n] d s = d s" if "n \<le> unat (NumFATs fsbi)" for n buf
    using that
  proof (induction n)
    case (Suc n)
    have "s \<noteq> FAT1_firstsector fsbi + sector_per_FAT fsbi * word_of_nat n + ucast (drop_bit 7 e)"
      using fat_sector_nat [OF assms(1), of n] Suc.prems assms(2) by auto
    then show ?case using Suc write_FAT_copy_apply [of fsbi e buf n] by simp
  qed simp
  then show ?thesis by (simp add: write_FAT_Entry_def Let_def)
qed

text \<open>Writing back an inode changes its directory cluster only.\<close>

lemma set_dentry_inode_frame:
  assumes "\<And>j. j < 32 \<Longrightarrow> x \<noteq> e + word_of_nat j"
  shows "set_dentry_inode e inode finode m x = m x"
proof -
  have out: "\<not> unat (x - (e + word_of_nat i)) < k" if "i + k \<le> 32" for i k
  proof
    assume h: "unat (x - (e + word_of_nat i)) < k"
    let ?j = "i + unat (x - (e + word_of_nat i))"
    have "x = e + word_of_nat ?j" by simp
    moreover have "?j < 32" using h that by simp
    ultimately show False using assms [of ?j] by blast
  qed
  show ?thesis using out [of 28 4] out [of 26 2] out [of 20 2]
    by (simp add: set_dentry_inode_def Let_def stos_def)
qed

lemma write_inode_frame:
  assumes geo: "geometry f"
    and f: "f = fsbis s (private_sb_info (supers s (i_sb (inodes s ip))))"
    and loc: "dentry_location (finodes s (private_index_info (inodes s ip))) = ucast c" "cluster_ok f c"
    and entry: "32 * unat (dentry_position (finodes s (private_index_info (inodes s ip)))) + 32 \<le> bpc f"
    and buffer: "fresh s = b # rest" "b \<noteq> NULL"
  shows "\<exists>m d. fat32_write_inode ip s = Some (s\<lparr>vmem := m, img := d, fresh := rest\<rparr>) \<and>
     (\<forall>x. \<not> in_area b (bpc f) x \<longrightarrow> m x = vmem s x) \<and>
     (\<forall>sec. unat sec < unat (Data_firstsector f) \<longrightarrow> d sec = img s sec)"
proof -
  have vol: "volume_ok f" using geo by (simp add: geometry_def)
  note v = volume_bounds [OF vol]
  let ?fi = "finodes s (private_index_info (inodes s ip))"
  let ?s = "s\<lparr>fresh := rest, live := b # live s\<rparr>"
  let ?p = "unat (dentry_position ?fi)"
  let ?m = "set_dentry_inode (b + 32 * dentry_position ?fi) (inodes s ip) ?fi
      (vmem (read_cluster f b (cluster_sector f (ucast c)) ?s))"
  let ?d = "ide_write (cluster_sector f (ucast c)) (sector_per_cluster f) b ?m (img s)"
  have "2 \<le> unat c" using loc(2) by (simp add: cluster_ok_def)
  then have "(ucast c :: u64) \<noteq> 0" by (auto simp: word_unat_eq_iff)
  then have eq: "fat32_write_inode ip s = Some (s\<lparr>vmem := ?m, img := ?d, fresh := rest\<rparr>)"
    using loc(1) by (simp add: fat32_write_inode_def Let_def get_nonnull_Cons [OF buffer] f read_cluster_def put_object_def)
  have e: "b + 32 * dentry_position ?fi = b + word_of_nat (32 * ?p)" by simp
  have frame: "?m x = vmem s x" if "\<not> in_area b (bpc f) x" for x
  proof -
    have "x \<noteq> b + 32 * dentry_position ?fi + word_of_nat j" if "j < 32" for j
    proof
      assume "x = b + 32 * dentry_position ?fi + word_of_nat j"
      then have "x - (b + word_of_nat (32 * ?p)) = word_of_nat j" unfolding e by simp
      moreover have "unat (word_of_nat j :: u64) = j" using that by (intro unat_of_nat_small) simp
      ultimately have "in_area b (bpc f) x" using that entry v by (intro in_area_sub [of x b "32 * ?p" 32]) simp_all
      then show False using \<open>\<not> in_area b (bpc f) x\<close> by simp
    qed
    then show ?thesis using that by (simp add: set_dentry_inode_frame read_cluster_mem [OF vol])
  qed
  have "?d sec = img s sec" if "unat sec < unat (Data_firstsector f)" for sec
    using below_clusters [OF geo loc(2) that] by (simp add: ide_write_def)
  then show ?thesis using eq frame by blast
qed

lemma FAT32_write_unfold_empty:
  assumes "fresh s = b1 # rest" and "b1 \<noteq> NULL" and "bytes_per_cluster (volume_of filp s) \<noteq> 0"
    and "first_cluster (finode_of filp s) = 0"
    and "find_available_cluster (volume_of filp s) (img s) = cl" and "cl \<noteq> 0"
    and "ip = inode_of filp s" and "fip = private_index_info (inodes s ip)"
    and "fat32_write_inode ip (upd_finode fip (\<lambda>x. x\<lparr>first_cluster := cl\<rparr>)
           (s\<lparr>fresh := rest, live := b1 # live s\<rparr>)) = Some s2"
    and "FAT32_write_loop (volume_of filp s) b1 True 0 cl (ucast cnt)
           (long_mod pos (bytes_per_cluster (volume_of filp s))) buf pos
           (s2\<lparr>img := write_FAT_Entry (volume_of filp s) (ucast cl) 0x0ffffff8 (img s2)\<rparr>) = Some (Written, pos', s4)"
    and "pos' > file_size (inodes s4 ip)"
    and "fat32_write_inode ip (upd_inode ip (\<lambda>x. x\<lparr>file_size := pos'\<rparr>) s4) = Some s6"
  shows "FAT32_write filp buf cnt pos s = Some (cnt, pos', put_object b1 s6)"
  using assms(3-)
  by (simp add: FAT32_write_def Let_def get_nonnull_Cons [OF assms(1,2)] finode_of_def volume_of_def size_of_def)

section \<open>Properties\<close>

text \<open>C21.  \<open>FAT32_read\<close> returns the bytes of the file: it stores exactly the bytes from the position
  on, following the chain of clusters, up to the requested number or the end of the file, returns their
  number, advances the position by it, changes no other memory than its buffer and frees that buffer.\<close>

theorem FAT32_read_returns_file:
  assumes "opened s filp cs" and "unat pos \<le> unat (size_of filp s)" and "unat cnt < 2 ^ 63"
    and "fresh s = buffer # rest" and "buffer \<noteq> NULL"
    and "n = min (unat cnt) (unat (size_of filp s) - unat pos)"
    and "area_ok buf n" and "areas_apart buffer (bpc (volume_of filp s)) buf n"
  shows "\<exists>m. FAT32_read filp buf cnt pos s =
       Some (word_of_nat n, pos + word_of_nat n, s\<lparr>vmem := m, fresh := rest\<rparr>) \<and>
     (\<forall>i < n. m (buf + word_of_nat i) = file_byte (volume_of filp s) (img s) cs (unat pos + i)) \<and>
     (\<forall>x. \<not> in_area buffer (bpc (volume_of filp s)) x \<longrightarrow> \<not> in_area buf n x \<longrightarrow> m x = vmem s x)"
  by (rule FAT32_read_bytes [OF assms])

definition demo_vfs :: vfs where
  "demo_vfs = \<lparr>vlnk = \<lparr>nxt = (\<lambda>_. 0), prv = (\<lambda>_. 0)\<rparr>,
     dentries = (\<lambda>_. \<lparr>d_name = 0, name_length = 0, dir_inode = 0x30, d_parent = 0\<rparr>),
     inodes = (\<lambda>_. \<lparr>file_size = 1000, blocks = 2, attribute = FS_ATTR_FILE, i_sb = 0x40,
        i_f_ops = FAT32_file_ops, inode_ops = FAT32_inode_ops, private_index_info = 0x60\<rparr>),
     files = (\<lambda>_. \<lparr>f_position = 500, f_mode = 0, f_dentry = 0x20, f_f_ops = FAT32_file_ops\<rparr>),
     supers = (\<lambda>_. \<lparr>sb_root = 0x70, private_sb_info = 0x50\<rparr>),
     fsbis = (\<lambda>_. demo_fsbi),
     finodes = (\<lambda>_. \<lparr>first_cluster = 2, dentry_location = 5, dentry_position = 1, create_date = 0,
        create_time = 0, write_date = 0, write_time = 0\<rparr>),
     vmem = (\<lambda>a. ucast a), img = demo_image, fresh = [0x10000, 0x11000], live = [], root_sb = 0x40\<rparr>"

lemma demo_vfs_volume [simp]: "volume_of filp demo_vfs = demo_fsbi" "size_of filp demo_vfs = 1000"
  "img demo_vfs = demo_image" "fresh demo_vfs = [0x10000, 0x11000]"
  by (simp_all add: volume_of_def size_of_def demo_vfs_def)

lemma demo_chain: "chain (\<lambda>c. read_FAT_Entry demo_fsbi c demo_image) is_end_mark [2, 3]"
  by (simp add: demo_entries is_end_mark_def END_MARK_def)

lemma demo_opened: "opened demo_vfs 0x10 [2, 3]"
  unfolding opened_def demo_vfs_volume using demo_chain
  by (simp add: volume_ok_def finode_of_def demo_vfs_def demo_fsbi_def del: chain.simps)

lemma in_area_nat:
  assumes "unat a + n \<le> 2 ^ 64"
  shows "in_area a n x \<longleftrightarrow> unat a \<le> unat x \<and> unat x < unat a + n"
proof
  have u: "unat (a + y) = unat a + unat y" if "unat y < n" for y
    using that assms by (simp add: unat_word_ariths)
  assume "in_area a n x"
  then show "unat a \<le> unat x \<and> unat x < unat a + n" using u [of "x - a"] by (simp add: in_area_def)
next
  assume "unat a \<le> unat x \<and> unat x < unat a + n"
  then show "in_area a n x" by (auto simp: in_area_def unat_sub word_le_nat_alt)
qed

lemma areas_apart_nat:
  "unat a + n \<le> unat b \<Longrightarrow> unat b + k \<le> 2 ^ 64 \<Longrightarrow> areas_apart a n b k"
  using in_area_nat [of a n] in_area_nat [of b k] unat_less_2p64 [of b] by (auto simp: areas_apart_def)

text \<open>A read across the end of the first cluster.\<close>

theorem FAT32_read_returns_file_witness:
  "\<exists>m. FAT32_read 0x10 0x20000 100 500 demo_vfs = Some (100, 600, demo_vfs\<lparr>vmem := m, fresh := [0x11000]\<rparr>) \<and>
     m 0x20032 = 45"
proof -
  have b: "bpc demo_fsbi = 512" by (simp add: demo_fsbi_def)
  have ap: "areas_apart 0x10000 (bpc (volume_of 0x10 demo_vfs)) 0x20000 100"
    unfolding demo_vfs_volume b by (rule areas_apart_nat) simp_all
  have ok: "area_ok 0x20000 100" by (simp add: area_ok_def TASK_SIZE_def)
  have "\<exists>m. FAT32_read 0x10 0x20000 100 500 demo_vfs =
       Some (word_of_nat 100, 500 + word_of_nat 100, demo_vfs\<lparr>vmem := m, fresh := [0x11000]\<rparr>) \<and>
     (\<forall>i < 100. m (0x20000 + word_of_nat i) =
        file_byte (volume_of 0x10 demo_vfs) (img demo_vfs) [2, 3] (unat (500 :: u64) + i)) \<and>
     (\<forall>x. \<not> in_area 0x10000 (bpc (volume_of 0x10 demo_vfs)) x \<longrightarrow> \<not> in_area 0x20000 100 x \<longrightarrow>
        m x = vmem demo_vfs x)"
    by (rule FAT32_read_returns_file [OF demo_opened _ _ _ _ _ ok ap]) simp_all
  then obtain m where
    m: "FAT32_read 0x10 0x20000 100 500 demo_vfs = Some (100, 600, demo_vfs\<lparr>vmem := m, fresh := [0x11000]\<rparr>)"
      "\<forall>i < 100. m (0x20000 + word_of_nat i) = file_byte demo_fsbi demo_image [2, 3] (500 + i)"
    unfolding demo_vfs_volume by (elim exE conjE) simp
  have "file_byte demo_fsbi demo_image [2, 3] (500 + 50) = 45"
    by (simp add: file_byte_def b cluster_byte_def cluster_sector_def) (simp add: demo_fsbi_def demo_image_def)
  with m(2) [rule_format, of 50] have "m 0x20032 = 45" by simp
  with m(1) show ?thesis by blast
qed

text \<open>C22.  What \<open>FAT32_write\<close> stores inside one cluster of a file, \<open>FAT32_read\<close> reads back from
  the same position; all other bytes of the file stay as they were and the file stays well formed.\<close>

theorem FAT32_write_then_read:
  assumes "opened s filp cs" and "geometry (volume_of filp s)"
    and "\<forall>c \<in> set cs. cluster_ok (volume_of filp s) c"
    and "unat pos mod bpc (volume_of filp s) + unat cnt \<le> bpc (volume_of filp s)" and "0 < unat cnt"
    and "unat pos + unat cnt \<le> unat (size_of filp s)"
    and "fresh s = b1 # b2 # rest" and "b1 \<noteq> NULL" and "b2 \<noteq> NULL"
    and "area_ok buf (unat cnt)" and "areas_apart b1 (bpc (volume_of filp s)) buf (unat cnt)"
    and "area_ok dst (unat cnt)" and "areas_apart b2 (bpc (volume_of filp s)) dst (unat cnt)"
  shows "\<exists>s' m. FAT32_write filp buf cnt pos s = Some (cnt, pos + cnt, s') \<and>
     FAT32_read filp dst cnt pos s' = Some (cnt, pos + cnt, s'\<lparr>vmem := m, fresh := rest\<rparr>) \<and>
     (\<forall>i < unat cnt. m (dst + word_of_nat i) = vmem s (buf + word_of_nat i)) \<and> opened s' filp cs \<and>
     (\<forall>p < unat (size_of filp s). \<not> (unat pos \<le> p \<and> p < unat pos + unat cnt) \<longrightarrow>
        file_byte (volume_of filp s) (img s') cs p = file_byte (volume_of filp s) (img s) cs p)"
proof -
  let ?f = "volume_of filp s"
  have size: "unat (size_of filp s) \<le> length cs * bpc ?f" "unat (size_of filp s) < 2 ^ 31"
    using assms(1) by (simp_all add: opened_def)
  obtain m d where
    w: "FAT32_write filp buf cnt pos s = Some (cnt, pos + cnt, s\<lparr>vmem := m, img := d, fresh := b2 # rest\<rparr>)" and
    op: "opened (s\<lparr>vmem := m, img := d, fresh := b2 # rest\<rparr>) filp cs" and
    b: "\<forall>p < length cs * bpc ?f. file_byte ?f d cs p =
        (if unat pos \<le> p \<and> p < unat pos + unat cnt then vmem s (buf + word_of_nat (p - unat pos))
         else file_byte ?f (img s) cs p)"
    using FAT32_write_inside [OF assms(1-8,10,11)] by auto
  let ?s = "s\<lparr>vmem := m, img := d, fresh := b2 # rest\<rparr>"
  have same: "volume_of filp ?s = ?f" "size_of filp ?s = size_of filp s"
    by (simp_all add: volume_of_def size_of_def inode_of_def)
  have n: "unat cnt = min (unat cnt) (unat (size_of filp ?s) - unat pos)" using assms(6) same by simp
  have "unat pos \<le> unat (size_of filp ?s)" "unat cnt < 2 ^ 63" using assms(6) size(2) same by simp_all
  from FAT32_read_bytes [OF op this _ assms(9) n assms(12)] assms(13)
  obtain m' where r: "FAT32_read filp dst cnt pos ?s = Some (cnt, pos + cnt, ?s\<lparr>vmem := m', fresh := rest\<rparr>)"
    "\<forall>i < unat cnt. m' (dst + word_of_nat i) = file_byte ?f d cs (unat pos + i)"
    by (auto simp: same)
  have "file_byte ?f d cs (unat pos + i) = vmem s (buf + word_of_nat i)" if "i < unat cnt" for i
    using b [rule_format, of "unat pos + i"] that assms(6) size(1) by simp
  moreover have "file_byte ?f d cs p = file_byte ?f (img s) cs p"
    if "p < unat (size_of filp s)" "\<not> (unat pos \<le> p \<and> p < unat pos + unat cnt)" for p
    using b [rule_format, of p] that size(1) by auto
  ultimately show ?thesis using w r op by (intro exI [of _ ?s] exI [of _ m']) auto
qed

lemma demo_clusters: "geometry demo_fsbi" "bpc demo_fsbi = 512" "\<forall>c \<in> set [2, 3]. cluster_ok demo_fsbi c"
  by (simp_all add: geometry_def volume_ok_def cluster_ok_def demo_fsbi_def)

theorem FAT32_write_then_read_witness:
  "\<exists>s' m. FAT32_write 0x10 0x20000 4 100 demo_vfs = Some (4, 104, s') \<and>
     FAT32_read 0x10 0x30000 4 100 s' = Some (4, 104, s'\<lparr>vmem := m, fresh := []\<rparr>) \<and> m 0x30003 = 3"
proof -
  have a: "areas_apart 0x10000 (bpc (volume_of 0x10 demo_vfs)) 0x20000 (unat (4 :: u64))"
    "areas_apart 0x11000 (bpc (volume_of 0x10 demo_vfs)) 0x30000 (unat (4 :: u64))"
    unfolding demo_vfs_volume demo_clusters(2) by (rule areas_apart_nat; simp)+
  have o: "area_ok 0x20000 (unat (4 :: u64))" "area_ok 0x30000 (unat (4 :: u64))"
    by (simp_all add: area_ok_def TASK_SIZE_def)
  have g: "geometry (volume_of 0x10 demo_vfs)" "\<forall>c \<in> set [2, 3]. cluster_ok (volume_of 0x10 demo_vfs) c"
    "unat (100 :: u64) mod bpc (volume_of 0x10 demo_vfs) + unat (4 :: u64) \<le> bpc (volume_of 0x10 demo_vfs)"
    unfolding demo_vfs_volume using demo_clusters by simp_all
  have n: "0 < unat (4 :: u64)" "unat (100 :: u64) + unat (4 :: u64) \<le> unat (size_of 0x10 demo_vfs)"
    "(0x10000 :: u64) \<noteq> 0" "(0x11000 :: u64) \<noteq> 0" by simp_all
  obtain s' m where "FAT32_write 0x10 0x20000 4 100 demo_vfs = Some (4, 100 + 4, s')"
    "FAT32_read 0x10 0x30000 4 100 s' = Some (4, 100 + 4, s'\<lparr>vmem := m, fresh := []\<rparr>)"
    "\<forall>i < unat (4 :: u64). m (0x30000 + word_of_nat i) = vmem demo_vfs (0x20000 + word_of_nat i)"
    using FAT32_write_then_read [OF demo_opened g n(1,2) demo_vfs_volume(4) n(3,4) o(1) a(1) o(2) a(2)]
    by blast
  from this(1,2) this(3) [rule_format, of 3] show ?thesis
    by (intro exI [of _ s'] exI [of _ m]) (simp add: demo_vfs_def)
qed

text \<open>A write that goes past the end of a cluster which has a successor reports that it wrote
  everything, but it never advances to the successor: the bytes beyond the end of the cluster replace
  the first bytes of the same cluster, and no byte of the other clusters of the file changes.\<close>

theorem FAT32_write_crossing:
  assumes "opened s filp cs" and "geometry (volume_of filp s)"
    and "\<forall>c \<in> set cs. cluster_ok (volume_of filp s) c"
    and "i = unat pos div bpc (volume_of filp s)" and "off = unat pos mod bpc (volume_of filp s)"
    and "Suc i < length cs" and "bpc (volume_of filp s) < off + unat cnt" and "unat cnt \<le> bpc (volume_of filp s)"
    and "unat pos + unat cnt \<le> unat (size_of filp s)"
    and "fresh s = buffer # rest" and "buffer \<noteq> NULL"
    and "area_ok buf (unat cnt)" and "areas_apart buffer (bpc (volume_of filp s)) buf (unat cnt)"
  shows "\<exists>m d. FAT32_write filp buf cnt pos s = Some (cnt, pos + cnt, s\<lparr>vmem := m, img := d, fresh := rest\<rparr>) \<and>
     (\<forall>p < length cs * bpc (volume_of filp s). p div bpc (volume_of filp s) \<noteq> i \<longrightarrow>
        file_byte (volume_of filp s) d cs p = file_byte (volume_of filp s) (img s) cs p) \<and>
     (\<forall>k < off + unat cnt - bpc (volume_of filp s).
        file_byte (volume_of filp s) d cs (i * bpc (volume_of filp s) + k) =
        vmem s (buf + word_of_nat (bpc (volume_of filp s) - off + k)))"
proof -
  let ?f = "volume_of filp s" and ?s = "s\<lparr>fresh := rest, live := buffer # live s\<rparr>"
  have ch: "chain (\<lambda>c. read_FAT_Entry ?f c (img s)) is_end_mark cs" "volume_ok ?f" "unat (size_of filp s) < 2 ^ 31"
    using assms(1) by (simp_all add: opened_def)
  note v = volume_bounds [OF ch(2)]
  have off: "off < bpc ?f" using v assms(5) by simp
  have pos: "unat pos < unat (size_of filp s)" using assms(7,9) off by linarith
  note sp = position_split [OF assms(1) pos, folded assms(4,5)]
  have idx: "unat (ucast cnt :: u32) = unat cnt"
    using assms(9) ch(3) by (simp add: unsigned_ucast_eq take_bit_nat_eq_self)
  have c: "cluster_ok ?f (cs ! i)" using assms(3,6) by simp
  obtain m d where
    l: "FAT32_write_loop ?f buffer False 0 (ucast (cs ! i)) (ucast cnt) (word_of_nat off) buf pos ?s =
       Some (Written, pos + cnt, ?s\<lparr>vmem := m, img := d\<rparr>)" and
    other: "\<forall>c' k. cluster_ok ?f c' \<longrightarrow> c' \<noteq> cs ! i \<longrightarrow> k < bpc ?f \<longrightarrow>
        cluster_byte ?f d (ucast c') k = cluster_byte ?f (img s) (ucast c') k" and
    wrong: "\<forall>k < off + unat cnt - bpc ?f.
        cluster_byte ?f d (ucast (cs ! i)) k = vmem s (buf + word_of_nat (bpc ?f - off + k))"
    using write_loop_crossing [OF assms(2) c off, of "ucast cnt" ?s buf buffer 0 pos] chain_not_end [OF ch(1) assms(6)]
      assms(7,8,12,13) unfolding idx by auto
  have nz: "bytes_per_cluster ?f \<noteq> 0" using v by auto
  have "\<not> size_of filp s < pos + cnt" using assms(9) ch(3) by (simp add: word_less_nat_alt unat_word_ariths)
  with l have "FAT32_write filp buf cnt pos s = Some (cnt, pos + cnt, put_object buffer (?s\<lparr>vmem := m, img := d\<rparr>))"
    by (intro FAT32_write_unfold [OF assms(10,11) nz sp(4) sp(2) [symmetric] sp(5)]) (simp_all add: sp(1))
  then have w: "FAT32_write filp buf cnt pos s = Some (cnt, pos + cnt, s\<lparr>vmem := m, img := d, fresh := rest\<rparr>)"
    by (simp add: put_object_def)
  have dist: "distinct cs" using ch(1) by (rule chain_distinct)
  have "file_byte ?f d cs p = file_byte ?f (img s) cs p" if "p < length cs * bpc ?f" "p div bpc ?f \<noteq> i" for p
  proof -
    have q: "p div bpc ?f < length cs" using that(1) by (simp add: less_mult_imp_div_less)
    then have "cs ! (p div bpc ?f) \<noteq> cs ! i" using that(2) dist assms(6) by (simp add: nth_eq_iff_index_eq)
    then show ?thesis using other assms(3) q v by (simp add: file_byte_def)
  qed
  moreover have "file_byte ?f d cs (i * bpc ?f + k) = vmem s (buf + word_of_nat (bpc ?f - off + k))"
    if "k < off + unat cnt - bpc ?f" for k
    using wrong [rule_format, OF that] that assms(8) off v by (simp add: file_byte_def)
  ultimately show ?thesis using w by (intro exI [of _ m] exI [of _ d]) blast
qed

theorem FAT32_write_crossing_witness:
  "\<exists>m d. FAT32_write 0x10 0x20000 4 510 demo_vfs =
       Some (4, 514, demo_vfs\<lparr>vmem := m, img := d, fresh := [0x11000]\<rparr>) \<and>
     file_byte demo_fsbi d [2, 3] 513 = 8 \<and> file_byte demo_fsbi d [2, 3] 1 = 3"
proof -
  note d = demo_vfs_volume demo_clusters(2)
  have a: "areas_apart 0x10000 (bpc (volume_of 0x10 demo_vfs)) 0x20000 (unat (4 :: u64))"
    unfolding d by (rule areas_apart_nat) simp_all
  have o: "area_ok 0x20000 (unat (4 :: u64))" by (simp add: area_ok_def TASK_SIZE_def)
  have g: "geometry (volume_of 0x10 demo_vfs)" "\<forall>c \<in> set [2, 3]. cluster_ok (volume_of 0x10 demo_vfs) c"
    "0 = unat (510 :: u64) div bpc (volume_of 0x10 demo_vfs)" "510 = unat (510 :: u64) mod bpc (volume_of 0x10 demo_vfs)"
    "Suc 0 < length [2, 3 :: u32]" "bpc (volume_of 0x10 demo_vfs) < 510 + unat (4 :: u64)"
    "unat (4 :: u64) \<le> bpc (volume_of 0x10 demo_vfs)"
    "unat (510 :: u64) + unat (4 :: u64) \<le> unat (size_of 0x10 demo_vfs)"
    unfolding d using demo_clusters by simp_all
  have n: "(0x10000 :: u64) \<noteq> 0" by simp
  from FAT32_write_crossing [OF demo_opened g demo_vfs_volume(4) n o a]
  obtain m d where w: "FAT32_write 0x10 0x20000 4 510 demo_vfs =
       Some (4, 514, demo_vfs\<lparr>vmem := m, img := d, fresh := [0x11000]\<rparr>)"
    "\<forall>p < 1024. p div 512 \<noteq> 0 \<longrightarrow> file_byte demo_fsbi d [2, 3] p = file_byte demo_fsbi demo_image [2, 3] p"
    "\<forall>k < 2. file_byte demo_fsbi d [2, 3] k = vmem demo_vfs (0x20000 + word_of_nat (2 + k))"
    unfolding d by (elim exE conjE) simp
  have "file_byte demo_fsbi demo_image [2, 3] 513 = 8"
    by (simp add: file_byte_def demo_clusters(2) cluster_byte_def cluster_sector_def)
      (simp add: demo_fsbi_def demo_image_def)
  then have "file_byte demo_fsbi d [2, 3] 513 = 8" using w(2) [rule_format, of 513] by simp
  moreover have "file_byte demo_fsbi d [2, 3] 1 = 3" using w(3) [rule_format, of 1] by (simp add: demo_vfs_def)
  ultimately show ?thesis using w(1) by blast
qed

text \<open>C23.  The first write to an empty file reports that it wrote everything, but it stores the bytes
  of the caller at sector 0 of the disk, over the partition table, instead of in the cluster it has
  just allocated: \<open>sector\<close> is still 0 because it is only computed for a cluster that is read first.\<close>

theorem FAT32_write_empty_file:
  assumes geo: "geometry (volume_of filp s)" and empty: "first_cluster (finode_of filp s) = 0" "size_of filp s = 0"
    and free: "find_available_cluster (volume_of filp s) (img s) = ucast c" "c \<noteq> 0" "entry_ok (volume_of filp s) c"
    and fat: "0 < unat (FAT1_firstsector (volume_of filp s))"
    and loc: "dentry_location (finode_of filp s) = ucast dc" "cluster_ok (volume_of filp s) dc"
      "32 * unat (dentry_position (finode_of filp s)) + 32 \<le> bpc (volume_of filp s)"
    and cnt: "0 < unat cnt" "unat cnt \<le> bpc (volume_of filp s)"
    and fresh: "fresh s = b1 # b2 # b3 # rest" "b1 \<noteq> NULL" "b2 \<noteq> NULL" "b3 \<noteq> NULL"
    and area: "area_ok buf (unat cnt)" "areas_apart b1 (bpc (volume_of filp s)) buf (unat cnt)"
      "areas_apart b2 (bpc (volume_of filp s)) buf (unat cnt)"
  shows "\<exists>s'. FAT32_write filp buf cnt 0 s = Some (cnt, cnt, s') \<and>
     (\<forall>i. i < unat cnt \<and> i < 512 \<longrightarrow> img s' 0 i = vmem s (buf + word_of_nat i))"
proof -
  define f where "f = volume_of filp s"
  define ip where "ip = inode_of filp s"
  define fip where "fip = private_index_info (inodes s ip)"
  note folds = f_def [symmetric]
  have vol: "volume_ok f" using geo by (simp add: geometry_def f_def)
  note v = volume_bounds [OF vol]
  let ?s1 = "upd_finode fip (\<lambda>x. x\<lparr>first_cluster := ucast c\<rparr>) (s\<lparr>fresh := b2 # b3 # rest, live := b1 # live s\<rparr>)"
  have f1: "f = fsbis ?s1 (private_sb_info (supers ?s1 (i_sb (inodes ?s1 ip))))"
    by (simp add: f_def volume_of_def ip_def upd_finode_def)
  obtain m2 d2 where
    w1: "fat32_write_inode ip ?s1 = Some (?s1\<lparr>vmem := m2, img := d2, fresh := b3 # rest\<rparr>)" and
    m2: "\<forall>x. \<not> in_area b2 (bpc f) x \<longrightarrow> m2 x = vmem s x" and
    d2: "\<forall>sec. unat sec < unat (Data_firstsector f) \<longrightarrow> d2 sec = img s sec"
    using write_inode_frame [OF geo [folded f_def] f1 _ loc(2) [folded f_def], of b2 "b3 # rest"] loc(1,3) fresh
    by (auto simp: upd_finode_def fip_def ip_def finode_of_def f_def)
  let ?d3 = "write_FAT_Entry f c 0x0ffffff8 d2"
  let ?s3 = "?s1\<lparr>vmem := m2, fresh := b3 # rest, img := ?d3\<rparr>"
  let ?m4 = "movs (unat cnt) buf b1 m2"
  let ?d4 = "ide_write 0 (sector_per_cluster f) b1 ?m4 ?d3"
  let ?s4 = "?s1\<lparr>vmem := ?m4, fresh := b3 # rest, img := ?d4\<rparr>"
  have cnt32: "unat cnt < 2 ^ 31" using cnt(2) v by (simp add: f_def)
  then have idx: "unat (ucast cnt :: u32) = unat cnt" by (simp add: unsigned_ucast_eq take_bit_nat_eq_self)
  then have sc: "scast (ucast cnt :: u32) = cnt" using scast_small [of "ucast cnt"] cnt32 by simp
  have pc: "piece f (ucast cnt) 0 = ucast cnt"
    using piece_small [OF vol, of 0 "ucast cnt"] v cnt cnt32 idx by (simp add: word_unat_eq_iff f_def)
  have "apart (unat cnt) b1 buf"
    using areas_apart_apart [OF area(2), of 0 "unat cnt"] cnt v by (simp add: f_def)
  then have "apart (unat cnt) buf b1" by (rule apart_swap)
  then have ci: "copy_in_piece buf b1 (ucast cnt) ?s3 = ?s1\<lparr>vmem := ?m4, fresh := b3 # rest, img := ?d3\<rparr>"
    using copy_in_mem [of buf "ucast cnt" b1 ?s3] area(1) cnt32 by (simp add: idx)
  have loop: "FAT32_write_loop f b1 True 0 (ucast c) (ucast cnt) 0 buf 0 ?s3 = Some (Written, cnt, ?s4)"
    by (subst FAT32_write_loop.simps) (simp add: Let_def pc ci sc)
  let ?s5 = "upd_inode ip (\<lambda>x. x\<lparr>file_size := cnt\<rparr>) ?s4"
  have f5: "f = fsbis ?s5 (private_sb_info (supers ?s5 (i_sb (inodes ?s5 ip))))"
    by (simp add: f_def volume_of_def ip_def upd_finode_def upd_inode_def)
  obtain m6 d6 where
    w2: "fat32_write_inode ip ?s5 = Some (?s5\<lparr>vmem := m6, img := d6, fresh := rest\<rparr>)" and
    d6: "\<forall>sec. unat sec < unat (Data_firstsector f) \<longrightarrow> d6 sec = ?d4 sec"
    using write_inode_frame [OF geo [folded f_def] f5 _ loc(2) [folded f_def], of b3 rest] loc(1,3) fresh
    by (auto simp: upd_finode_def upd_inode_def fip_def ip_def finode_of_def f_def)
  have nz: "bytes_per_cluster f \<noteq> 0" "(ucast c :: u64) \<noteq> 0"
    using v free(2) by (auto simp: word_unat_eq_iff)
  have lm: "long_mod 0 (bytes_per_cluster f) = 0" by (simp add: long_mod_def)
  have gt: "0 < cnt" using cnt(1) by (simp add: word_less_nat_alt)
  have g: "get_nonnull s = Some (b1, s\<lparr>fresh := b2 # b3 # rest, live := b1 # live s\<rparr>)"
    using get_nonnull_Cons [OF fresh(1,2)] .
  have w: "FAT32_write filp buf cnt 0 s = Some (cnt, cnt, put_object b1 (?s5\<lparr>vmem := m6, img := d6, fresh := rest\<rparr>))"
  proof (rule FAT32_write_unfold_empty [OF fresh(1,2) _ empty(1) free(1) nz(2) ip_def fip_def w1 _ _ w2])
    show "bytes_per_cluster (volume_of filp s) \<noteq> 0" using nz(1) by (simp add: f_def)
    show "FAT32_write_loop (volume_of filp s) b1 True 0 (ucast c) (ucast cnt)
        (long_mod 0 (bytes_per_cluster (volume_of filp s))) buf 0
        (?s1\<lparr>vmem := m2, img := d2, fresh := b3 # rest\<rparr>\<lparr>img := write_FAT_Entry (volume_of filp s) (ucast (ucast c :: u64)) 0x0ffffff8
           (img (?s1\<lparr>vmem := m2, img := d2, fresh := b3 # rest\<rparr>))\<rparr>) = Some (Written, cnt, ?s4)"
      using loop by (simp add: folds lm)
    show "file_size (inodes ?s4 ip) < cnt" using gt empty(2) by (simp add: upd_finode_def size_of_def ip_def)
  qed
  have D: "0 < unat (Data_firstsector f)" using geo fat by (simp add: geometry_def f_def)
  have "d6 0 i = vmem s (buf + word_of_nat i)" if i: "i < unat cnt" "i < 512" for i
  proof -
    have u: "unat (word_of_nat i :: u64) = i" using i by (intro unat_of_nat_small) simp
    have "in_area buf (unat cnt) (buf + word_of_nat i)" using i cnt32 by (intro in_area_start) simp_all
    then have "m2 (buf + word_of_nat i) = vmem s (buf + word_of_nat i)"
      using m2 area(3) by (auto simp: areas_apart_def f_def)
    moreover have "d6 0 i = ?m4 (b1 + word_of_nat i)"
      using d6 D vol i by (simp add: ide_write_def volume_ok_def)
    ultimately show ?thesis using i u by (simp add: movs_apply)
  qed
  then show ?thesis using w by (auto simp: put_object_def)
qed

definition demo_empty :: vfs where
  "demo_empty = demo_vfs\<lparr>finodes := (\<lambda>_. (finodes demo_vfs 0)\<lparr>first_cluster := 0\<rparr>),
     inodes := (\<lambda>_. (inodes demo_vfs 0)\<lparr>file_size := 0\<rparr>), fresh := [0x10000, 0x11000, 0x12000]\<rparr>"

lemma demo_find: "find_available_cluster demo_fsbi demo_image = ucast (4 :: u32)"
proof -
  have "free_in_sector (demo_image 10) = Some 4"
    unfolding free_in_sector_def find_Some_iff
  proof (intro exI [of _ 4] conjI allI impI)
    fix j :: nat
    assume "j < 4"
    then consider "j = 0" | "j = 1" | "j = 2" | "j = 3" by linarith
    then show "sector_word (demo_image 10) ([0..<128] ! j) AND 0x0fffffff \<noteq> 0"
      by cases (simp_all add: sector_word_def demo_image_def upt_rec [of 0 4] upt_rec [of _ "4 :: nat"])
  qed (simp_all add: sector_word_def demo_image_def upt_rec [of _ "4 :: nat"])
  then show ?thesis by (simp add: find_available_cluster_def demo_fsbi_def)
qed

theorem FAT32_write_empty_file_witness:
  "\<exists>s'. FAT32_write 0x10 0x20000 4 0 demo_empty = Some (4, 4, s') \<and> img s' 0 3 = 3"
proof -
  have d: "volume_of 0x10 demo_empty = demo_fsbi" "size_of 0x10 demo_empty = 0" "img demo_empty = demo_image"
    "first_cluster (finode_of 0x10 demo_empty) = 0" "dentry_location (finode_of 0x10 demo_empty) = ucast (5 :: u32)"
    "dentry_position (finode_of 0x10 demo_empty) = 1" "fresh demo_empty = [0x10000, 0x11000, 0x12000]"
    "vmem demo_empty = (\<lambda>a. ucast a)"
    by (simp_all add: volume_of_def size_of_def finode_of_def demo_empty_def demo_vfs_def)
  have a: "areas_apart 0x10000 (bpc (volume_of 0x10 demo_empty)) 0x20000 (unat (4 :: u64))"
    "areas_apart 0x11000 (bpc (volume_of 0x10 demo_empty)) 0x20000 (unat (4 :: u64))"
    unfolding d demo_clusters(2) by (rule areas_apart_nat; simp)+
  have o: "area_ok 0x20000 (unat (4 :: u64))" by (simp add: area_ok_def TASK_SIZE_def)
  have g: "geometry (volume_of 0x10 demo_empty)"
    "find_available_cluster (volume_of 0x10 demo_empty) (img demo_empty) = ucast (4 :: u32)"
    "entry_ok (volume_of 0x10 demo_empty) 4" "cluster_ok (volume_of 0x10 demo_empty) 5"
    "0 < unat (FAT1_firstsector (volume_of 0x10 demo_empty))"
    "32 * unat (dentry_position (finode_of 0x10 demo_empty)) + 32 \<le> bpc (volume_of 0x10 demo_empty)"
    "unat (4 :: u64) \<le> bpc (volume_of 0x10 demo_empty)"
    unfolding d using demo_clusters demo_find demo_entry_ok [of 4] by (simp_all add: cluster_ok_def demo_fsbi_def)
  obtain s' where "FAT32_write 0x10 0x20000 4 0 demo_empty = Some (4, 4, s')"
    "\<forall>i. i < unat (4 :: u64) \<and> i < 512 \<longrightarrow> img s' 0 i = vmem demo_empty (0x20000 + word_of_nat i)"
    using FAT32_write_empty_file [OF g(1) d(4,2) g(2) _ g(3,5) d(5) g(4,6) _ g(7) d(7) _ _ _ o a] by auto
  from this(1) this(2) [rule_format, of 3] show ?thesis by (simp add: d(8))
qed

end
