(* ===== verification/Fat32_Dir.thy ===== *)
theory Fat32_Dir
  imports Fat32_File
begin

unbundle bit_operations_syntax

text \<open>
  Directories and the mounting of a volume, \<open>src/fat32.c\<close>: reading the next entry, looking up a
  name, the super block and the first partition.  A cluster of a directory is an array of 32-byte
  entries in the buffer.  An entry is a short entry or, with the attribute of a long name, a fragment
  of 13 characters of the name of the short entry that follows; the fragments stand in reverse
  order before it.  The code steps backwards through them from the address of the short entry, also
  past the start of the buffer.
\<close>

section \<open>Directory entries\<close>

definition ATTR_DIRECTORY :: u8 where "ATTR_DIRECTORY = 0x10"
definition ATTR_LONG_NAME :: u8 where "ATTR_LONG_NAME = 0x0f"
definition LOWERCASE_BASE :: u8 where "LOWERCASE_BASE = 8"
definition LOWERCASE_EXT :: u8 where "LOWERCASE_EXT = 16"

definition DIR_Name :: "addr \<Rightarrow> nat \<Rightarrow> mem \<Rightarrow> u8" where "DIR_Name e x m = m (e + word_of_nat x)"
definition DIR_Attr :: "addr \<Rightarrow> mem \<Rightarrow> u8" where "DIR_Attr e m = m (e + 11)"
definition DIR_NTRes :: "addr \<Rightarrow> mem \<Rightarrow> u8" where "DIR_NTRes e m = m (e + 12)"
definition DIR_CrtTime :: "addr \<Rightarrow> mem \<Rightarrow> u16" where "DIR_CrtTime e m = ucast (load_le 2 (e + 14) m)"
definition DIR_CrtDate :: "addr \<Rightarrow> mem \<Rightarrow> u16" where "DIR_CrtDate e m = ucast (load_le 2 (e + 16) m)"
definition DIR_FstClusHI :: "addr \<Rightarrow> mem \<Rightarrow> u16" where "DIR_FstClusHI e m = ucast (load_le 2 (e + 20) m)"
definition DIR_WrtTime :: "addr \<Rightarrow> mem \<Rightarrow> u16" where "DIR_WrtTime e m = ucast (load_le 2 (e + 22) m)"
definition DIR_WrtDate :: "addr \<Rightarrow> mem \<Rightarrow> u16" where "DIR_WrtDate e m = ucast (load_le 2 (e + 24) m)"
definition DIR_FstClusLO :: "addr \<Rightarrow> mem \<Rightarrow> u16" where "DIR_FstClusLO e m = ucast (load_le 2 (e + 26) m)"
definition DIR_FileSize :: "addr \<Rightarrow> mem \<Rightarrow> u32" where "DIR_FileSize e m = ucast (load_le 4 (e + 28) m)"

definition LDIR_Ord :: "addr \<Rightarrow> mem \<Rightarrow> u8" where "LDIR_Ord e m = m e"
definition LDIR_Attr :: "addr \<Rightarrow> mem \<Rightarrow> u8" where "LDIR_Attr e m = m (e + 11)"

text \<open>The 13 characters of a fragment: five at offset 1, six at 14, two at 28.\<close>

definition LDIR_chars :: "addr \<Rightarrow> mem \<Rightarrow> u16 list" where
  "LDIR_chars e m = map (\<lambda>k. ucast (load_le 2 (e + k) m)) [1, 3, 5, 7, 9, 14, 16, 18, 20, 22, 24, 28, 30]"

definition deleted :: "u8 \<Rightarrow> bool" where
  "deleted b \<longleftrightarrow> b = 0xe5 \<or> b = 0x00 \<or> b = 0x05"

text \<open>Entries that both loops over a directory skip.\<close>

definition skipped :: "addr \<Rightarrow> mem \<Rightarrow> bool" where
  "skipped e m \<longleftrightarrow> DIR_Attr e m = ATTR_LONG_NAME \<or> deleted (DIR_Name e 0 m)"

section \<open>Comparing a long name\<close>

text \<open>The C compiler's \<open>name[j]\<close> is a signed character, converted to \<open>unsigned short\<close>.
  \<open>j\<close> runs one position past the end of the name, so the terminating zero takes part.\<close>

definition name_char :: "addr \<Rightarrow> u32 \<Rightarrow> mem \<Rightarrow> u8" where
  "name_char name j m = m (name + scast j)"

fun long_cmp :: "addr \<Rightarrow> u32 \<Rightarrow> mem \<Rightarrow> u32 \<Rightarrow> u16 list \<Rightarrow> u32 option" where
  "long_cmp name len m j [] = Some j"
| "long_cmp name len m j (c # cs) =
     (if sint j > sint len \<and> c = 0xffff then long_cmp name len m j cs
      else if sint j > sint len \<or> c \<noteq> scast (name_char name j m) then None
      else long_cmp name len m (j + 1) cs)"

datatype cmp = Match | Mismatch | No_long_name

partial_function (option) long_loop :: "addr \<Rightarrow> u32 \<Rightarrow> mem \<Rightarrow> u32 \<Rightarrow> addr \<Rightarrow> cmp option" where
  "long_loop name len m j e =
     (if LDIR_Attr e m = ATTR_LONG_NAME \<and> LDIR_Ord e m \<noteq> 0xe5
      then case long_cmp name len m j (LDIR_chars e m) of
          None \<Rightarrow> Some Mismatch
        | Some j \<Rightarrow> if sint j \<ge> sint len then Some Match else long_loop name len m j (e - 32)
      else Some No_long_name)"

section \<open>Comparing a short name\<close>

definition is_letter :: "u8 \<Rightarrow> bool" where
  "is_letter c \<longleftrightarrow> 0x41 \<le> c \<and> c \<le> 0x5a \<or> 0x61 \<le> c \<and> c \<le> 0x7a"

definition is_decimal :: "u8 \<Rightarrow> bool" where
  "is_decimal c \<longleftrightarrow> 0x30 \<le> c \<and> c \<le> 0x39"

text \<open>\<open>DIR_Name[x] == name[j]\<close> compares an unsigned with a signed character as \<open>int\<close>s, and
  \<open>DIR_Name[x] + 32\<close> does not wrap.\<close>

definition same_char :: "u8 \<Rightarrow> u8 \<Rightarrow> bool" where
  "same_char c d \<longleftrightarrow> uint c = sint d"

definition same_lower :: "u8 \<Rightarrow> u8 \<Rightarrow> bool" where
  "same_lower c d \<longleftrightarrow> uint c + 32 = sint d"

definition base_step :: "addr \<Rightarrow> addr \<Rightarrow> u32 \<Rightarrow> mem \<Rightarrow> nat \<Rightarrow> u32 \<Rightarrow> u32 option" where
  "base_step e name len m x j =
     (let c = DIR_Name e x m; d = name_char name j m; inside = (sint j < sint len)
      in if c = 0x20 then
           (if DIR_Attr e m AND ATTR_DIRECTORY = 0 then
              (if d = 0x2e then Some j else if same_char c d then Some (j + 1) else None)
            else
              (if inside \<and> same_char c d then Some (j + 1) else if j = len then Some j else None))
         else if is_letter c then
           (if DIR_NTRes e m AND LOWERCASE_BASE \<noteq> 0
            then (if inside \<and> same_lower c d then Some (j + 1) else None)
            else (if inside \<and> same_char c d then Some (j + 1) else None))
         else if is_decimal c then (if inside \<and> same_char c d then Some (j + 1) else None)
         else Some (j + 1))"

definition ext_step :: "addr \<Rightarrow> addr \<Rightarrow> mem \<Rightarrow> nat \<Rightarrow> u32 \<Rightarrow> u32 option" where
  "ext_step e name m x j =
     (let c = DIR_Name e x m; d = name_char name j m
      in if is_letter c then
           (if DIR_NTRes e m AND LOWERCASE_EXT \<noteq> 0
            then (if same_lower c d then Some (j + 1) else None)
            else (if same_char c d then Some (j + 1) else None))
         else if is_decimal c then (if same_char c d then Some (j + 1) else None)
         else if c = 0x20 then (if same_char c d then Some (j + 1) else None)
         else None)"

fun cmp_steps :: "(nat \<Rightarrow> u32 \<Rightarrow> u32 option) \<Rightarrow> nat list \<Rightarrow> u32 \<Rightarrow> u32 option" where
  "cmp_steps f [] j = Some j"
| "cmp_steps f (x # xs) j = do { j \<leftarrow> f x j; cmp_steps f xs j }"

definition short_cmp :: "addr \<Rightarrow> addr \<Rightarrow> u32 \<Rightarrow> mem \<Rightarrow> bool" where
  "short_cmp e name len m =
     (case cmp_steps (base_step e name len m) [0..<8] 0 of
        None \<Rightarrow> False
      | Some j \<Rightarrow>
          DIR_Attr e m AND ATTR_DIRECTORY \<noteq> 0 \<or> cmp_steps (ext_step e name m) [8..<11] (j + 1) \<noteq> None)"

definition entry_matches :: "addr \<Rightarrow> addr \<Rightarrow> u32 \<Rightarrow> mem \<Rightarrow> bool option" where
  "entry_matches e name len m =
     (if skipped e m then Some False
      else do {
        r \<leftarrow> long_loop name len m 0 (e - 32);
        Some (case r of Match \<Rightarrow> True | Mismatch \<Rightarrow> False | No_long_name \<Rightarrow> short_cmp e name len m)
      })"

section \<open>Looking up a name\<close>

text \<open>The entries of the cluster in the buffer from byte \<open>i\<close> on, in steps of 32.\<close>

definition entries :: "FAT32_sb_info \<Rightarrow> addr \<Rightarrow> nat \<Rightarrow> addr list" where
  "entries fsbi buf i = map (\<lambda>k. buf + word_of_nat (i + 32 * k)) [0..<(nat (sint (bytes_per_cluster fsbi)) - i + 31) div 32]"

fun scan :: "(addr \<Rightarrow> bool option) \<Rightarrow> addr list \<Rightarrow> addr option option" where
  "scan f [] = Some None"
| "scan f (e # es) = do { b \<leftarrow> f e; if b then Some (Some e) else scan f es }"

definition load_cluster :: "FAT32_sb_info \<Rightarrow> addr \<Rightarrow> u32 \<Rightarrow> vfs \<Rightarrow> vfs" where
  "load_cluster fsbi buf cluster s =
     (let sector = Data_firstsector fsbi + ucast (cluster - 2) * sector_per_cluster fsbi
      in s\<lparr>vmem := ide_read sector (sector_per_cluster fsbi) buf (img s) (vmem s)\<rparr>)"

partial_function (option) lookup_loop ::
    "FAT32_sb_info \<Rightarrow> addr \<Rightarrow> u32 \<Rightarrow> addr \<Rightarrow> u32 \<Rightarrow> vfs \<Rightarrow> ((addr \<times> u32) option \<times> vfs) option" where
  "lookup_loop fsbi name len buf cluster s =
     (let s = load_cluster fsbi buf cluster s
      in Option.bind (scan (\<lambda>e. entry_matches e name len (vmem s)) (entries fsbi buf 0))
        (\<lambda>r. case r of
            Some e \<Rightarrow> Some (Some (e, cluster), s)
          | None \<Rightarrow>
              let cluster = read_FAT_Entry fsbi cluster (img s)
              in if cluster < 0x0ffffff7 then lookup_loop fsbi name len buf cluster s else Some (None, s)))"

definition new_inode :: "addr \<Rightarrow> FAT32_sb_info \<Rightarrow> addr \<Rightarrow> addr \<Rightarrow> mem \<Rightarrow> index_node" where
  "new_inode sb fsbi finode e m =
     (let attr = (if DIR_Attr e m AND ATTR_DIRECTORY \<noteq> 0 then FS_ATTR_DIR else FS_ATTR_FILE);
          fsize = ucast (DIR_FileSize e m)
      in \<lparr>file_size = fsize, blocks = (fsize + bytes_per_cluster fsbi - 1) div bytes_per_sector fsbi,
          attribute = (if drop_bit 12 (DIR_FstClusHI e m) \<noteq> 0 \<and> attr AND FS_ATTR_FILE \<noteq> 0
                       then attr OR FS_ATTR_DEVICE else attr),
          i_sb = sb, i_f_ops = FAT32_file_ops, inode_ops = FAT32_inode_ops, private_index_info = finode\<rparr>)"

definition new_finode :: "addr \<Rightarrow> u32 \<Rightarrow> addr \<Rightarrow> mem \<Rightarrow> FAT32_inode_info" where
  "new_finode buf cluster e m =
     \<lparr>first_cluster = ucast ((push_bit 16 (ucast (DIR_FstClusHI e m)) OR ucast (DIR_FstClusLO e m) :: u32) AND 0x0fffffff),
      dentry_location = ucast cluster, dentry_position = (e - buf) div 32,
      create_date = DIR_CrtTime e m, create_time = DIR_CrtDate e m,
      write_date = DIR_WrtTime e m, write_time = DIR_WrtDate e m\<rparr>"

definition FAT32_lookup :: "addr \<Rightarrow> addr \<Rightarrow> vfs \<Rightarrow> (addr \<times> vfs) option" where
  "FAT32_lookup parent_inode dest_dentry s =
     (let finode = finodes s (private_index_info (inodes s parent_inode));
          sb = i_sb (inodes s parent_inode);
          fsbi = fsbis s (private_sb_info (supers s sb));
          d = dentries s dest_dentry
      in do {
        (buf, s) \<leftarrow> get_nonnull s;
        (r, s) \<leftarrow> lookup_loop fsbi (d_name d) (name_length d) buf (ucast (first_cluster finode)) s;
        case r of
          None \<Rightarrow> Some (NULL, put_object buf s)
        | Some (e, cluster) \<Rightarrow>
            if bytes_per_sector fsbi = 0 then None else do {
              (p, s) \<leftarrow> get_nonnull s;
              (q, s) \<leftarrow> get_nonnull s;
              let s = upd_inode p (\<lambda>_. new_inode sb fsbi q e (vmem s)) s;
              let s = upd_finode q (\<lambda>_. new_finode buf cluster e (vmem s)) s;
              let s = upd_dentry dest_dentry (\<lambda>d. d\<lparr>dir_inode := p\<rparr>) s;
              Some (dest_dentry, put_object buf s)
            }
      })"

section \<open>Reading the next entry\<close>

text \<open>The number of fragments before an entry, at least one when called.\<close>

definition is_fragment :: "addr \<Rightarrow> mem \<Rightarrow> bool" where
  "is_fragment e m \<longleftrightarrow> LDIR_Attr e m = ATTR_LONG_NAME \<and> \<not> deleted (LDIR_Ord e m)"

partial_function (option) count_fragments :: "mem \<Rightarrow> nat \<Rightarrow> addr \<Rightarrow> nat option" where
  "count_fragments m j e =
     (if is_fragment e m
      then if LDIR_Ord e m AND 0x40 \<noteq> 0 then Some (j + 1) else count_fragments m (j + 1) (e - 32)
      else Some j)"

definition long_name :: "addr \<Rightarrow> nat \<Rightarrow> mem \<Rightarrow> u8 list" where
  "long_name e j m =
     concat (map (\<lambda>x. map ucast (filter (\<lambda>c. c \<noteq> 0xffff \<and> c \<noteq> 0) (LDIR_chars (e - word_of_nat (32 * (x + 1))) m))) [0..<j])"

text \<open>The characters of a short name up to the first blank.  The dot is taken back when there is no
  extension.\<close>

definition short_part :: "addr \<Rightarrow> mem \<Rightarrow> u8 \<Rightarrow> nat list \<Rightarrow> u8 list" where
  "short_part e m flag xs =
     map (\<lambda>c. if DIR_NTRes e m AND flag \<noteq> 0 then c + 32 else c)
       (takeWhile (\<lambda>c. c \<noteq> 0x20) (map (\<lambda>x. DIR_Name e x m) xs))"

definition short_name :: "addr \<Rightarrow> mem \<Rightarrow> u8 list" where
  "short_name e m =
     (let base = short_part e m LOWERCASE_BASE [0..<8]; ext = short_part e m LOWERCASE_EXT [8..<11]
      in if DIR_Attr e m AND ATTR_DIRECTORY \<noteq> 0 then base
         else if ext = [] then base else base @ 0x2e # ext)"

fun store_list :: "addr \<Rightarrow> u8 list \<Rightarrow> mem \<Rightarrow> mem" where
  "store_list a [] m = m"
| "store_list a (b # bs) m = store_list (a + 1) bs (m(a := b))"

text \<open>The name goes to a buffer of its own, which is cleared first.\<close>

definition entry_name :: "addr \<Rightarrow> mem \<Rightarrow> (u8 list \<times> u64) option" where
  "entry_name e m =
     (if is_fragment (e - 32) m
      then do { j \<leftarrow> count_fragments m 0 (e - 32); Some (long_name e j m, word_of_nat (j * 13 + 1)) }
      else Some (short_name e m, 15))"

type_synonym filldir = "addr \<Rightarrow> addr \<Rightarrow> u64 \<Rightarrow> u64 \<Rightarrow> u64 \<Rightarrow> mem \<Rightarrow> u64 \<times> mem"

text \<open>Skipped entries advance the position; the entry found does so after the loop.\<close>

definition next_entry :: "FAT32_sb_info \<Rightarrow> addr \<Rightarrow> u64 \<Rightarrow> mem \<Rightarrow> addr option \<times> u64" where
  "next_entry fsbi buf pos m =
     (let es = entries fsbi buf (unat (long_mod pos (bytes_per_cluster fsbi)));
          k = length (takeWhile (\<lambda>e. skipped e m) es)
      in (if k < length es then Some (es ! k) else None, pos + 32 * word_of_nat k))"

partial_function (option) readdir_loop ::
    "FAT32_sb_info \<Rightarrow> addr \<Rightarrow> u32 \<Rightarrow> u64 \<Rightarrow> vfs \<Rightarrow> (addr option \<times> u64 \<times> vfs) option" where
  "readdir_loop fsbi buf cluster pos s =
     (let s = load_cluster fsbi buf cluster s
      in case next_entry fsbi buf pos (vmem s) of
          (Some e, pos) \<Rightarrow> Some (Some e, pos, s)
        | (None, pos) \<Rightarrow>
            let cluster = read_FAT_Entry fsbi cluster (img s)
            in if cluster < 0x0ffffff7 then readdir_loop fsbi buf cluster pos s else Some (None, pos, s))"

fun readdir_seek :: "FAT32_sb_info \<Rightarrow> image \<Rightarrow> nat \<Rightarrow> u32 \<Rightarrow> u32 option" where
  "readdir_seek fsbi d 0 cluster = Some cluster"
| "readdir_seek fsbi d (Suc n) cluster =
     (let cluster = read_FAT_Entry fsbi cluster d
      in if cluster > 0x0ffffff7 then None else readdir_seek fsbi d n cluster)"

definition FAT32_readdir :: "addr \<Rightarrow> addr \<Rightarrow> filldir \<Rightarrow> vfs \<Rightarrow> (u64 \<times> vfs) option" where
  "FAT32_readdir filp dirent filler s =
     (let ip = inode_of filp s;
          finode = finodes s (private_index_info (inodes s ip));
          fsbi = fsbis s (private_sb_info (supers s (i_sb (inodes s ip))));
          pos = f_position (files s filp)
      in if bytes_per_cluster fsbi = 0 then None else do {
        (buf, s) \<leftarrow> get_nonnull s;
        case readdir_seek fsbi (img s) (nat (sint (ucast (long_div pos (bytes_per_cluster fsbi)) :: u32)))
               (ucast (first_cluster finode)) of
          None \<Rightarrow> Some (0, s)
        | Some cluster \<Rightarrow> do {
            (r, pos, s) \<leftarrow> readdir_loop fsbi buf cluster pos s;
            let s = upd_file filp (\<lambda>f. f\<lparr>f_position := pos\<rparr>) s;
            case r of
              None \<Rightarrow> Some (0, put_object buf s)
            | Some e \<Rightarrow> do {
                (bs, n) \<leftarrow> entry_name e (vmem s);
                (name, s) \<leftarrow> get_nonnull s;
                let m = store_list name bs (snd (memset name 0 n (vmem s)));
                let s = upd_file filp (\<lambda>f. f\<lparr>f_position := f_position f + 32\<rparr>) s;
                let (r, m) = filler dirent name (word_of_nat (length bs)) 0 0 m;
                Some (r, s\<lparr>vmem := m\<rparr>)
              }
          }
      })"

section \<open>Mounting and unmounting\<close>

definition BPB :: "nat \<Rightarrow> u64 \<Rightarrow> addr \<Rightarrow> mem \<Rightarrow> u32" where
  "BPB k offset buf m = ucast (load_le k (buf + offset) m)"

definition BPB_BytesPerSec :: "addr \<Rightarrow> mem \<Rightarrow> u32" where "BPB_BytesPerSec = BPB 2 11"
definition BPB_SecPerClus :: "addr \<Rightarrow> mem \<Rightarrow> u32" where "BPB_SecPerClus = BPB 1 13"
definition BPB_RsvdSecCnt :: "addr \<Rightarrow> mem \<Rightarrow> u32" where "BPB_RsvdSecCnt = BPB 2 14"
definition BPB_NumFATs :: "addr \<Rightarrow> mem \<Rightarrow> u32" where "BPB_NumFATs = BPB 1 16"
definition BPB_FATSz32 :: "addr \<Rightarrow> mem \<Rightarrow> u32" where "BPB_FATSz32 = BPB 4 36"
definition BPB_RootClus :: "addr \<Rightarrow> mem \<Rightarrow> u32" where "BPB_RootClus = BPB 4 44"
definition BPB_FSInfo :: "addr \<Rightarrow> mem \<Rightarrow> u32" where "BPB_FSInfo = BPB 2 48"
definition BPB_BkBootSec :: "addr \<Rightarrow> mem \<Rightarrow> u32" where "BPB_BkBootSec = BPB 2 50"

text \<open>The sums and products of sector numbers are 32-bit; they are converted afterwards.  A partition
  is its first sector and its length.\<close>

record partition_entry =
  start_LBA :: u32
  sectors_limit :: u32

definition boot_parameters :: "partition_entry \<Rightarrow> addr \<Rightarrow> addr \<Rightarrow> mem \<Rightarrow> FAT32_sb_info" where
  "boot_parameters dpte fsinfo buf m =
     \<lparr>start_sector = ucast (start_LBA dpte), sector_count = ucast (sectors_limit dpte),
      sector_per_cluster = ucast (BPB_SecPerClus buf m),
      bytes_per_cluster = scast (BPB_SecPerClus buf m * BPB_BytesPerSec buf m),
      bytes_per_sector = ucast (BPB_BytesPerSec buf m),
      Data_firstsector = ucast (start_LBA dpte + BPB_RsvdSecCnt buf m + BPB_FATSz32 buf m * BPB_NumFATs buf m),
      FAT1_firstsector = ucast (start_LBA dpte + BPB_RsvdSecCnt buf m),
      sector_per_FAT = ucast (BPB_FATSz32 buf m), NumFATs = ucast (BPB_NumFATs buf m),
      fsinfo_sector_infat = ucast (BPB_FSInfo buf m), bootsector_bk_infat = ucast (BPB_BkBootSec buf m),
      fat_fsinfo = fsinfo\<rparr>"

text \<open>The objects in the order they are allocated: super block, volume, FSInfo sector, root entry, its
  name, its inode and the file system part of the inode.\<close>

definition fat32_read_superblock :: "partition_entry \<Rightarrow> addr \<Rightarrow> vfs \<Rightarrow> (addr \<times> vfs) option" where
  "fat32_read_superblock dpte buf s = do {
     (sbp, s) \<leftarrow> get_nonnull s;
     (vol, s) \<leftarrow> get_nonnull s;
     (info, s) \<leftarrow> get_nonnull s;
     let fsbi = boot_parameters dpte info buf (vmem s);
     let m = snd (memset info 0 512 (vmem s));
     let m = ide_read (ucast (start_LBA dpte + BPB_FSInfo buf (vmem s))) 1 info (img s) m;
     let s = s\<lparr>vmem := m, fsbis := (fsbis s)(vol := fsbi)\<rparr>;
     (root, s) \<leftarrow> get_nonnull s;
     let s = s\<lparr>vlnk := list_init (list_init (vlnk s) (child_node root)) (subdirs_list root)\<rparr>;
     (name, s) \<leftarrow> get_nonnull s;
     let s = s\<lparr>vmem := (vmem s)(name := 0x2f)\<rparr>;
     (ip, s) \<leftarrow> get_nonnull s;
     let s = upd_dentry root (\<lambda>_. \<lparr>d_name = name, name_length = 1, dir_inode = ip, d_parent = root\<rparr>) s;
     if bytes_per_sector fsbi = 0 then None else do {
       (fip, s) \<leftarrow> get_nonnull s;
       let s = upd_inode ip (\<lambda>_. \<lparr>file_size = 0, blocks = (bytes_per_cluster fsbi - 1) div bytes_per_sector fsbi,
         attribute = FS_ATTR_DIR, i_sb = sbp, i_f_ops = FAT32_file_ops, inode_ops = FAT32_inode_ops,
         private_index_info = fip\<rparr>) s;
       let s = upd_finode fip (\<lambda>_. \<lparr>first_cluster = ucast (BPB_RootClus buf (vmem s)), dentry_location = 0, dentry_position = 0,
         create_date = 0, create_time = 0, write_date = 0, write_time = 0\<rparr>) s;
       Some (sbp, s\<lparr>supers := (supers s)(sbp := \<lparr>sb_root = root, private_sb_info = vol\<rparr>)\<rparr>)
     }
   }"

definition fat32_put_superblock :: "addr \<Rightarrow> vfs \<Rightarrow> vfs" where
  "fat32_put_superblock sb s =
     (let root = sb_root (supers s sb); ip = dir_inode (dentries s root);
          s = put_object (private_sb_info (supers s sb)) s;
          s = put_object (private_index_info (inodes s ip)) s;
          s = put_object ip s;
          s = put_object root s
      in put_object sb s)"

section \<open>Runs of a comparison\<close>

lemma cmp_steps_append: "cmp_steps f (xs @ ys) j = Option.bind (cmp_steps f xs j) (cmp_steps f ys)"
proof (induction xs arbitrary: j)
  case (Cons a xs)
  then show ?case by (cases "f a j") simp_all
qed simp

lemma cmp_steps_run:
  "(\<And>i. a \<le> i \<Longrightarrow> i < b \<Longrightarrow> f i (g i) = Some (g (Suc i))) \<Longrightarrow> a \<le> b \<Longrightarrow> cmp_steps f [a..<b] (g a) = Some (g b)"
proof (induction "b - a" arbitrary: a)
  case (Suc n)
  then have "[a..<b] = a # [Suc a..<b]" by (simp add: upt_conv_Cons)
  with Suc show ?case by simp
qed simp

text \<open>An upper case letter, or a digit when the lower case flag is clear: the characters \<open>readdir\<close>
  and \<open>lookup\<close> treat alike.\<close>

definition plain_char :: "u8 \<Rightarrow> u8 \<Rightarrow> bool" where
  "plain_char flags c \<longleftrightarrow> 0x41 \<le> c \<and> c \<le> 0x5a \<or> is_decimal c \<and> flags = 0"

definition shown :: "u8 \<Rightarrow> u8 \<Rightarrow> u8" where
  "shown flags c = (if flags \<noteq> 0 then c + 32 else c)"

lemma plain_char_cases:
  assumes "plain_char flags c"
  shows "c \<noteq> 0x20" and "is_letter c \<or> is_decimal c"
    and "flags = 0 \<Longrightarrow> same_char c (shown flags c)"
    and "flags \<noteq> 0 \<Longrightarrow> is_letter c \<and> same_lower c (shown flags c)"
proof -
  have c: "unat c < 2 ^ 7" and l: "flags \<noteq> 0 \<Longrightarrow> 0x41 \<le> unat c \<and> unat c \<le> 0x5a"
    using assms by (auto simp: plain_char_def is_decimal_def word_le_nat_alt)
  show "c \<noteq> 0x20" using assms by (auto simp: plain_char_def is_decimal_def word_le_nat_alt)
  show "is_letter c \<or> is_decimal c" using assms by (auto simp: plain_char_def is_letter_def)
  show "flags = 0 \<Longrightarrow> same_char c (shown flags c)"
    using sint_small_8 [OF c] by (simp add: same_char_def shown_def)
  show "is_letter c \<and> same_lower c (shown flags c)" if f: "flags \<noteq> 0"
  proof -
    have u: "unat (c + 32) = unat c + 32" using l [OF f] by (simp add: unat_word_ariths)
    then have "sint (c + 32) = int (unat (c + 32))" using l [OF f] by (intro sint_small_8) simp
    then have "same_lower c (c + 32)" unfolding same_lower_def u by simp
    moreover have "is_letter c" using assms f by (auto simp: plain_char_def is_letter_def)
    ultimately show ?thesis using f by (simp add: shown_def)
  qed
qed

lemma takeWhile_padded:
  assumes "k \<le> n" and "\<forall>x < k. f x \<noteq> c" and "\<forall>x. k \<le> x \<and> x < n \<longrightarrow> f x = c"
  shows "takeWhile (\<lambda>y. y \<noteq> c) (map f [0..<n]) = map f [0..<k]"
proof (cases "k = n")
  case True
  then show ?thesis using assms(2) by (auto simp: takeWhile_eq_all_conv)
next
  case False
  then have "[0..<n] = [0..<k] @ k # [Suc k..<n]"
    using assms(1) by (metis le_neq_implies_less le_add_diff_inverse upt_add_eq_append upt_conv_Cons zero_le)
  moreover have "f k = c" using False assms(1,3) by simp
  ultimately show ?thesis
    using assms(2) by (subst \<open>[0..<n] = _\<close>, subst map_append, subst takeWhile_append2) auto
qed

text \<open>A short entry with \<open>k\<close> base and \<open>l\<close> extension characters, padded with blanks.\<close>

definition short_entry :: "addr \<Rightarrow> nat \<Rightarrow> nat \<Rightarrow> mem \<Rightarrow> bool" where
  "short_entry e k l m \<longleftrightarrow> 0 < k \<and> k \<le> 8 \<and> l \<le> 3 \<and>
     (\<forall>x < k. plain_char (DIR_NTRes e m AND LOWERCASE_BASE) (DIR_Name e x m)) \<and>
     (\<forall>x. k \<le> x \<and> x < 8 \<longrightarrow> DIR_Name e x m = 0x20) \<and>
     (\<forall>x < l. plain_char (DIR_NTRes e m AND LOWERCASE_EXT) (DIR_Name e (8 + x) m)) \<and>
     (\<forall>x. l \<le> x \<and> x < 3 \<longrightarrow> DIR_Name e (8 + x) m = 0x20)"

definition base_char :: "addr \<Rightarrow> mem \<Rightarrow> nat \<Rightarrow> u8" where
  "base_char e m x = shown (DIR_NTRes e m AND LOWERCASE_BASE) (DIR_Name e x m)"

definition ext_char :: "addr \<Rightarrow> mem \<Rightarrow> nat \<Rightarrow> u8" where
  "ext_char e m x = shown (DIR_NTRes e m AND LOWERCASE_EXT) (DIR_Name e (8 + x) m)"

lemma short_name_eq:
  assumes "short_entry e k l m"
  shows "short_name e m = map (base_char e m) [0..<k] @
     (if DIR_Attr e m AND ATTR_DIRECTORY \<noteq> 0 \<or> l = 0 then [] else 0x2e # map (ext_char e m) [0..<l])"
proof -
  have b: "takeWhile (\<lambda>c. c \<noteq> 0x20) (map (\<lambda>x. DIR_Name e x m) [0..<8]) = map (\<lambda>x. DIR_Name e x m) [0..<k]"
    using assms plain_char_cases(1) by (intro takeWhile_padded) (auto simp: short_entry_def)
  have s: "map (\<lambda>x. DIR_Name e x m) [8..<11] = map (\<lambda>x. DIR_Name e (8 + x) m) [0..<3]"
    by (simp add: upt_rec)
  have x: "takeWhile (\<lambda>c. c \<noteq> 0x20) (map (\<lambda>x. DIR_Name e (8 + x) m) [0..<3]) = map (\<lambda>x. DIR_Name e (8 + x) m) [0..<l]"
    using assms plain_char_cases(1) by (intro takeWhile_padded) (auto simp: short_entry_def)
  have "short_part e m LOWERCASE_BASE [0..<8] = map (base_char e m) [0..<k]"
    unfolding short_part_def b by (simp add: base_char_def shown_def comp_def cong: map_cong)
  moreover have "short_part e m LOWERCASE_EXT [8..<11] = map (ext_char e m) [0..<l]"
    unfolding short_part_def s x by (simp add: ext_char_def shown_def comp_def cong: map_cong)
  ultimately show ?thesis by (simp add: short_name_def Let_def)
qed

text \<open>A terminated name in memory.\<close>

definition name_at :: "addr \<Rightarrow> u8 list \<Rightarrow> mem \<Rightarrow> bool" where
  "name_at name bs m \<longleftrightarrow> (\<forall>i < length bs. m (name + word_of_nat i) = bs ! i) \<and>
     m (name + word_of_nat (length bs)) = 0"

lemma name_char_at:
  assumes "name_at name bs m" and "i \<le> length bs" and "i < 2 ^ 31"
  shows "name_char name (word_of_nat i) m = (bs @ [0]) ! i"
proof -
  have "unat (word_of_nat i :: u32) = i" using assms(3) by (simp add: unat_of_nat)
  then have "scast (word_of_nat i :: u32) = (word_of_nat i :: u64)" using assms(3) scast_small [of "word_of_nat i"] by simp
  then show ?thesis using assms(1,2) by (auto simp: name_char_def name_at_def nth_append)
qed

lemma sint_index: "i < 2 ^ 31 \<Longrightarrow> sint (word_of_nat i :: u32) = int i"
  by (subst sint_small_32) (simp_all add: unat_of_nat)

text \<open>The base matches itself; blanks keep the position while the dot (or, for a directory, the end
  of the name) has been reached; the extension matches itself.\<close>

lemma base_prefix:
  assumes se: "short_entry e k l m" and na: "name_at name bs m" and len: "sint len = int (length bs)"
    and pre: "\<forall>x < k. bs ! x = base_char e m x" "k \<le> length bs"
  shows "cmp_steps (base_step e name len m) [0..<k] 0 = Some (word_of_nat k)"
proof -
  have k: "k \<le> 8" using se by (simp add: short_entry_def)
  have "base_step e name len m i (word_of_nat i) = Some (word_of_nat (Suc i))" if i: "i < k" for i
  proof -
    have i31: "i < 2 ^ 31" using i k by simp
    have c: "name_char name (word_of_nat i) m = base_char e m i"
      using name_char_at [OF na _ i31] i pre by (simp add: nth_append)
    have p: "plain_char (DIR_NTRes e m AND LOWERCASE_BASE) (DIR_Name e i m)" using se i by (simp add: short_entry_def)
    have "sint (word_of_nat i :: u32) < sint len" using sint_index [OF i31] len i pre(2) by simp
    then show ?thesis
      using plain_char_cases [OF p] c by (auto simp: base_step_def Let_def base_char_def add.commute)
  qed
  then have "cmp_steps (base_step e name len m) [0..<k] (word_of_nat 0) = Some (word_of_nat k)"
    by (intro cmp_steps_run) simp_all
  then show ?thesis by simp
qed

lemma base_blanks:
  assumes se: "short_entry e k l m" and na: "name_at name bs m" and len: "len = word_of_nat (length bs)"
    and k: "k \<le> length bs"
    and stop: "DIR_Attr e m AND ATTR_DIRECTORY = 0 \<longrightarrow> (bs @ [0]) ! k = 0x2e"
      "DIR_Attr e m AND ATTR_DIRECTORY \<noteq> 0 \<longrightarrow> length bs = k"
  shows "cmp_steps (base_step e name len m) [k..<8] (word_of_nat k) = Some (word_of_nat k)"
proof (rule cmp_steps_run)
  show "k \<le> 8" using se by (simp add: short_entry_def)
  fix i
  assume i: "k \<le> i" "i < 8"
  have b: "DIR_Name e i m = 0x20" using se i by (simp add: short_entry_def)
  have c: "name_char name (word_of_nat k) m = (bs @ [0]) ! k" using name_char_at [OF na k] i by simp
  have z: "\<not> same_char 0x20 0" by (simp add: same_char_def)
  show "base_step e name len m i (word_of_nat k) = Some (word_of_nat k)"
    using b c stop len z by (cases "DIR_Attr e m AND ATTR_DIRECTORY = 0") (simp_all add: base_step_def Let_def nth_append)
qed

lemma ext_prefix:
  assumes se: "short_entry e k l m" and na: "name_at name bs m"
    and ext: "\<forall>x < l. bs ! (k + 1 + x) = ext_char e m x" "k + 1 + l \<le> length bs"
  shows "cmp_steps (ext_step e name m) [8..<8 + l] (word_of_nat (k + 1)) = Some (word_of_nat (k + 1 + l))"
proof -
  have k: "k \<le> 8" "l \<le> 3" using se by (simp_all add: short_entry_def)
  have "ext_step e name m i (word_of_nat (k + 1 + (i - 8))) = Some (word_of_nat (k + 1 + (Suc i - 8)))"
    if i: "8 \<le> i" "i < 8 + l" for i
  proof -
    obtain x where x: "i = 8 + x" "x < l" using i by (metis le_Suc_ex add_less_cancel_left)
    have "name_char name (word_of_nat (k + 1 + x)) m = (bs @ [0]) ! (k + 1 + x)"
      by (rule name_char_at [OF na]) (use x k ext(2) in simp_all)
    then have c: "name_char name (word_of_nat (k + 1 + x)) m = ext_char e m x"
      using x ext by (simp add: nth_append del: of_nat_add)
    have p: "plain_char (DIR_NTRes e m AND LOWERCASE_EXT) (DIR_Name e i m)" using se x by (simp add: short_entry_def)
    show ?thesis
      using plain_char_cases [OF p] c unfolding x(1) by (auto simp: ext_step_def Let_def ext_char_def)
  qed
  then have "cmp_steps (ext_step e name m) [8..<8 + l] (word_of_nat (k + 1 + (8 - 8))) =
      Some (word_of_nat (k + 1 + (8 + l - 8)))"
    by (intro cmp_steps_run [where g = "\<lambda>i. word_of_nat (k + 1 + (i - 8))"]) simp_all
  then show ?thesis by simp
qed

lemma upt_split: "a \<le> b \<Longrightarrow> b \<le> (c :: nat) \<Longrightarrow> [a..<c] = [a..<b] @ [b..<c]"
  by (metis le_add_diff_inverse upt_add_eq_append)

lemma short_cmp_listed:
  assumes se: "short_entry e k l m" and na: "name_at name (short_name e m) m"
    and len: "len = word_of_nat (length (short_name e m))"
    and k8: "l = 0 \<Longrightarrow> DIR_Attr e m AND ATTR_DIRECTORY = 0 \<Longrightarrow> k < 8"
  shows "short_cmp e name len m \<longleftrightarrow> DIR_Attr e m AND ATTR_DIRECTORY \<noteq> 0 \<or> l = 3"
proof -
  let ?bs = "short_name e m" and ?dir = "DIR_Attr e m AND ATTR_DIRECTORY \<noteq> 0"
  note bs = short_name_eq [OF se]
  have kl: "k \<le> 8" "l \<le> 3" using se by (simp_all add: short_entry_def)
  have pre: "\<forall>x < k. ?bs ! x = base_char e m x" "k \<le> length ?bs" by (simp_all add: bs nth_append)
  have "length ?bs < 2 ^ 31" using kl by (simp add: bs)
  then have slen: "sint len = int (length ?bs)" unfolding len by (rule sint_index)
  note prefix = base_prefix [OF se na slen pre]
  have z: "\<not> same_char 0x20 0" by (simp add: same_char_def)
  show ?thesis
  proof (cases "?dir \<or> 0 < l")
    case False
    then have l: "l = 0" "\<not> ?dir" by simp_all
    then have k: "k < 8" using k8 by simp
    have "name_char name (word_of_nat k) m = 0" using name_char_at [OF na pre(2)] kl l by (simp add: bs nth_append)
    moreover have "DIR_Name e k m = 0x20" using se k by (simp add: short_entry_def)
    ultimately have "base_step e name len m k (word_of_nat k) = None" using l z by (simp add: base_step_def Let_def)
    moreover have "[0..<8] = [0..<k] @ k # [Suc k..<8]" using k upt_split [of 0 k 8] by (simp add: upt_conv_Cons)
    ultimately have "cmp_steps (base_step e name len m) [0..<8] 0 = None" by (simp add: cmp_steps_append prefix)
    then show ?thesis using l by (simp add: short_cmp_def)
  next
    case True
    then have "cmp_steps (base_step e name len m) [k..<8] (word_of_nat k) = Some (word_of_nat k)"
      using base_blanks [OF se na len pre(2)] by (auto simp: bs nth_append)
    then have base: "cmp_steps (base_step e name len m) [0..<8] 0 = Some (word_of_nat k)"
      using upt_split [of 0 k 8] kl by (simp add: cmp_steps_append prefix)
    show ?thesis
    proof (cases ?dir)
      case True
      then show ?thesis by (simp add: short_cmp_def base)
    next
      case d: False
      with True have l: "0 < l" by simp
      have ext: "\<forall>x < l. ?bs ! (k + 1 + x) = ext_char e m x" "length ?bs = k + 1 + l"
        using d l by (simp_all add: bs nth_append)
      have run: "cmp_steps (ext_step e name m) [8..<8 + l] (word_of_nat (k + 1)) = Some (word_of_nat (k + 1 + l))"
        using ext by (intro ext_prefix [OF se na]) simp_all
      have split: "[8..<11] = [8..<8 + l] @ [8 + l..<11]" using kl by (intro upt_split) simp_all
      have "cmp_steps (ext_step e name m) [8 + l..<11] (word_of_nat (k + 1 + l)) \<noteq> None \<longleftrightarrow> l = 3"
      proof (cases "l = 3")
        case False
        then have l3: "l < 3" using kl by simp
        have "name_char name (word_of_nat (k + 1 + l)) m = 0"
          using name_char_at [OF na, of "k + 1 + l"] ext(2) kl by (simp add: nth_append)
        moreover have "DIR_Name e (8 + l) m = 0x20" using se l3 by (simp add: short_entry_def)
        ultimately have "ext_step e name m (8 + l) (word_of_nat (k + 1 + l)) = None"
          using z by (simp add: ext_step_def Let_def is_letter_def is_decimal_def)
        moreover have "[8 + l..<11] = (8 + l) # [Suc (8 + l)..<11]" using l3 by (simp add: upt_conv_Cons)
        ultimately show ?thesis using False by simp
      qed simp
      then have "cmp_steps (ext_step e name m) [8..<11] (word_of_nat (k + 1)) \<noteq> None \<longleftrightarrow> l = 3"
        unfolding split cmp_steps_append run by simp
      moreover have "word_of_nat k + 1 = (word_of_nat (k + 1) :: u32)" by simp
      ultimately show ?thesis using d unfolding short_cmp_def base option.case by (simp add: add.commute)
    qed
  qed
qed

section \<open>Properties\<close>


text \<open>The entry \<open>A       TXT\<close> at 32 and its name \<open>A.TXT\<close> at 128.\<close>

definition demo_dir :: mem where
  "demo_dir = (\<lambda>a. if a \<in> {32, 128} then 0x41 else if 33 \<le> a \<and> a < 40 then 0x20
     else if a \<in> {40, 42, 130, 132} then 0x54 else if a \<in> {41, 131} then 0x58 else if a = 129 then 0x2e
     else if a = 43 then 0x20 else 0)"

lemma demo_dir_name: "short_name 32 demo_dir = [0x41, 0x2e, 0x54, 0x58, 0x54]"
  by (simp add: short_name_def short_part_def DIR_Name_def DIR_NTRes_def DIR_Attr_def ATTR_DIRECTORY_def
    demo_dir_def upt_rec)


lemma load_le_1: "unat (load_le 1 a m) < 256"
proof -
  have "load_le 1 a m = ucast (m a)" by (simp add: load_le_def)
  moreover have "unat (m a) < 2 ^ 8" using unsigned_less [of "m a"] by simp
  ultimately show ?thesis by (simp add: unsigned_ucast_eq take_bit_nat_eq_self)
qed

lemma BPB_byte: "unat (BPB 1 off buf m) < 256"
  using load_le_1 [of "buf + off" m] by (simp add: BPB_def unsigned_ucast_eq take_bit_nat_eq_self)

lemma boot_geometry:
  assumes "BPB_BytesPerSec buf m = 512" and "0 < unat (BPB_SecPerClus buf m)" and "0 < unat (BPB_NumFATs buf m)"
    and "unat (start_LBA dpte) + unat (BPB_RsvdSecCnt buf m) +
         unat (BPB_FATSz32 buf m) * unat (BPB_NumFATs buf m) < 2 ^ 32"
  shows "geometry (boot_parameters dpte info buf m)"
proof -
  have spc: "unat (BPB_SecPerClus buf m) < 256" unfolding BPB_SecPerClus_def by (rule BPB_byte)
  have "unat (BPB_SecPerClus buf m * 512) = 512 * unat (BPB_SecPerClus buf m)"
    using spc by (simp add: unat_word_ariths)
  then have bpc: "unat (scast (BPB_SecPerClus buf m * 512) :: u64) = 512 * unat (BPB_SecPerClus buf m)"
    using spc unat_scast_small [of "BPB_SecPerClus buf m * 512"] by simp
  have fat: "unat (start_LBA dpte + BPB_RsvdSecCnt buf m) = unat (start_LBA dpte) + unat (BPB_RsvdSecCnt buf m)"
    "unat (BPB_FATSz32 buf m * BPB_NumFATs buf m) = unat (BPB_FATSz32 buf m) * unat (BPB_NumFATs buf m)"
    using assms(4) by (simp_all add: unat_word_ariths)
  then have data: "unat (start_LBA dpte + BPB_RsvdSecCnt buf m + BPB_FATSz32 buf m * BPB_NumFATs buf m) =
      unat (start_LBA dpte) + unat (BPB_RsvdSecCnt buf m) + unat (BPB_FATSz32 buf m) * unat (BPB_NumFATs buf m)"
    using assms(4) by (simp add: unat_word_ariths(1) [of "start_LBA dpte + BPB_RsvdSecCnt buf m"])
  show ?thesis
    using assms spc bpc fat(1) data
    by (simp add: geometry_def volume_ok_def boot_parameters_def)
qed

text \<open>Mounting a volume whose boot sector describes 512-byte sectors, at least one sector per
  cluster and one table, and whose tables end below sector \<open>2 ^ 32\<close>, gives volume parameters with the
  geometry the file operations rely on, and a root directory at the root cluster of the boot sector.\<close>

theorem mounted_geometry:
  assumes "BPB_BytesPerSec buf (vmem s) = 512" and "0 < unat (BPB_SecPerClus buf (vmem s))"
    and "0 < unat (BPB_NumFATs buf (vmem s))"
    and "unat (start_LBA dpte) + unat (BPB_RsvdSecCnt buf (vmem s)) +
         unat (BPB_FATSz32 buf (vmem s)) * unat (BPB_NumFATs buf (vmem s)) < 2 ^ 32"
    and "fat32_read_superblock dpte buf s = Some (sb, s')"
  shows "geometry (fsbis s' (private_sb_info (supers s' sb))) \<and>
     index_node.attribute (inodes s' (dir_inode (dentries s' (sb_root (supers s' sb))))) = FS_ATTR_DIR \<and>
     d_parent (dentries s' (sb_root (supers s' sb))) = sb_root (supers s' sb)"
proof -
  have g: "geometry (boot_parameters dpte i buf (vmem s))" for i by (rule boot_geometry [OF assms(1-4)])
  from assms(5) show ?thesis
    unfolding fat32_read_superblock_def
    by (auto simp: bind_eq_Some_conv Let_def upd_dentry_def upd_inode_def upd_finode_def get_nonnull_Some g split: if_splits)
qed

definition demo_mount :: vfs where
  "demo_mount = demo_vfs\<lparr>vmem := (\<lambda>a. if a = 0x100c \<or> a = 0x1010 then 2 else if a = 0x100d then 1
       else if a = 0x100e then 32 else if a = 0x1024 then 100 else 0),
     fresh := [0x2000, 0x2100, 0x2200, 0x2400, 0x2500, 0x2600, 0x2700]\<rparr>"

lemma demo_boot_sector:
  "BPB_BytesPerSec 0x1000 (vmem demo_mount) = 512" "BPB_SecPerClus 0x1000 (vmem demo_mount) = 1"
  "BPB_NumFATs 0x1000 (vmem demo_mount) = 2" "BPB_RsvdSecCnt 0x1000 (vmem demo_mount) = 32"
  "BPB_FATSz32 0x1000 (vmem demo_mount) = 100"
  by (simp_all add: BPB_BytesPerSec_def BPB_SecPerClus_def BPB_NumFATs_def BPB_RsvdSecCnt_def BPB_FATSz32_def
    BPB_def load_le_def demo_mount_def upt_rec)

theorem mounted_geometry_witness:
  "\<exists>s'. fat32_read_superblock \<lparr>start_LBA = 2048, sectors_limit = 8192\<rparr> 0x1000 demo_mount = Some (0x2000, s') \<and>
     geometry (fsbis s' (private_sb_info (supers s' 0x2000)))"
proof -
  have "\<exists>s'. fat32_read_superblock \<lparr>start_LBA = 2048, sectors_limit = 8192\<rparr> 0x1000 demo_mount = Some (0x2000, s')"
    using demo_boot_sector(1)
    by (simp add: fat32_read_superblock_def get_nonnull_Cons Let_def boot_parameters_def demo_mount_def
      upd_dentry_def)
  then obtain s' where
    s: "fat32_read_superblock \<lparr>start_LBA = 2048, sectors_limit = 8192\<rparr> 0x1000 demo_mount = Some (0x2000, s')" by blast
  have "geometry (fsbis s' (private_sb_info (supers s' 0x2000)))"
    using mounted_geometry [OF demo_boot_sector(1) _ _ _ s] demo_boot_sector by simp
  with s show ?thesis by blast
qed

end
