(* ===== verification/Vfs.thy ===== *)
theory Vfs
  imports Fat32_Dir
begin

unbundle bit_operations_syntax

text \<open>
  The virtual file system of \<open>src/VFS.c\<close>: resolving a path, the call back that fills a directory
  entry of the user, the list of file system types, and the mounting of the first partition of the
  disk (the end of \<open>src/fat32.c\<close>).  \<open>lookup\<close> is only ever the one of FAT32; a call through a null
  table is a fault.
\<close>

section \<open>Resolving a path\<close>

partial_function (option) skip_slashes :: "mem \<Rightarrow> addr \<Rightarrow> addr option" where
  "skip_slashes m a = (if m a = 0x2f then skip_slashes m (a + 1) else Some a)"

partial_function (option) component_end :: "mem \<Rightarrow> addr \<Rightarrow> addr option" where
  "component_end m a = (if m a \<noteq> 0 \<and> m a \<noteq> 0x2f then component_end m (a + 1) else Some a)"

text \<open>A new directory entry with a copy of the component as its name.\<close>

definition new_dentry :: "addr \<Rightarrow> u32 \<Rightarrow> vfs \<Rightarrow> (addr \<times> vfs) option" where
  "new_dentry tmpname len s = do {
     (path, s) \<leftarrow> get_nonnull s;
     (name, s) \<leftarrow> get_nonnull s;
     let m = snd (memset name 0 (scast (len + 1)) (vmem s));
     let m = snd (memcpy tmpname name (scast len) m);
     Some (path, upd_dentry path (\<lambda>_. \<lparr>d_name = name, name_length = len, dir_inode = NULL, d_parent = NULL\<rparr>)
       (s\<lparr>vmem := m\<rparr>))
   }"

definition call_lookup :: "addr \<Rightarrow> addr \<Rightarrow> vfs \<Rightarrow> (addr \<times> vfs) option" where
  "call_lookup ip dentry s =
     (case inode_ops (inodes s ip) of No_inode_ops \<Rightarrow> None | FAT32_inode_ops \<Rightarrow> FAT32_lookup ip dentry s)"

definition drop_dentry :: "addr \<Rightarrow> vfs \<Rightarrow> vfs" where
  "drop_dentry path s = put_object path (put_object (d_name (dentries s path)) s)"

definition link_dentry :: "addr \<Rightarrow> addr \<Rightarrow> vfs \<Rightarrow> vfs" where
  "link_dentry parent path s =
     (let s = s\<lparr>vlnk := list_init (list_init (vlnk s) (child_node path)) (subdirs_list path)\<rparr>;
          s = upd_dentry path (\<lambda>d. d\<lparr>d_parent := parent\<rparr>) s
      in s\<lparr>vlnk := list_add_to_behind (vlnk s) (subdirs_list parent) (child_node path)\<rparr>)"

partial_function (option) walk_loop :: "addr \<Rightarrow> addr \<Rightarrow> u64 \<Rightarrow> vfs \<Rightarrow> (addr \<times> vfs) option" where
  "walk_loop parent name flags s =
     Option.bind (component_end (vmem s) name) (\<lambda>stop.
     Option.bind (new_dentry name (ucast (stop - name)) s) (\<lambda>(path, s).
     Option.bind (call_lookup (dir_inode (dentries s parent)) path s) (\<lambda>(r, s).
       if r = NULL then Some (NULL, drop_dentry path s)
       else let s = link_dentry parent path s; result = (if flags AND 1 \<noteq> 0 then parent else path)
         in if vmem s stop = 0 then Some (result, s)
            else Option.bind (skip_slashes (vmem s) stop) (\<lambda>name.
              if vmem s name = 0 then Some (result, s) else walk_loop path name flags s))))"

definition path_walk :: "addr \<Rightarrow> u64 \<Rightarrow> vfs \<Rightarrow> (addr \<times> vfs) option" where
  "path_walk name flags s = do {
     let parent = sb_root (supers s (root_sb s));
     name \<leftarrow> skip_slashes (vmem s) name;
     if vmem s name = 0 then Some (parent, s) else walk_loop parent name flags s
   }"

section \<open>Directory entries for the user\<close>

text \<open>The user's structure: offset, type and length of the name, 8 bytes each, then the name.\<close>

definition sizeof_dirent :: u64 where "sizeof_dirent = 24"

definition fill_dentry :: filldir where
  "fill_dentry buf name namelen type offset m =
     (if buf < TASK_SIZE \<and> \<not> verify_area buf (sizeof_dirent + namelen) then (- EFAULT, m)
      else let m = snd (memcpy name (buf + 24) namelen m);
               m = stos 8 namelen (buf + 16) m;
               m = stos 8 type (buf + 8) m;
               m = stos 8 offset buf m
           in (scast (ucast (sizeof_dirent + namelen) :: u32), m))"

section \<open>File system types\<close>

datatype superblock_reader = No_reader | Fat32_reader

record file_system_types =
  fs_name :: "addr \<Rightarrow> addr"
  fs_next :: "addr \<Rightarrow> addr"
  fs_reader :: "addr \<Rightarrow> superblock_reader"
  filesystem :: addr

partial_function (option) find_fs :: "(addr \<Rightarrow> int option) \<Rightarrow> (addr \<Rightarrow> addr) \<Rightarrow> addr \<Rightarrow> addr option" where
  "find_fs differs next_fs p =
     (if p = NULL then Some NULL
      else Option.bind (differs p) (\<lambda>c. if c = 0 then Some p else find_fs differs next_fs (next_fs p)))"

definition register_filesystem :: "addr \<Rightarrow> mem \<Rightarrow> file_system_types \<Rightarrow> (u64 \<times> file_system_types) option" where
  "register_filesystem fs m t = do {
     p \<leftarrow> find_fs (\<lambda>p. strcmp (fs_name t fs) (fs_name t p) m) (fs_next t) (filesystem t);
     if p \<noteq> NULL then Some (0, t)
     else
       let t = t\<lparr>fs_next := (fs_next t)(fs := fs_next t (filesystem t))\<rparr>;
           t = t\<lparr>fs_next := (fs_next t)(filesystem t := fs)\<rparr>
       in Some (1, t)
   }"

partial_function (option) unregister_loop :: "addr \<Rightarrow> addr \<Rightarrow> file_system_types \<Rightarrow> (u64 \<times> file_system_types) option" where
  "unregister_loop fs p t =
     (if fs_next t p = NULL then Some (0, t)
      else if fs_next t p = fs then
        let t = t\<lparr>fs_next := (fs_next t)(p := fs_next t (fs_next t p))\<rparr>
        in Some (1, t\<lparr>fs_next := (fs_next t)(fs := NULL)\<rparr>)
      else unregister_loop fs (fs_next t p) t)"

definition unregister_filesystem :: "addr \<Rightarrow> file_system_types \<Rightarrow> (u64 \<times> file_system_types) option" where
  "unregister_filesystem fs t = unregister_loop fs (filesystem t) t"

definition mount_fs :: "addr \<Rightarrow> partition_entry \<Rightarrow> addr \<Rightarrow> file_system_types \<Rightarrow> vfs \<Rightarrow> (addr \<times> vfs) option" where
  "mount_fs name dpte buf t s = do {
     p \<leftarrow> find_fs (\<lambda>p. strcmp (fs_name t p) name (vmem s)) (fs_next t) (filesystem t);
     if p = NULL then Some (NULL, s)
     else case fs_reader t p of No_reader \<Rightarrow> None | Fat32_reader \<Rightarrow> fat32_read_superblock dpte buf s
   }"

text \<open>The first entry of the partition table is at byte 446 of sector 0; its first sector and length
  are 8 and 12 bytes into it.  \<open>buf\<close> is the buffer on the stack and \<open>fs\<close> the FAT32 type.\<close>

definition partition0 :: "addr \<Rightarrow> mem \<Rightarrow> partition_entry" where
  "partition0 buf m = \<lparr>start_LBA = ucast (load_le 4 (buf + 454) m), sectors_limit = ucast (load_le 4 (buf + 458) m)\<rparr>"

definition DISK1_FAT32_FS_init ::
    "addr \<Rightarrow> addr \<Rightarrow> addr \<Rightarrow> file_system_types \<Rightarrow> vfs \<Rightarrow> (file_system_types \<times> vfs) option" where
  "DISK1_FAT32_FS_init fs name buf t s = do {
     (_, t) \<leftarrow> register_filesystem fs (vmem s) t;
     let s = s\<lparr>vmem := snd (memset buf 0 512 (vmem s))\<rparr>;
     let s = s\<lparr>vmem := ide_read 0 1 buf (img s) (vmem s)\<rparr>;
     let dpte = partition0 buf (vmem s);
     let s = s\<lparr>vmem := snd (memset buf 0 512 (vmem s))\<rparr>;
     let s = s\<lparr>vmem := ide_read (ucast (start_LBA dpte)) 1 buf (img s) (vmem s)\<rparr>;
     (sb, s) \<leftarrow> mount_fs name dpte buf t s;
     Some (t, s\<lparr>root_sb := sb\<rparr>)
   }"

section \<open>The list of file system types\<close>

fun fs_list :: "(addr \<Rightarrow> addr) \<Rightarrow> addr \<Rightarrow> addr list \<Rightarrow> bool" where
  "fs_list nx p [] \<longleftrightarrow> p = NULL"
| "fs_list nx p (x # xs) \<longleftrightarrow> p = x \<and> x \<noteq> NULL \<and> fs_list nx (nx x) xs"

lemma fs_list_cong: "(\<And>x. x \<in> set xs \<Longrightarrow> nx x = ny x) \<Longrightarrow> fs_list nx p xs = fs_list ny p xs"
  by (induction xs arbitrary: p) auto

lemma fs_list_nonnull: "fs_list nx p xs \<Longrightarrow> x \<in> set xs \<Longrightarrow> x \<noteq> NULL"
  by (induction xs arbitrary: p) auto

lemma find_fs_list:
  assumes "fs_list nx p xs" and "\<forall>x \<in> set xs. differs x \<noteq> None"
  shows "find_fs differs nx p = Some (case find (\<lambda>x. differs x = Some 0) xs of None \<Rightarrow> NULL | Some x \<Rightarrow> x)"
  using assms
proof (induction xs arbitrary: p)
  case Nil
  then show ?case by (subst find_fs.simps) simp
next
  case (Cons x xs)
  then obtain c where c: "differs x = Some c" by auto
  with Cons show ?case by (subst find_fs.simps) auto
qed

lemma unregister_list:
  assumes "fs_list (fs_next t) p (p # xs @ fs # ys)" and "distinct (p # xs @ fs # ys)"
  shows "\<exists>t'. unregister_loop fs p t = Some (1, t') \<and> fs_list (fs_next t') p (p # xs @ ys) \<and>
     fs_name t' = fs_name t \<and> filesystem t' = filesystem t \<and> fs_reader t' = fs_reader t \<and>
     (\<forall>a. a \<notin> set (p # xs @ fs # ys) \<longrightarrow> fs_next t' a = fs_next t a)"
  using assms
proof (induction xs arbitrary: p)
  case Nil
  then have n: "fs_next t p = fs" "fs \<noteq> NULL" "p \<noteq> fs" by simp_all
  let ?nx = "((fs_next t)(p := fs_next t fs))(fs := NULL)"
  have "fs_list ?nx (fs_next t fs) ys = fs_list (fs_next t) (fs_next t fs) ys"
    using Nil.prems(2) by (intro fs_list_cong) auto
  then show ?case using Nil.prems n by (subst unregister_loop.simps) (simp add: Let_def)
next
  case (Cons x xs)
  then have n: "fs_next t p = x" "x \<noteq> NULL" "x \<noteq> fs" by auto
  have "fs_list (fs_next t) x (x # xs @ fs # ys)" "distinct (x # xs @ fs # ys)" using Cons.prems by auto
  then obtain t' where t': "unregister_loop fs x t = Some (1, t')" "fs_list (fs_next t') x (x # xs @ ys)"
    "fs_name t' = fs_name t" "filesystem t' = filesystem t" "fs_reader t' = fs_reader t"
    "\<forall>a. a \<notin> set (x # xs @ fs # ys) \<longrightarrow> fs_next t' a = fs_next t a"
    using Cons.IH by blast
  have "fs_next t' p = x" using t'(6) Cons.prems(2) n(1) by auto
  then show ?case using t' n Cons.prems by (subst unregister_loop.simps) auto
qed

section \<open>What a lookup leaves alone\<close>

lemma lookup_loop_frame:
  assumes ret: "lookup_loop fsbi name len buf cluster s = Some y"
  shows "snd y = s\<lparr>vmem := vmem (snd y)\<rparr>"
proof (rule lookup_loop.raw_induct [where P = "\<lambda>fsbi name len buf cluster s y. snd y = s\<lparr>vmem := vmem (snd y)\<rparr>", OF _ ret])
  fix f :: "FAT32_sb_info \<Rightarrow> addr \<Rightarrow> u32 \<Rightarrow> addr \<Rightarrow> u32 \<Rightarrow> vfs \<Rightarrow> ((addr \<times> u32) option \<times> vfs) option"
    and fsbi :: FAT32_sb_info and name buf :: addr and len cluster :: u32 and s :: vfs and y :: "(addr \<times> u32) option \<times> vfs"
  assume IH: "\<And>fsbi name len buf cluster s y. f fsbi name len buf cluster s = Some y \<Longrightarrow> snd y = s\<lparr>vmem := vmem (snd y)\<rparr>"
  let ?s = "load_cluster fsbi buf cluster s"
  have l: "?s\<lparr>vmem := m\<rparr> = s\<lparr>vmem := m\<rparr>" for m by (simp add: load_cluster_def Let_def)
  assume "(let s = load_cluster fsbi buf cluster s
      in Option.bind (scan (\<lambda>e. entry_matches e name len (vmem s)) (entries fsbi buf 0))
        (\<lambda>r. case r of
            Some e \<Rightarrow> Some (Some (e, cluster), s)
          | None \<Rightarrow>
              let cluster = read_FAT_Entry fsbi cluster (img s)
              in if cluster < 0x0ffffff7 then f fsbi name len buf cluster s else Some (None, s))) = Some y"
  then consider "snd y = ?s" | c where "f fsbi name len buf c ?s = Some y"
    by (auto simp: Let_def bind_eq_Some_conv split: option.splits if_splits)
  then show "snd y = s\<lparr>vmem := vmem (snd y)\<rparr>"
  proof cases
    case 1
    then show ?thesis using l [of "vmem ?s"] by simp
  next
    case 2
    show ?thesis unfolding l [symmetric] by (rule IH [OF 2])
  qed
qed

text \<open>A lookup takes two objects when it finds the name and none when it does not.\<close>

lemma lookup_objects:
  assumes "FAT32_lookup ip d s = Some (r, s')"
  shows "r = d \<and> length (live s') = length (live s) + 2 \<or>
     r = NULL \<and> live s' = live s \<and> dentries s' = dentries s \<and> vlnk s' = vlnk s"
proof -
  obtain buf as where b: "fresh s = buf # as" "buf \<noteq> NULL"
    using assms by (auto simp: FAT32_lookup_def Let_def bind_eq_Some_conv get_nonnull_Some)
  let ?s = "s\<lparr>fresh := as, live := buf # live s\<rparr>"
  let ?f = "fsbis s (private_sb_info (supers s (i_sb (inodes s ip))))"
  obtain q s1 where l: "lookup_loop ?f (d_name (dentries s d)) (name_length (dentries s d)) buf
      (ucast (first_cluster (finodes s (private_index_info (inodes s ip))))) ?s = Some (q, s1)"
    using assms by (auto simp: FAT32_lookup_def Let_def bind_eq_Some_conv get_nonnull_Cons [OF b])
  have s1: "s1 = ?s\<lparr>vmem := vmem s1\<rparr>" using lookup_loop_frame [OF l] by simp
  then have lv: "live s1 = buf # live s" "dentries s1 = dentries s" "vlnk s1 = vlnk s"
    by (metis (no_types) vfs.simps vfs.select_convs vfs.surjective vfs.update_convs)+
  show ?thesis
    using assms l lv
    by (auto simp: FAT32_lookup_def Let_def bind_eq_Some_conv get_nonnull_Cons [OF b] get_nonnull_Some put_object_def
      upd_inode_def upd_finode_def upd_dentry_def split: option.splits if_splits prod.splits)
qed

text \<open>What a walk leaves allocated: four objects for each component it resolves.\<close>

definition walked :: "vfs \<Rightarrow> addr \<times> vfs \<Rightarrow> bool" where
  "walked s y \<longleftrightarrow> (\<exists>n. length (live (snd y)) = length (live s) + 4 * n \<and> (fst y = NULL \<or> 0 < n) \<and>
     (n = 0 \<longrightarrow> live (snd y) = live s \<and> vlnk (snd y) = vlnk s))"

lemma new_dentry_Some:
  assumes "new_dentry tmpname len s = Some (path, s')"
  shows "path \<noteq> NULL \<and> live s' = d_name (dentries s' path) # path # live s \<and> vlnk s' = vlnk s"
  using assms by (auto simp: new_dentry_def bind_eq_Some_conv get_nonnull_Some upd_dentry_def Let_def)

lemma link_dentry_live [simp]: "live (link_dentry parent path s) = live s"
  by (simp add: link_dentry_def upd_dentry_def Let_def)

lemma walked_found:
  assumes "length (live s1) = length (live s) + 4"
  shows "r \<noteq> NULL \<Longrightarrow> walked s (r, s1)" and "walked s1 y \<Longrightarrow> walked s y"
proof -
  show "walked s (r, s1)" if "r \<noteq> NULL" using assms that unfolding walked_def by (intro exI [of _ 1]) simp
  assume "walked s1 y"
  then obtain n where "length (live (snd y)) = length (live s1) + 4 * n" unfolding walked_def by blast
  then show "walked s y" using assms unfolding walked_def by (intro exI [of _ "Suc n"]) simp
qed

lemma walk_loop_walked:
  assumes ret: "walk_loop parent name flags s = Some y" and pn: "parent \<noteq> NULL"
  shows "walked s y"
proof -
  have "parent \<noteq> NULL \<longrightarrow> walked s y"
  proof (rule walk_loop.raw_induct [where P = "\<lambda>parent name flags s y. parent \<noteq> NULL \<longrightarrow> walked s y", OF _ ret])
  fix f :: "addr \<Rightarrow> addr \<Rightarrow> u64 \<Rightarrow> vfs \<Rightarrow> (addr \<times> vfs) option"
    and parent name :: addr and flags :: u64 and s :: vfs and y :: "addr \<times> vfs"
  assume IH: "\<And>parent name flags s y. f parent name flags s = Some y \<Longrightarrow> parent \<noteq> NULL \<longrightarrow> walked s y"
  assume body: "Option.bind (component_end (vmem s) name) (\<lambda>stop.
     Option.bind (new_dentry name (ucast (stop - name)) s) (\<lambda>(path, s).
     Option.bind (call_lookup (dir_inode (dentries s parent)) path s) (\<lambda>(r, s).
       if r = NULL then Some (NULL, drop_dentry path s)
       else let s = link_dentry parent path s; result = (if flags AND 1 \<noteq> 0 then parent else path)
         in if vmem s stop = 0 then Some (result, s)
            else Option.bind (skip_slashes (vmem s) stop) (\<lambda>name.
              if vmem s name = 0 then Some (result, s) else f path name flags s)))) = Some y"
  obtain stop where stop: "component_end (vmem s) name = Some stop" using body by (auto simp: bind_eq_Some_conv)
  obtain path s1 where nd: "new_dentry name (ucast (stop - name)) s = Some (path, s1)"
    using body stop by (auto simp: bind_eq_Some_conv)
  obtain r s2 where lk: "call_lookup (dir_inode (dentries s1 parent)) path s1 = Some (r, s2)"
    using body stop nd by (auto simp: bind_eq_Some_conv)
  note n = new_dentry_Some [OF nd]
  have cases: "r = path \<and> length (live s2) = length (live s1) + 2 \<or>
     r = NULL \<and> live s2 = live s1 \<and> dentries s2 = dentries s1 \<and> vlnk s2 = vlnk s1"
    using lk lookup_objects by (auto simp: call_lookup_def split: index_node_operations.splits)
  show "parent \<noteq> NULL \<longrightarrow> walked s y"
  proof (intro impI, cases "r = NULL")
    assume pn: "parent \<noteq> NULL"
    case True
    then have "y = (NULL, drop_dentry path s2)" using body stop nd lk by simp
    then show "walked s y"
      using cases True n by (auto simp: walked_def drop_dentry_def put_object_def intro!: exI [of _ 0])
  next
    assume pn: "parent \<noteq> NULL"
    case False
    let ?s = "link_dentry parent path s2"
    have len: "length (live ?s) = length (live s) + 4" using cases False n by simp
    have "(\<exists>r. r \<noteq> NULL \<and> y = (r, ?s)) \<or> (\<exists>name. f path name flags ?s = Some y)"
      using body stop nd lk False pn n by (auto simp: bind_eq_Some_conv Let_def split: if_splits)
    then show "walked s y" using walked_found [OF len] IH n by blast
  qed
  qed
  then show ?thesis using pn by blast
qed

section \<open>Properties\<close>


text \<open>Registering a file system whose name is new puts it behind the built-in type, so that
  \<open>mount_fs\<close> with its name calls its reader; unregistering it restores the list.  A name that is
  already registered is refused without a change.\<close>

theorem register_unregister:
  assumes "fs_list (fs_next t) (filesystem t) (filesystem t # xs)" and "distinct (filesystem t # xs)"
    and "fs \<notin> set (filesystem t # xs)" and "fs \<noteq> NULL"
    and "\<forall>x \<in> set (filesystem t # xs). \<exists>c. strcmp (fs_name t fs) (fs_name t x) m = Some c \<and> (c = 0 \<longleftrightarrow> x \<in> same)"
  shows "if same \<inter> set (filesystem t # xs) = {} then
       \<exists>t' t''. register_filesystem fs m t = Some (1, t') \<and>
         fs_list (fs_next t') (filesystem t) (filesystem t # fs # xs) \<and>
         unregister_filesystem fs t' = Some (1, t'') \<and> fs_list (fs_next t'') (filesystem t) (filesystem t # xs)
     else register_filesystem fs m t = Some (0, t)"
proof -
  let ?d = "\<lambda>p. strcmp (fs_name t fs) (fs_name t p) m" and ?h = "filesystem t"
  have "\<forall>x \<in> set (?h # xs). ?d x \<noteq> None" using assms(5) by fastforce
  note find = find_fs_list [OF assms(1) this]
  show ?thesis
  proof (cases "same \<inter> set (?h # xs) = {}")
    case True
    have "find (\<lambda>x. ?d x = Some 0) (?h # xs) = None"
      unfolding find_None_iff using assms(5) True by fastforce
    with find have f: "find_fs ?d (fs_next t) ?h = Some NULL" by simp
    let ?t = "t\<lparr>fs_next := ((fs_next t)(fs := fs_next t ?h))(?h := fs)\<rparr>"
    have reg: "register_filesystem fs m t = Some (1, ?t)" using f assms(3) by (simp add: register_filesystem_def)
    have "fs_list (fs_next ?t) (fs_next t ?h) xs = fs_list (fs_next t) (fs_next t ?h) xs"
      using assms(2,3) by (intro fs_list_cong) auto
    then have l: "fs_list (fs_next ?t) ?h (?h # [] @ fs # xs)" using assms(1,3,4) by auto
    have "distinct (?h # [] @ fs # xs)" using assms(2,3) by auto
    from unregister_list [OF l this] obtain t'' where
      "unregister_loop fs ?h ?t = Some (1, t'')" "fs_list (fs_next t'') ?h (?h # xs)" by auto
    then have u: "unregister_filesystem fs ?t = Some (1, t'')" by (simp add: unregister_filesystem_def)
    have "fs_list (fs_next ?t) ?h (?h # fs # xs)" using l by (simp only: append_Nil)
    with reg u \<open>fs_list (fs_next t'') ?h (?h # xs)\<close> show ?thesis unfolding if_P [OF True] by blast
  next
    case False
    then obtain x where x: "x \<in> same" "x \<in> set (?h # xs)" by blast
    with assms(5) have "?d x = Some 0" by blast
    with x(2) have "find (\<lambda>x. ?d x = Some 0) (?h # xs) \<noteq> None" unfolding find_None_iff by blast
    then obtain y where y: "find (\<lambda>x. ?d x = Some 0) (?h # xs) = Some y" by blast
    have "y \<in> set (?h # xs)" using find_SomeD [OF y] by blast
    from fs_list_nonnull [OF assms(1) this] have "y \<noteq> NULL" .
    then have "register_filesystem fs m t = Some (0, t)" using y find by (simp add: register_filesystem_def)
    then show ?thesis unfolding if_not_P [OF False] .
  qed
qed

text \<open>The root directory is the empty cluster 5 and the path at 256 is \<open>a\<close>.\<close>

definition demo_walk :: vfs where
  "demo_walk = demo_vfs\<lparr>finodes := (\<lambda>_. \<lparr>first_cluster = 5, dentry_location = 5, dentry_position = 1,
       create_date = 0, create_time = 0, write_date = 0, write_time = 0\<rparr>),
     vmem := (\<lambda>a. if a = 256 then 0x61 else 0), fresh := [0x2000, 0x3000, 0x4000]\<rparr>"

lemma scan_no: "(\<And>e. e \<in> set es \<Longrightarrow> f e = Some False) \<Longrightarrow> scan f es = Some None"
  by (induction es) simp_all

lemma lookup_loop_empty:
  assumes "read_FAT_Entry fsbi cluster (img s) \<ge> 0x0ffffff7"
    and "\<And>e. e \<in> set (entries fsbi buf 0) \<Longrightarrow> skipped e (vmem (load_cluster fsbi buf cluster s))"
  shows "lookup_loop fsbi name len buf cluster s = Some (None, load_cluster fsbi buf cluster s)"
proof -
  have "scan (\<lambda>e. entry_matches e name len (vmem (load_cluster fsbi buf cluster s))) (entries fsbi buf 0) = Some None"
    using assms(2) by (intro scan_no) (simp add: entry_matches_def)
  moreover have "img (load_cluster fsbi buf cluster s) = img s" by (simp add: load_cluster_def)
  ultimately show ?thesis using assms(1) by (subst lookup_loop.simps) (simp add: Let_def, simp add: not_less [symmetric])
qed

lemma demo_walk_lookup:
  assumes "img s = demo_image"
  shows "lookup_loop demo_fsbi name len 0x4000 5 s = Some (None, load_cluster demo_fsbi 0x4000 5 s)"
proof (rule lookup_loop_empty)
  show "read_FAT_Entry demo_fsbi 5 (img s) \<ge> 0x0ffffff7" using demo_entries by (simp add: assms)
  fix e
  assume "e \<in> set (entries demo_fsbi 0x4000 0)"
  then obtain k :: nat where "e = 0x4000 + word_of_nat (32 * k)" "k < 16"
    by (auto simp: entries_def demo_fsbi_def)
  moreover from this(2) have "unat (word_of_nat (32 * k) :: u64) = 32 * k" by (intro unat_of_nat_small) simp
  ultimately have "DIR_Name e 0 (vmem (load_cluster demo_fsbi 0x4000 5 s)) = 0"
    by (simp add: DIR_Name_def load_cluster_def ide_read_def assms demo_image_def demo_fsbi_def)
  then show "skipped e (vmem (load_cluster demo_fsbi 0x4000 5 s))" by (simp add: skipped_def deleted_def)
qed

lemma demo_walk_runs: "\<exists>s'. path_walk 256 0 demo_walk = Some (NULL, s')"
proof -
  have skip: "skip_slashes (vmem demo_walk) 256 = Some 256" "component_end (vmem demo_walk) 256 = Some 257"
    by (subst skip_slashes.simps, simp add: demo_walk_def)
      (subst component_end.simps, simp add: demo_walk_def, subst component_end.simps, simp)
  obtain m where nd: "new_dentry 256 1 demo_walk = Some (0x2000, upd_dentry 0x2000 (\<lambda>_. \<lparr>d_name = 0x3000,
      name_length = 1, dir_inode = NULL, d_parent = NULL\<rparr>)
      (demo_walk\<lparr>vmem := m, fresh := [0x4000], live := [0x3000, 0x2000]\<rparr>))"
    by (simp add: new_dentry_def get_nonnull_Cons demo_walk_def demo_vfs_def Let_def)
  have fields: "sb_root (supers demo_walk a) = 0x70" "inode_ops (inodes demo_walk a) = FAT32_inode_ops"
    "fsbis demo_walk a = demo_fsbi" "first_cluster (finodes demo_walk a) = 5" "img demo_walk = demo_image"
    "vmem demo_walk 256 = 0x61" for a
    by (simp_all add: demo_walk_def demo_vfs_def)
  let ?s = "upd_dentry 0x2000 (\<lambda>_. \<lparr>d_name = 0x3000, name_length = 1, dir_inode = NULL, d_parent = NULL\<rparr>)
      (demo_walk\<lparr>vmem := m, fresh := [0x4000], live := [0x3000, 0x2000]\<rparr>)"
  have "\<exists>s'. call_lookup ip 0x2000 ?s = Some (NULL, s')" for ip
    by (simp add: call_lookup_def FAT32_lookup_def get_nonnull_Cons upd_dentry_def fields demo_walk_lookup Let_def)
  then obtain s' where "call_lookup (dir_inode (dentries ?s 0x70)) 0x2000 ?s = Some (NULL, s')" by blast
  then have "walk_loop 0x70 256 0 demo_walk = Some (NULL, drop_dentry 0x2000 s')"
    using skip(2) nd by (subst walk_loop.simps) simp
  then show ?thesis by (simp add: path_walk_def skip fields)
qed


text \<open>The built-in type at 16 has the empty name; the name of the type at 64 is \<open>F\<close>.\<close>

definition demo_types :: file_system_types where
  "demo_types = \<lparr>fs_name = (\<lambda>p. p + 16), fs_next = (\<lambda>_. NULL), fs_reader = (\<lambda>_. No_reader), filesystem = 16\<rparr>"

theorem register_unregister_witness:
  "\<exists>t' t''. register_filesystem 64 ((\<lambda>_. 0)(80 := 0x46)) demo_types = Some (1, t') \<and>
     fs_list (fs_next t') 16 [16, 64] \<and> unregister_filesystem 64 t' = Some (1, t'') \<and> fs_list (fs_next t'') 16 [16]"
proof -
  have "\<exists>c. strcmp 80 32 ((\<lambda>_. 0)(80 := 0x46)) = Some c \<and> c \<noteq> 0"
    by (simp add: strcmp_def, subst strcmp_loop.simps) (simp add: order_flag_def)
  then show ?thesis
    using register_unregister [of demo_types "[]" 64 "(\<lambda>_. 0)(80 := 0x46)" "{}"] by (simp add: demo_types_def)
qed

end
