(* ===== verification/Keyboard.thy ===== *)
theory Keyboard
  imports Schedule KString
begin

unbundle bit_operations_syntax

text \<open>
  The keyboard and mouse drivers: \<open>src/keyboard.c\<close> and \<open>src/mouse.c\<close>.  Both keep a
  buffer of \<open>KB_BUF_SIZE\<close> bytes with a head, a tail and a count; the pointers are modelled as
  offsets from \<open>buf\<close>, where \<open>KB_BUF_SIZE\<close> is the end of the buffer.  Bytes come from the
  port in the interrupt handlers.  The programming of the keyboard controller and of the IO-APIC is
  left out.
\<close>

definition KB_BUF_SIZE :: nat where "KB_BUF_SIZE = 100"

record kbuf =
  p_head :: nat
  p_tail :: nat
  kcount :: int
  kbytes :: "nat \<Rightarrow> u8"

text \<open>The body the two interrupt handlers share.\<close>

definition kb_put :: "u8 \<Rightarrow> kbuf \<Rightarrow> kbuf" where
  "kb_put x b =
     (let b = (if p_head b = KB_BUF_SIZE then b\<lparr>p_head := 0\<rparr> else b);
          b = b\<lparr>kbytes := (kbytes b)(p_head b := x)\<rparr>;
          b = b\<lparr>kcount := kcount b + 1\<rparr>
      in b\<lparr>p_head := p_head b + 1\<rparr>)"

definition kb_reset :: "kbuf \<Rightarrow> kbuf" where
  "kb_reset b = b\<lparr>p_head := 0, p_tail := 0, kcount := 0,
     kbytes := (\<lambda>i. if i < KB_BUF_SIZE then 0 else kbytes b i)\<rparr>"

section \<open>The keyboard device\<close>

text \<open>\<open>q\<close> is \<open>keyboard_wait_queue\<close>.\<close>

definition keyboard_handler :: "addr \<Rightarrow> u8 \<Rightarrow> kbuf \<times> ksched \<Rightarrow> (kbuf \<times> ksched) option" where
  "keyboard_handler q x = (\<lambda>(b, s). do {
     let b = kb_put x b;
     s \<leftarrow> wakeup q TASK_UNINTERRUPTIBLE s;
     Some (b, s)
   })"

text \<open>Opening and closing also set \<open>private_data\<close> of the file; both return 1.\<close>

definition keyboard_open :: "addr \<Rightarrow> kbuf \<Rightarrow> u64 \<times> addr \<times> kbuf" where
  "keyboard_open p_kb b = (1, p_kb, kb_reset b)"

definition keyboard_close :: "kbuf \<Rightarrow> u64 \<times> addr \<times> kbuf" where
  "keyboard_close b = (1, NULL, kb_reset b)"

definition KEY_CMD_RESET_BUFFER :: u64 where "KEY_CMD_RESET_BUFFER = 0"

definition keyboard_ioctl :: "u64 \<Rightarrow> u64 \<Rightarrow> kbuf \<Rightarrow> u64 \<times> kbuf" where
  "keyboard_ioctl cmd arg b = (0, if cmd = KEY_CMD_RESET_BUFFER then kb_reset b else b)"

text \<open>\<open>keyboard_read\<close> up to the point where the caller sleeps, and from where it runs on.  The
  buffer of the caller is at the user address \<open>ubase\<close> and holds \<open>ub\<close>.\<close>

definition keyboard_read_wait :: "addr \<Rightarrow> addr \<Rightarrow> kbuf \<Rightarrow> ksched \<Rightarrow> ksched option" where
  "keyboard_read_wait q w b s = (if kcount b = 0 then sleep_on w q s else Some s)"

definition copy_out :: "addr \<Rightarrow> (nat \<Rightarrow> u8) \<Rightarrow> nat \<Rightarrow> (nat \<Rightarrow> u8) \<Rightarrow> nat \<Rightarrow> u8" where
  "copy_out ubase src n ub =
     (if verify_area ubase (word_of_nat n) then (\<lambda>i. if i < n then src i else ub i) else ub)"

definition read_counter :: "kbuf \<Rightarrow> u64 \<Rightarrow> u64" where
  "read_counter b cnt =
     (if word_of_int (kcount b) \<ge> cnt then cnt else word_of_int (kcount b))"

definition keyboard_read :: "addr \<Rightarrow> u64 \<Rightarrow> kbuf \<Rightarrow> (nat \<Rightarrow> u8) \<Rightarrow> u64 \<times> kbuf \<times> (nat \<Rightarrow> u8)" where
  "keyboard_read ubase cnt b ub =
     (let counter = read_counter b cnt; n = sint counter; tail = p_tail b;
          room = int KB_BUF_SIZE - int tail;
          (b, ub) =
            (if n \<le> room
             then (b\<lparr>p_tail := p_tail b + nat n\<rparr>, copy_out ubase (\<lambda>i. kbytes b (tail + i)) (nat n) ub)
             else let ub = copy_out ubase (\<lambda>i. kbytes b (tail + i)) (nat room) ub;
                      ub = copy_out ubase (\<lambda>i. kbytes b (p_head b + i)) (nat (n - room)) ub
                  in (b\<lparr>p_tail := p_head b + nat (n - room)\<rparr>, ub))
      in (counter, b\<lparr>kcount := kcount b - n\<rparr>, ub))"

definition keyboard_write :: "kbuf \<Rightarrow> u64 \<times> kbuf" where
  "keyboard_write b = (0, b)"

section \<open>The mouse\<close>

definition mouse_handler :: "u8 \<Rightarrow> kbuf \<Rightarrow> kbuf" where
  "mouse_handler x b = kb_put x b"

text \<open>\<^const>\<open>None\<close>: the loop waits for a byte.\<close>

definition get_mousecode :: "kbuf \<Rightarrow> (u8 \<times> kbuf) option" where
  "get_mousecode b =
     (if kcount b = 0 then None
      else let b = (if p_tail b = KB_BUF_SIZE then b\<lparr>p_tail := 0\<rparr> else b);
               ret = kbytes b (p_tail b);
               b = b\<lparr>kcount := kcount b - 1\<rparr>
           in Some (ret, b\<lparr>p_tail := p_tail b + 1\<rparr>))"

record mouse_packet =
  mouse_count :: int
  Byte0 :: u8
  Byte1 :: int
  Byte2 :: int

definition mouse_byte :: "u8 \<Rightarrow> mouse_packet \<Rightarrow> mouse_packet" where
  "mouse_byte x p =
     (if mouse_count p = 0 then p\<lparr>mouse_count := mouse_count p + 1\<rparr>
      else if mouse_count p = 1 then p\<lparr>Byte0 := x, mouse_count := mouse_count p + 1\<rparr>
      else if mouse_count p = 2 then p\<lparr>Byte1 := sint x, mouse_count := mouse_count p + 1\<rparr>
      else if mouse_count p = 3 then p\<lparr>Byte2 := sint x, mouse_count := 1\<rparr>
      else p)"

definition analysis_mousecode :: "kbuf \<times> mouse_packet \<Rightarrow> (kbuf \<times> mouse_packet) option" where
  "analysis_mousecode = (\<lambda>(b, p). do { (x, b) \<leftarrow> get_mousecode b; Some (b, mouse_byte x p) })"

section \<open>Bounded queues\<close>

text \<open>The contract of a bounded queue: what its readers rely on.\<close>

locale fifo =
  fixes enq :: "'x \<Rightarrow> 'q \<Rightarrow> 'q"
    and deq :: "'q \<Rightarrow> ('x \<times> 'q) option"
    and items :: "'q \<Rightarrow> 'x list"
    and wf :: "'q \<Rightarrow> bool"
    and cap :: nat
  assumes enq_items: "wf q \<Longrightarrow> length (items q) < cap \<Longrightarrow> items (enq x q) = items q @ [x]"
    and enq_wf: "wf q \<Longrightarrow> length (items q) < cap \<Longrightarrow> wf (enq x q)"
    and deq_empty: "wf q \<Longrightarrow> items q = [] \<Longrightarrow> deq q = None"
    and deq_items: "wf q \<Longrightarrow> items q = x # xs \<Longrightarrow> \<exists>q'. deq q = Some (x, q') \<and> items q' = xs \<and> wf q'"
begin

fun drain :: "nat \<Rightarrow> 'q \<Rightarrow> ('x list \<times> 'q) option" where
  "drain 0 q = Some ([], q)"
| "drain (Suc n) q = (case deq q of None \<Rightarrow> None
     | Some (x, q) \<Rightarrow> map_option (\<lambda>(xs, q). (x # xs, q)) (drain n q))"

lemma feed:
  "wf q \<Longrightarrow> length (items q) + length xs \<le> cap \<Longrightarrow>
   items (fold enq xs q) = items q @ xs \<and> wf (fold enq xs q)"
proof (induction xs arbitrary: q)
  case (Cons x xs)
  then have "items (enq x q) = items q @ [x]" "wf (enq x q)"
    by (auto intro: enq_items enq_wf)
  with Cons.IH [of "enq x q"] Cons.prems show ?case by simp
qed simp

lemma drain_items:
  "wf q \<Longrightarrow> items q = xs @ ys \<Longrightarrow> \<exists>q'. drain (length xs) q = Some (xs, q') \<and> items q' = ys \<and> wf q'"
proof (induction xs arbitrary: q)
  case (Cons x xs)
  then obtain q' where q': "deq q = Some (x, q')" "items q' = xs @ ys" "wf q'"
    using deq_items [of q x "xs @ ys"] by auto
  from Cons.IH [OF q'(3,2)] q'(1) show ?case by auto
qed simp

text \<open>What is put into the queue comes out of it in the same order.\<close>

lemma feed_drain:
  assumes "wf q" and "length (items q) + length xs \<le> cap"
  shows "\<exists>q'. drain (length (items q) + length xs) (fold enq xs q) = Some (items q @ xs, q') \<and>
     items q' = [] \<and> wf q'"
  using feed [OF assms] drain_items [of "fold enq xs q" "items q @ xs" "[]"] by simp

end

section \<open>The ring is a queue\<close>

definition ring_ok :: "kbuf \<Rightarrow> bool" where
  "ring_ok b \<longleftrightarrow> p_head b \<le> KB_BUF_SIZE \<and> p_tail b \<le> KB_BUF_SIZE \<and> 0 \<le> kcount b \<and> kcount b \<le> int KB_BUF_SIZE \<and>
     (p_tail b + nat (kcount b)) mod KB_BUF_SIZE = p_head b mod KB_BUF_SIZE"

definition ring_items :: "kbuf \<Rightarrow> u8 list" where
  "ring_items b = map (\<lambda>i. kbytes b ((p_tail b + i) mod KB_BUF_SIZE)) [0..<nat (kcount b)]"

lemma length_ring_items [simp]: "length (ring_items b) = nat (kcount b)"
  by (simp add: ring_items_def)

lemma kb_put_mod:
  "p_head b \<le> KB_BUF_SIZE \<Longrightarrow> kb_put x b = b\<lparr>kbytes := (kbytes b)(p_head b mod KB_BUF_SIZE := x),
     kcount := kcount b + 1, p_head := p_head b mod KB_BUF_SIZE + 1\<rparr>"
  by (auto simp: kb_put_def Let_def KB_BUF_SIZE_def)

lemma put_ok:
  assumes "ring_ok b" and "length (ring_items b) < KB_BUF_SIZE"
  shows "ring_ok (kb_put x b)" and "ring_items (kb_put x b) = ring_items b @ [x]"
proof -
  define n where "n = nat (kcount b)"
  have k: "kcount b = int n" using assms(1) by (simp add: ring_ok_def n_def)
  have n: "n < KB_BUF_SIZE" using assms(2) by (simp add: n_def)
  have hd: "(p_tail b + n) mod KB_BUF_SIZE = p_head b mod KB_BUF_SIZE"
    using assms(1) by (simp add: ring_ok_def n_def)
  have h: "p_head b \<le> KB_BUF_SIZE" using assms(1) by (simp add: ring_ok_def)
  note put = kb_put_mod [OF h, of x]
  have "(p_tail b + Suc n) mod KB_BUF_SIZE = (p_head b mod KB_BUF_SIZE + 1) mod KB_BUF_SIZE"
    using hd by (metis add_Suc_right mod_Suc_eq Suc_eq_plus1)
  moreover have "p_head b mod KB_BUF_SIZE + 1 \<le> KB_BUF_SIZE"
    by (simp add: KB_BUF_SIZE_def Suc_leI)
  ultimately show "ring_ok (kb_put x b)"
    using assms(1) n k by (simp add: ring_ok_def put nat_add_distrib)
  have ne: "(p_tail b + i) mod KB_BUF_SIZE \<noteq> p_head b mod KB_BUF_SIZE" if "i < n" for i
  proof
    assume "(p_tail b + i) mod KB_BUF_SIZE = p_head b mod KB_BUF_SIZE"
    then have "(p_tail b + i) mod KB_BUF_SIZE = (p_tail b + n) mod KB_BUF_SIZE" using hd by simp
    then have "i mod KB_BUF_SIZE = n mod KB_BUF_SIZE" by (simp add: mod_add_left_eq nat_mod_eq_iff)
    with that n show False by simp
  qed
  show "ring_items (kb_put x b) = ring_items b @ [x]"
    by (simp add: ring_items_def put k nat_add_distrib hd) (simp add: ne)
qed

lemma get_ok:
  assumes "ring_ok b" and "ring_items b = x # xs"
  shows "\<exists>b'. get_mousecode b = Some (x, b') \<and> ring_items b' = xs \<and> ring_ok b'"
proof -
  have "nat (kcount b) \<noteq> 0" using assms(2) by (metis length_ring_items length_0_conv list.discI)
  then obtain n where k: "kcount b = int (Suc n)" by (metis not0_implies_Suc int_nat_eq nat_eq_iff2)
  let ?t = "p_tail b mod KB_BUF_SIZE"
  have t: "(if p_tail b = KB_BUF_SIZE then b\<lparr>p_tail := 0\<rparr> else b) = b\<lparr>p_tail := ?t\<rparr>"
    using assms(1) by (auto simp: ring_ok_def KB_BUF_SIZE_def)
  have g: "get_mousecode b = Some (kbytes b ?t, b\<lparr>p_tail := ?t + 1, kcount := int n\<rparr>)"
    unfolding get_mousecode_def Let_def t by (simp add: k)
  have items: "ring_items b = kbytes b ?t # map (\<lambda>i. kbytes b ((p_tail b + Suc i) mod KB_BUF_SIZE)) [0..<n]"
    by (simp add: ring_items_def k nat_add_distrib upt_conv_Cons map_Suc_upt [symmetric] del: upt_Suc)
  have "(?t + 1 + i) mod KB_BUF_SIZE = (p_tail b + Suc i) mod KB_BUF_SIZE" for i
    using mod_add_left_eq [of "p_tail b" KB_BUF_SIZE "Suc i"] by simp
  then have "ring_items (b\<lparr>p_tail := ?t + 1, kcount := int n\<rparr>) = xs"
    using items assms(2) by (simp add: ring_items_def)
  moreover have "(?t + 1 + n) mod KB_BUF_SIZE = p_head b mod KB_BUF_SIZE"
    using assms(1) mod_add_left_eq [of "p_tail b" KB_BUF_SIZE "Suc n"]
    by (simp add: ring_ok_def k nat_add_distrib)
  then have "ring_ok (b\<lparr>p_tail := ?t + 1, kcount := int n\<rparr>)"
    using assms(1) by (simp add: ring_ok_def k) (simp add: KB_BUF_SIZE_def Suc_leI)
  ultimately show ?thesis using g items assms(2) by auto
qed

lemma get_empty: "ring_ok b \<Longrightarrow> ring_items b = [] \<Longrightarrow> get_mousecode b = None"
  by (simp add: ring_ok_def ring_items_def get_mousecode_def)

interpretation mq: fifo mouse_handler get_mousecode ring_items ring_ok KB_BUF_SIZE
  by unfold_locales (simp_all add: mouse_handler_def put_ok get_ok get_empty)

section \<open>Properties\<close>

definition demo_kbuf :: kbuf where
  "demo_kbuf = kb_reset \<lparr>p_head = 0, p_tail = 0, kcount = 0, kbytes = \<lambda>_. 0\<rparr>"

lemma demo_kbuf_ok: "ring_ok demo_kbuf \<and> ring_items demo_kbuf = []"
  by (simp add: demo_kbuf_def kb_reset_def ring_ok_def ring_items_def)

text \<open>The mouse ring is a first-in first-out queue: as long as it does not overflow, reading
  as many bytes as it holds after any sequence of interrupts returns all bytes in the order they
  arrived, across the end of the buffer.\<close>

theorem mouse_ring_fifo:
  assumes "ring_ok b" and "length (ring_items b) + length xs \<le> KB_BUF_SIZE"
  shows "\<exists>b'. mq.drain (length (ring_items b) + length xs) (fold mouse_handler xs b) =
     Some (ring_items b @ xs, b') \<and> ring_items b' = [] \<and> ring_ok b'"
  by (rule mq.feed_drain [OF assms])

theorem mouse_ring_fifo_witness:
  "\<exists>b'. mq.drain 3 (fold mouse_handler [8, 1, 2] demo_kbuf) = Some ([8, 1, 2], b')"
  using mouse_ring_fifo [of demo_kbuf "[8, 1, 2]"] demo_kbuf_ok
  by (auto simp: KB_BUF_SIZE_def numeral_3_eq_3 simp del: mq.drain.simps)

lemma read_counter_1: "ring_ok b \<Longrightarrow> 0 < kcount b \<Longrightarrow> read_counter b 1 = 1"
proof -
  assume b: "ring_ok b" "0 < kcount b"
  then have "uint (word_of_int (kcount b) :: u64) = kcount b"
    by (simp add: ring_ok_def KB_BUF_SIZE_def uint_word_of_int)
  with b(2) show ?thesis by (simp add: read_counter_def word_le_def)
qed

text \<open>\<open>keyboard_read\<close> of one byte: while the tail is inside the buffer the caller receives
  the oldest byte and the ring holds the others; when the tail has reached the end of the buffer the
  caller receives the byte at the head, whatever is there, instead of the oldest one at offset 0, and
  the tail is left behind the head.\<close>

theorem keyboard_read_one:
  assumes "ring_ok b" and "0 < kcount b" and "verify_area ubase 0" and "verify_area ubase 1"
  shows "\<exists>b' ub'. keyboard_read ubase 1 b ub = (1, b', ub') \<and>
     (p_tail b < KB_BUF_SIZE \<longrightarrow> ub' 0 = hd (ring_items b) \<and> ring_items b' = tl (ring_items b) \<and> ring_ok b') \<and>
     (p_tail b = KB_BUF_SIZE \<longrightarrow> ub' 0 = kbytes b (p_head b) \<and> hd (ring_items b) = kbytes b 0 \<and>
        p_tail b' = p_head b' + 1)"
proof -
  note c = read_counter_1 [OF assms(1,2)]
  obtain n where k: "kcount b = int (Suc n)"
    using assms(2) by (metis gr0_implies_Suc int_nat_eq nat_eq_iff2 zero_less_nat_eq order_less_imp_le)
  have items: "ring_items b = kbytes b (p_tail b mod KB_BUF_SIZE) #
      map (\<lambda>i. kbytes b ((p_tail b + Suc i) mod KB_BUF_SIZE)) [0..<n]"
    by (simp add: ring_items_def k nat_add_distrib upt_conv_Cons map_Suc_upt [symmetric] del: upt_Suc)
  show ?thesis
  proof (cases "p_tail b = KB_BUF_SIZE")
    case True
    have "keyboard_read ubase 1 b ub = (1, b\<lparr>p_tail := p_head b + 1, kcount := kcount b - 1\<rparr>,
        copy_out ubase (\<lambda>i. kbytes b (p_head b + i)) 1 (copy_out ubase (\<lambda>i. kbytes b (p_tail b + i)) 0 ub))"
      using True by (simp add: keyboard_read_def c Let_def)
    with True assms(4) items show ?thesis by (auto simp: copy_out_def KB_BUF_SIZE_def)
  next
    case False
    then have t: "p_tail b < KB_BUF_SIZE" using assms(1) by (simp add: ring_ok_def)
    have r: "keyboard_read ubase 1 b ub = (1, b\<lparr>p_tail := p_tail b + 1, kcount := kcount b - 1\<rparr>,
        copy_out ubase (\<lambda>i. kbytes b (p_tail b + i)) 1 ub)"
      using t by (simp add: keyboard_read_def c Let_def)
    have "ring_items (b\<lparr>p_tail := p_tail b + 1, kcount := kcount b - 1\<rparr>) = tl (ring_items b)"
      unfolding items by (simp add: ring_items_def k)
    moreover have "ring_ok (b\<lparr>p_tail := p_tail b + 1, kcount := kcount b - 1\<rparr>)"
      using assms(1) t by (simp add: ring_ok_def k nat_add_distrib)
    ultimately show ?thesis using r t assms(4) items by (simp add: copy_out_def)
  qed
qed

theorem keyboard_read_one_witness:
  "\<exists>b' ub'. keyboard_read 0x1000 1 (kb_put 0x1c (demo_kbuf\<lparr>p_head := 100, p_tail := 100\<rparr>)) (\<lambda>_. 9) = (1, b', ub') \<and>
     ub' 0 = 0 \<and> p_tail b' = 2 \<and> p_head b' = 1"
proof -
  let ?b = "kb_put 0x1c (demo_kbuf\<lparr>p_head := 100, p_tail := 100\<rparr>)"
  have b: "?b = demo_kbuf\<lparr>p_head := 1, p_tail := 100, kcount := 1, kbytes := (kbytes demo_kbuf)(0 := 0x1c)\<rparr>"
    by (simp add: kb_put_def demo_kbuf_def kb_reset_def Let_def KB_BUF_SIZE_def)
  have "ring_ok ?b" "0 < kcount ?b" "p_tail ?b = KB_BUF_SIZE" "kbytes ?b (p_head ?b) = 0"
    unfolding b by (simp_all add: ring_ok_def KB_BUF_SIZE_def demo_kbuf_def kb_reset_def)
  moreover have "p_head (fst (snd (keyboard_read 0x1000 1 ?b ub))) = p_head ?b" for ub
    by (simp add: keyboard_read_def Let_def split: if_splits)
  ultimately show ?thesis
    using keyboard_read_one [of ?b "0x1000" "\<lambda>_. 9"] b
    by (auto simp: verify_area_def) (metis fst_conv snd_conv)
qed

end
