(* ===== verification/Sys.thy ===== *)
theory Sys
  imports Vfs Keyboard Paging
begin

unbundle bit_operations_syntax

text \<open>
  The system calls on files and on the heap, \<open>src/sys.c\<close>.  \<open>g_file_struct\<close> is the one table of
  open files, shared by all tasks; its element 10 stands for the word after the array.  A call of an
  operation of a null file is a fault.  What other code does while a reader of the keyboard sleeps is
  the parameter \<open>woken\<close>: the ring it finds when it runs on.  \<open>private_data\<close> of a file is written
  by the keyboard and never read; it is left out.  \<open>int\<close> arguments are 32-bit words, tested as signed.
\<close>

definition O_TRUNC :: u64 where "O_TRUNC = 0x200"
definition O_APPEND :: u64 where "O_APPEND = 0x400"
definition O_DIRECTORY :: u32 where "O_DIRECTORY = 0x4000"
definition SEEK_MAX :: int where "SEEK_MAX = 3"

record ksys =
  fs :: vfs
  g_file_struct :: "nat \<Rightarrow> addr"
  kb :: kbuf
  p_kb :: addr

definition no_system_call :: u64 where "no_system_call = - ENOSYS"

section \<open>The operations of a file\<close>

text \<open>A missing operation is \<^const>\<open>None\<close> in \<open>f_ops->open\<close> and leaves the result 0 elsewhere.\<close>

definition call_open :: "file_operations \<Rightarrow> ksys \<Rightarrow> u64 \<times> ksys" where
  "call_open ops s =
     (case ops of
        No_file_ops \<Rightarrow> (0, s)
      | FAT32_file_ops \<Rightarrow> (FAT32_open, s)
      | keyboard_fops \<Rightarrow> let (r, _, b) = keyboard_open (p_kb s) (kb s) in (r, s\<lparr>kb := b\<rparr>))"

definition call_close :: "file_operations \<Rightarrow> ksys \<Rightarrow> ksys" where
  "call_close ops s =
     (case ops of keyboard_fops \<Rightarrow> let (_, _, b) = keyboard_close (kb s) in s\<lparr>kb := b\<rparr> | _ \<Rightarrow> s)"

definition read_keyboard :: "(kbuf \<Rightarrow> kbuf) \<Rightarrow> addr \<Rightarrow> u64 \<Rightarrow> ksys \<Rightarrow> u64 \<times> ksys" where
  "read_keyboard woken buf cnt s =
     (let b = (if kcount (kb s) = 0 then woken (kb s) else kb s);
          (r, b, ub) = keyboard_read buf cnt b (\<lambda>i. vmem (fs s) (buf + word_of_nat i));
          m = (\<lambda>a. ub (unat (a - buf)))
      in (r, s\<lparr>kb := b, fs := (fs s)\<lparr>vmem := m\<rparr>\<rparr>))"

text \<open>\<open>&filp->position\<close> is passed to \<open>read\<close> and \<open>write\<close>.\<close>

definition file_rw ::
    "(addr \<Rightarrow> addr \<Rightarrow> u64 \<Rightarrow> u64 \<Rightarrow> vfs \<Rightarrow> (u64 \<times> u64 \<times> vfs) option) \<Rightarrow> addr \<Rightarrow> addr \<Rightarrow> u64 \<Rightarrow> ksys \<Rightarrow> (u64 \<times> ksys) option" where
  "file_rw f filp buf cnt s = do {
     (r, pos, v) \<leftarrow> f filp buf cnt (f_position (files (fs s) filp)) (fs s);
     Some (r, s\<lparr>fs := upd_file filp (\<lambda>x. x\<lparr>f_position := pos\<rparr>) v\<rparr>)
   }"

definition call_read :: "(kbuf \<Rightarrow> kbuf) \<Rightarrow> addr \<Rightarrow> addr \<Rightarrow> u64 \<Rightarrow> ksys \<Rightarrow> (u64 \<times> ksys) option" where
  "call_read woken filp buf cnt s =
     (case f_f_ops (files (fs s) filp) of
        No_file_ops \<Rightarrow> Some (0, s)
      | FAT32_file_ops \<Rightarrow> file_rw FAT32_read filp buf cnt s
      | keyboard_fops \<Rightarrow> Some (read_keyboard woken buf cnt s))"

definition call_write :: "addr \<Rightarrow> addr \<Rightarrow> u64 \<Rightarrow> ksys \<Rightarrow> (u64 \<times> ksys) option" where
  "call_write filp buf cnt s =
     (case f_f_ops (files (fs s) filp) of
        No_file_ops \<Rightarrow> Some (0, s)
      | FAT32_file_ops \<Rightarrow> file_rw FAT32_write filp buf cnt s
      | keyboard_fops \<Rightarrow> let (r, b) = keyboard_write (kb s) in Some (r, s\<lparr>kb := b\<rparr>))"

definition call_lseek :: "addr \<Rightarrow> u64 \<Rightarrow> u64 \<Rightarrow> ksys \<Rightarrow> u64 \<times> ksys" where
  "call_lseek filp offset whence s =
     (case f_f_ops (files (fs s) filp) of
        FAT32_file_ops \<Rightarrow> let (r, v) = FAT32_lseek filp offset whence (fs s) in (r, s\<lparr>fs := v\<rparr>)
      | _ \<Rightarrow> (0, s))"

section \<open>Opening a file\<close>

text \<open>The copy of the path of the user, which \<open>sys_open\<close>, \<open>sys_chdir\<close> and \<open>sys_execve\<close> start with:
  an error or the address of the copy.\<close>

definition get_path :: "addr \<Rightarrow> vfs \<Rightarrow> ((u64 + addr) \<times> vfs) option" where
  "get_path filename s = do {
     (path, s) \<leftarrow> get_object s;
     if path = NULL then Some (Inl (- ENOMEM), s)
     else
       let s = s\<lparr>vmem := snd (memset path 0 0x1000 (vmem s))\<rparr>;
           pathlen = strnlen_user filename 0x1000 (vmem s)
       in if sint pathlen \<le> 0 then Some (Inl (- EFAULT), put_object path s)
          else if sint pathlen \<ge> 0x1000 then Some (Inl (- ENAMETOOLONG), put_object path s)
          else Some (Inr path, s\<lparr>vmem := snd (strncpy_from_user filename path pathlen (vmem s))\<rparr>)
   }"

definition attr_of :: "addr \<Rightarrow> vfs \<Rightarrow> u64" where
  "attr_of dentry s = index_node.attribute (inodes s (dir_inode (dentries s dentry)))"

definition apply_mode :: "addr \<Rightarrow> vfs \<Rightarrow> vfs" where
  "apply_mode filp v =
     (let ip = inode_of filp v;
          v = (if f_mode (files v filp) AND O_TRUNC \<noteq> 0 then upd_inode ip (\<lambda>x. x\<lparr>file_size := 0\<rparr>) v else v)
      in if f_mode (files v filp) AND O_APPEND \<noteq> 0
         then upd_file filp (\<lambda>x. x\<lparr>f_position := file_size (inodes v ip)\<rparr>) v else v)"

text \<open>The descriptor is the first free element of the table.\<close>

definition install_fd :: "addr \<Rightarrow> ksys \<Rightarrow> u64 \<times> ksys" where
  "install_fd filp s =
     (case find (\<lambda>i. g_file_struct s i = NULL) [0..<TASK_FILE_MAX] of
        None \<Rightarrow> (- EMFILE, s\<lparr>fs := put_object filp (fs s)\<rparr>)
      | Some fd \<Rightarrow> (word_of_nat fd, s\<lparr>g_file_struct := (g_file_struct s)(fd := filp)\<rparr>))"

definition open_file :: "addr \<Rightarrow> u32 \<Rightarrow> ksys \<Rightarrow> (u64 \<times> ksys) option" where
  "open_file dentry flags s = do {
     (filp, v) \<leftarrow> get_nonnull (fs s);
     let ip = dir_inode (dentries v dentry);
     let ops = (if attr_of dentry v AND FS_ATTR_DEVICE \<noteq> 0 then keyboard_fops else i_f_ops (inodes v ip));
     let v = upd_file filp (\<lambda>_. \<lparr>f_position = 0, f_mode = scast flags, f_dentry = dentry, f_f_ops = ops\<rparr>) v;
     let (error, s) = call_open ops (s\<lparr>fs := v\<rparr>);
     if error \<noteq> 1 then Some (- EFAULT, s\<lparr>fs := put_object filp (fs s)\<rparr>)
     else Some (install_fd filp (s\<lparr>fs := apply_mode filp (fs s)\<rparr>))
   }"

definition sys_open :: "addr \<Rightarrow> u32 \<Rightarrow> ksys \<Rightarrow> (u64 \<times> ksys) option" where
  "sys_open filename flags s = do {
     (r, v) \<leftarrow> get_path filename (fs s);
     case r of
       Inl e \<Rightarrow> Some (e, s\<lparr>fs := v\<rparr>)
     | Inr path \<Rightarrow> do {
         (dentry, v) \<leftarrow> path_walk path 0 v;
         let s = s\<lparr>fs := v\<rparr>;
         if dentry = NULL then Some (- ENOENT, s)
         else if flags AND O_DIRECTORY \<noteq> 0 \<and> attr_of dentry v \<noteq> FS_ATTR_DIR then Some (- ENOTDIR, s)
         else if flags AND O_DIRECTORY = 0 \<and> attr_of dentry v = FS_ATTR_DIR then Some (- EISDIR, s)
         else open_file dentry flags (s\<lparr>fs := put_object path v\<rparr>)
       }
   }"

definition sys_chdir :: "addr \<Rightarrow> vfs \<Rightarrow> (u64 \<times> vfs) option" where
  "sys_chdir filename s = do {
     (r, s) \<leftarrow> get_path filename s;
     case r of
       Inl e \<Rightarrow> Some (e, s)
     | Inr path \<Rightarrow> do {
         (dentry, s) \<leftarrow> path_walk path 0 s;
         let s = put_object path s;
         Some (if dentry = NULL then - ENOENT else if attr_of dentry s \<noteq> FS_ATTR_DIR then - ENOTDIR else 0, s)
       }
   }"

section \<open>Calls on a descriptor\<close>

definition bad_fd :: "u32 \<Rightarrow> bool" where
  "bad_fd fd \<longleftrightarrow> sint fd < 0 \<or> sint fd \<ge> int TASK_FILE_MAX"

definition sys_close :: "u32 \<Rightarrow> ksys \<Rightarrow> (u64 \<times> ksys) option" where
  "sys_close fd s =
     (if bad_fd fd then Some (- EBADF, s)
      else let filp = g_file_struct s (unat fd)
           in if filp = NULL then None
              else let s = call_close (f_f_ops (files (fs s) filp)) s
                   in Some (0, s\<lparr>fs := put_object filp (fs s), g_file_struct := (g_file_struct s)(unat fd := NULL)\<rparr>))"

definition sys_read :: "(kbuf \<Rightarrow> kbuf) \<Rightarrow> u32 \<Rightarrow> addr \<Rightarrow> u64 \<Rightarrow> ksys \<Rightarrow> (u64 \<times> ksys) option" where
  "sys_read woken fd buf cnt s =
     (if bad_fd fd then Some (- EBADF, s)
      else if sint cnt < 0 then Some (- EINVAL, s)
      else let filp = g_file_struct s (unat fd)
           in if filp = NULL then Some (- 1, s) else call_read woken filp buf cnt s)"

definition sys_write :: "u32 \<Rightarrow> addr \<Rightarrow> u64 \<Rightarrow> ksys \<Rightarrow> (u64 \<times> ksys) option" where
  "sys_write fd buf cnt s =
     (if bad_fd fd then Some (- EBADF, s)
      else if sint cnt < 0 then Some (- EINVAL, s)
      else let filp = g_file_struct s (unat fd)
           in if filp = NULL then None else call_write filp buf cnt s)"

definition sys_lseek :: "u32 \<Rightarrow> u64 \<Rightarrow> u32 \<Rightarrow> ksys \<Rightarrow> (u64 \<times> ksys) option" where
  "sys_lseek fd offset whence s =
     (if bad_fd fd then Some (- EBADF, s)
      else if sint whence < 0 \<or> sint whence \<ge> SEEK_MAX then Some (- EINVAL, s)
      else let filp = g_file_struct s (unat fd)
           in if filp = NULL then None else Some (call_lseek filp offset (scast whence) s))"

definition sys_getdents :: "u32 \<Rightarrow> addr \<Rightarrow> u64 \<Rightarrow> ksys \<Rightarrow> (u64 \<times> ksys) option" where
  "sys_getdents fd dirent cnt s =
     (if sint fd < 0 \<or> sint fd > int TASK_FILE_MAX then Some (- EBADF, s)
      else if sint cnt < 0 then Some (- EINVAL, s)
      else let filp = g_file_struct s (unat fd)
           in if filp = NULL then None
              else case f_f_ops (files (fs s) filp) of
                FAT32_file_ops \<Rightarrow> do {
                  (r, v) \<leftarrow> FAT32_readdir filp dirent fill_dentry (fs s);
                  Some (r, s\<lparr>fs := v\<rparr>)
                }
              | _ \<Rightarrow> Some (0, s))"

section \<open>The heap and the machine\<close>

text \<open>The result and the new \<open>end_brk\<close>.\<close>

definition sys_brk :: "u64 \<Rightarrow> u64 \<Rightarrow> u64 \<Rightarrow> u64 \<Rightarrow> vmem \<Rightarrow> (u64 \<times> u64 \<times> vmem) option" where
  "sys_brk pgd start end_brk brk s =
     (let new_brk = PAGE_2M_ALIGN brk
      in if new_brk = 0 then Some (start, end_brk, s)
         else if new_brk < end_brk then Some (0, end_brk, s)
         else do {
           (new_brk, _, s) \<leftarrow> do_brk pgd end_brk (new_brk - end_brk) end_brk s;
           Some (new_brk, new_brk, s)
         })"

definition SYSTEM_REBOOT :: u64 where "SYSTEM_REBOOT = 1"

text \<open>The port writes of a reboot.\<close>

definition sys_reboot :: "u64 \<Rightarrow> u64 \<times> (u16 \<times> u8) list" where
  "sys_reboot cmd = (0, if cmd = SYSTEM_REBOOT then [(0x64, 0xfe)] else [])"

section \<open>What the parts of an open leave alone\<close>

lemma call_open_frame:
  "g_file_struct (snd (call_open ops s)) = g_file_struct s \<and> fs (snd (call_open ops s)) = fs s"
  by (cases ops) (simp_all add: call_open_def keyboard_open_def)

lemma apply_mode_frame:
  "f_mode (files (apply_mode filp v) a) = f_mode (files v a)"
  "f_dentry (files (apply_mode filp v) a) = f_dentry (files v a)"
  by (simp_all add: apply_mode_def upd_file_def upd_inode_def Let_def)

text \<open>The descriptor \<open>fd\<close> was free, and only it is set.\<close>

definition installed :: "nat \<Rightarrow> addr \<Rightarrow> ksys \<Rightarrow> ksys \<Rightarrow> bool" where
  "installed fd filp s s' \<longleftrightarrow> fd < TASK_FILE_MAX \<and> g_file_struct s fd = NULL \<and>
     (\<forall>i < fd. g_file_struct s i \<noteq> NULL) \<and> filp \<noteq> NULL \<and>
     g_file_struct s' = (g_file_struct s)(fd := filp)"

lemma install_fd_cases:
  assumes "install_fd filp s = (r, s')" and "filp \<noteq> NULL"
  shows "(\<exists>fd. r = word_of_nat fd \<and> installed fd filp s s' \<and> fs s' = fs s) \<or>
     r = - EMFILE \<and> g_file_struct s' = g_file_struct s \<and> (\<forall>i < TASK_FILE_MAX. g_file_struct s i \<noteq> NULL)"
proof (cases "find (\<lambda>i. g_file_struct s i = NULL) [0..<TASK_FILE_MAX]")
  case None
  then have "\<forall>i < TASK_FILE_MAX. g_file_struct s i \<noteq> NULL" using find_upt_None [of _ 0] by auto
  with None assms(1) show ?thesis by (auto simp: install_fd_def)
next
  case (Some fd)
  from find_upt_Some [OF Some] assms Some show ?thesis
    by (auto simp: install_fd_def installed_def)
qed

lemma open_file_cases:
  assumes "open_file dentry flags s = Some (r, s')"
  shows "(\<exists>fd filp. r = word_of_nat fd \<and> installed fd filp s s' \<and> f_mode (files (fs s') filp) = scast flags \<and>
       f_dentry (files (fs s') filp) = dentry) \<or>
     r \<in> {- EFAULT, - EMFILE} \<and> g_file_struct s' = g_file_struct s"
proof -
  obtain filp v where o: "get_nonnull (fs s) = Some (filp, v)" using assms by (auto simp: open_file_def bind_eq_Some_conv)
  then have nn: "filp \<noteq> NULL" by (auto simp: get_nonnull_Some)
  define ops where "ops = (if attr_of dentry v AND FS_ATTR_DEVICE \<noteq> 0 then keyboard_fops
    else i_f_ops (inodes v (dir_inode (dentries v dentry))))"
  define v1 where "v1 = upd_file filp (\<lambda>_. \<lparr>f_position = 0, f_mode = scast flags, f_dentry = dentry, f_f_ops = ops\<rparr>) v"
  obtain e s1 where c: "call_open ops (s\<lparr>fs := v1\<rparr>) = (e, s1)" by fastforce
  have f: "g_file_struct s1 = g_file_struct s" "fs s1 = v1" using call_open_frame [of ops "s\<lparr>fs := v1\<rparr>"] c by simp_all
  show ?thesis
  proof (cases "e = 1")
    case False
    with assms o c f(1) show ?thesis
      by (auto simp: open_file_def Let_def ops_def [symmetric] v1_def [symmetric])
  next
    case True
    with assms o c f(2) have "install_fd filp (s1\<lparr>fs := apply_mode filp v1\<rparr>) = (r, s')"
      by (auto simp: open_file_def Let_def ops_def [symmetric] v1_def [symmetric])
    moreover have "f_mode (files (apply_mode filp v1) filp) = scast flags"
      "f_dentry (files (apply_mode filp v1) filp) = dentry"
      by (simp_all add: apply_mode_frame) (simp_all add: v1_def upd_file_def)
    ultimately show ?thesis using install_fd_cases [OF _ nn] f(1) by (fastforce simp: installed_def)
  qed
qed

lemma get_path_error:
  "get_path filename v = Some (Inl e, v') \<Longrightarrow> e \<in> {- ENOMEM, - EFAULT, - ENAMETOOLONG}"
  by (auto simp: get_path_def bind_eq_Some_conv Let_def split: if_splits)

lemma align_2M:
  assumes "0 < unat b" and "unat b \<le> 2 ^ 64 - 2 ^ 21"
  shows "2 ^ 21 \<le> unat (PAGE_2M_ALIGN b) \<and> unat (PAGE_2M_ALIGN b) \<le> 2 ^ 64 - 2 ^ 21"
proof -
  let ?x = "b + mask 21"
  have m: "(0x1fffff :: u64) = mask 21" by (simp add: mask_eq_exp_minus_1)
  have "PAGE_2M_ALIGN b = push_bit 21 (drop_bit 21 ?x)"
    unfolding PAGE_2M_ALIGN_def m by (auto intro!: bit_word_eqI simp: bit_simps)
  moreover have x: "unat ?x = unat b + 2097151" using assms by (simp add: unat_word_ariths mask_eq_exp_minus_1)
  then have d: "unat (drop_bit 21 ?x) = (unat b + 2097151) div 2097152" unfolding unat_drop_bit_eq x by (simp add: drop_bit_eq_div)
  moreover have "unat (drop_bit 21 ?x) < 2 ^ 43" unfolding d using assms by (simp add: less_mult_imp_div_less)
  ultimately have "unat (PAGE_2M_ALIGN b) = ((unat b + 2097151) div 2097152) * 2097152"
    by (simp add: push_bit_eq_mult unat_word_ariths)
  moreover have "1 \<le> (unat b + 2097151) div 2097152" using assms(1) by linarith
  moreover have "(unat b + 2097151) div 2097152 \<le> 8796093022207"
  proof -
    have "unat b \<le> 18446744073707454464" using assms(2) by simp
    then show ?thesis by linarith
  qed
  ultimately show ?thesis by simp
qed

section \<open>Reading a file\<close>

text \<open>A read changes memory, the supply of addresses and the position only.\<close>

lemma read_file_frame:
  assumes v': "v' = upd_file filp (\<lambda>x. x\<lparr>f_position := p\<rparr>) (v\<lparr>vmem := m, fresh := as\<rparr>)"
  shows "volume_of filp v' = volume_of filp v" "size_of filp v' = size_of filp v" "finode_of filp v' = finode_of filp v"
    "opened v' filp cs = opened v filp cs" "img v' = img v" "live v' = live v" "vmem v' = m" "fresh v' = as"
    "f_position (files v' filp) = p" "f_f_ops (files v' filp) = f_f_ops (files v filp)"
proof -
  have i: "inode_of filp v' = inode_of filp v" by (simp add: v' inode_of_def upd_file_def)
  show o: "volume_of filp v' = volume_of filp v" "size_of filp v' = size_of filp v" "finode_of filp v' = finode_of filp v"
    "img v' = img v" unfolding volume_of_def size_of_def finode_of_def i by (simp_all add: v' upd_file_def)
  show "opened v' filp cs = opened v filp cs" unfolding opened_def o ..
  show "live v' = live v" "vmem v' = m" "fresh v' = as" "f_position (files v' filp) = p"
    "f_f_ops (files v' filp) = f_f_ops (files v filp)" by (simp_all add: v' upd_file_def)
qed

lemma read_file_call:
  assumes fd: "\<not> bad_fd fd" "g_file_struct s (unat fd) = filp" "filp \<noteq> NULL" "f_f_ops (files (fs s) filp) = FAT32_file_ops"
    and op: "opened (fs s) filp cs" and pos: "f_position (files (fs s) filp) = pos"
    and n: "unat pos + n \<le> unat (size_of filp (fs s))"
    and fresh: "fresh (fs s) = b # rest" "b \<noteq> NULL"
    and area: "area_ok u n" "areas_apart b (bpc (volume_of filp (fs s))) u n"
  shows "\<exists>m. sys_read woken fd u (word_of_nat n) s =
       Some (word_of_nat n, s\<lparr>fs := upd_file filp (\<lambda>x. x\<lparr>f_position := pos + word_of_nat n\<rparr>) ((fs s)\<lparr>vmem := m, fresh := rest\<rparr>)\<rparr>) \<and>
     (\<forall>i < n. m (u + word_of_nat i) = file_byte (volume_of filp (fs s)) (img (fs s)) cs (unat pos + i)) \<and>
     (\<forall>x. \<not> in_area b (bpc (volume_of filp (fs s))) x \<longrightarrow> \<not> in_area u n x \<longrightarrow> m x = vmem (fs s) x)"
proof -
  have small: "n < 2 ^ 31" using n op by (simp add: opened_def)
  then have c: "unat (word_of_nat n :: u64) = n" by (intro unat_of_nat_small) simp
  have sn: "\<not> sint (word_of_nat n :: u64) < 0" using sint_small_64 [of "word_of_nat n"] small c by simp
  have "n = min (unat (word_of_nat n :: u64)) (unat (size_of filp (fs s)) - unat pos)" using c n by simp
  from FAT32_read_bytes [OF op _ _ fresh this area] n small c obtain m where
    "FAT32_read filp u (word_of_nat n) pos (fs s) =
       Some (word_of_nat n, pos + word_of_nat n, (fs s)\<lparr>vmem := m, fresh := rest\<rparr>)"
    "\<forall>i < n. m (u + word_of_nat i) = file_byte (volume_of filp (fs s)) (img (fs s)) cs (unat pos + i)"
    "\<forall>x. \<not> in_area b (bpc (volume_of filp (fs s))) x \<longrightarrow> \<not> in_area u n x \<longrightarrow> m x = vmem (fs s) x" by auto
  then show ?thesis using fd pos sn by (auto simp: sys_read_def call_read_def file_rw_def)
qed

section \<open>Properties\<close>


text \<open>A closed descriptor is not guarded: closing frees the file and clears its element, after
  which a read returns -1, but a second close, a write, a seek within the accepted range and a listing
  use the null pointer.\<close>

theorem closed_descriptor_faults:
  assumes "\<not> bad_fd fd" and "g_file_struct s (unat fd) = filp" and "filp \<noteq> NULL"
    and "0 \<le> sint cnt" and "0 \<le> sint whence" and "sint whence < SEEK_MAX"
  shows "\<exists>s'. sys_close fd s = Some (0, s') \<and> g_file_struct s' = (g_file_struct s)(unat fd := NULL) \<and>
     live (fs s') = remove1 filp (live (fs s)) \<and>
     sys_read woken fd buf cnt s' = Some (- 1, s') \<and> sys_close fd s' = None \<and>
     sys_write fd buf cnt s' = None \<and> sys_lseek fd offset whence s' = None \<and> sys_getdents fd buf cnt s' = None"
proof -
  let ?s = "call_close (f_f_ops (files (fs s) filp)) s"
  have c: "g_file_struct ?s = g_file_struct s" "fs ?s = fs s"
    by (simp_all add: call_close_def keyboard_close_def split: file_operations.splits)
  have "sint fd \<le> int TASK_FILE_MAX" "0 \<le> sint fd" using assms(1) by (simp_all add: bad_fd_def)
  then show ?thesis
    using assms c by (auto simp: sys_close_def sys_read_def sys_write_def sys_lseek_def sys_getdents_def put_object_def)
qed

text \<open>C27.  Two reads of one descriptor return consecutive parts of the file: each stores the bytes
  from the position of the open file on and moves that position, so that together they deliver
  \<open>n1 + n2\<close> bytes, and the temporary buffers are freed.\<close>

theorem sys_read_twice:
  assumes fd: "\<not> bad_fd fd" "g_file_struct s (unat fd) = filp" "filp \<noteq> NULL" "f_f_ops (files (fs s) filp) = FAT32_file_ops"
    and op: "opened (fs s) filp cs" and pos: "f_position (files (fs s) filp) = pos"
    and n: "unat pos + n1 + n2 \<le> unat (size_of filp (fs s))"
    and fresh: "fresh (fs s) = b1 # b2 # rest" "b1 \<noteq> NULL" "b2 \<noteq> NULL"
    and a1: "area_ok u1 n1" "areas_apart b1 (bpc (volume_of filp (fs s))) u1 n1"
    and a2: "area_ok u2 n2" "areas_apart b2 (bpc (volume_of filp (fs s))) u2 n2"
    and keep: "areas_apart b2 (bpc (volume_of filp (fs s))) u1 n1" "areas_apart u2 n2 u1 n1"
  shows "\<exists>m s1 s2. sys_read woken fd u1 (word_of_nat n1) s = Some (word_of_nat n1, s1) \<and>
     sys_read woken fd u2 (word_of_nat n2) s1 = Some (word_of_nat n2, s2) \<and> m = vmem (fs s2) \<and>
     f_position (files (fs s2) filp) = pos + word_of_nat (n1 + n2) \<and> live (fs s2) = live (fs s) \<and>
     (\<forall>i < n1. m (u1 + word_of_nat i) = file_byte (volume_of filp (fs s)) (img (fs s)) cs (unat pos + i)) \<and>
     (\<forall>i < n2. m (u2 + word_of_nat i) = file_byte (volume_of filp (fs s)) (img (fs s)) cs (unat pos + n1 + i))"
proof -
  have small: "unat pos + n1 + n2 < 2 ^ 31" using n op by (simp add: opened_def)
  let ?v = "\<lambda>m rest p. upd_file filp (\<lambda>x. x\<lparr>f_position := p\<rparr>) ((fs s)\<lparr>vmem := m, fresh := rest\<rparr>)"
  from read_file_call [OF fd op _ _ fresh(1,2) a1, where woken = woken] pos n small obtain m1 where
    m1: "sys_read woken fd u1 (word_of_nat n1) s = Some (word_of_nat n1, s\<lparr>fs := ?v m1 (b2 # rest) (pos + word_of_nat n1)\<rparr>)"
      "\<forall>i < n1. m1 (u1 + word_of_nat i) = file_byte (volume_of filp (fs s)) (img (fs s)) cs (unat pos + i)" by auto
  let ?s = "s\<lparr>fs := ?v m1 (b2 # rest) (pos + word_of_nat n1)\<rparr>"
  have same: "opened (fs ?s) filp cs" "volume_of filp (fs ?s) = volume_of filp (fs s)" "size_of filp (fs ?s) = size_of filp (fs s)"
    "img (fs ?s) = img (fs s)" "f_position (files (fs ?s) filp) = pos + word_of_nat n1" "f_f_ops (files (fs ?s) filp) = FAT32_file_ops"
    using op fd(4) by (simp_all add: read_file_frame [OF refl])
  have p: "unat (pos + word_of_nat n1) = unat pos + n1" using small by (simp add: unat_word_ariths unat_of_nat_small)
  have "\<exists>m. sys_read woken fd u2 (word_of_nat n2) ?s =
       Some (word_of_nat n2, ?s\<lparr>fs := upd_file filp (\<lambda>x. x\<lparr>f_position := pos + word_of_nat n1 + word_of_nat n2\<rparr>)
         ((fs ?s)\<lparr>vmem := m, fresh := rest\<rparr>)\<rparr>) \<and>
     (\<forall>i < n2. m (u2 + word_of_nat i) = file_byte (volume_of filp (fs s)) (img (fs s)) cs (unat pos + n1 + i)) \<and>
     (\<forall>x. \<not> in_area b2 (bpc (volume_of filp (fs s))) x \<longrightarrow> \<not> in_area u2 n2 x \<longrightarrow> m x = vmem (fs ?s) x)"
    using read_file_call [OF fd(1) _ fd(3) same(6) same(1,5), where n = n2 and b = b2 and rest = rest and u = u2 and woken = woken] fd(2) n p fresh(1,3) a2
    unfolding same(2-4) by (simp add: read_file_frame [OF refl])
  then obtain m2 where m2: "sys_read woken fd u2 (word_of_nat n2) ?s =
       Some (word_of_nat n2, ?s\<lparr>fs := upd_file filp (\<lambda>x. x\<lparr>f_position := pos + word_of_nat n1 + word_of_nat n2\<rparr>)
         ((fs ?s)\<lparr>vmem := m2, fresh := rest\<rparr>)\<rparr>)"
     "\<forall>i < n2. m2 (u2 + word_of_nat i) = file_byte (volume_of filp (fs s)) (img (fs s)) cs (unat pos + n1 + i)"
     "\<forall>x. \<not> in_area b2 (bpc (volume_of filp (fs s))) x \<longrightarrow> \<not> in_area u2 n2 x \<longrightarrow> m2 x = vmem (fs ?s) x" by blast
  have "m2 (u1 + word_of_nat i) = m1 (u1 + word_of_nat i)" if "i < n1" for i
  proof -
    have "unat (word_of_nat i :: u64) = i" using that small by (intro unat_of_nat_small) simp
    then have "in_area u1 n1 (u1 + word_of_nat i)" using that by (simp add: in_area_def)
    then have "\<not> in_area b2 (bpc (volume_of filp (fs s))) (u1 + word_of_nat i)" "\<not> in_area u2 n2 (u1 + word_of_nat i)"
      using keep unfolding areas_apart_def by blast+
    with m2(3) have "m2 (u1 + word_of_nat i) = vmem (fs ?s) (u1 + word_of_nat i)" by blast
    then show ?thesis by (simp add: read_file_frame [OF refl])
  qed
  then have k: "\<forall>i < n1. m2 (u1 + word_of_nat i) = file_byte (volume_of filp (fs s)) (img (fs s)) cs (unat pos + i)"
    using m1(2) by simp
  let ?s2 = "?s\<lparr>fs := upd_file filp (\<lambda>x. x\<lparr>f_position := pos + word_of_nat n1 + word_of_nat n2\<rparr>)
         ((fs ?s)\<lparr>vmem := m2, fresh := rest\<rparr>)\<rparr>"
  have "m2 = vmem (fs ?s2)" "f_position (files (fs ?s2) filp) = pos + word_of_nat (n1 + n2)" "live (fs ?s2) = live (fs s)"
    by (simp_all add: read_file_frame [OF refl] add.assoc)
  with m1(1) m2(1,2) k show ?thesis by blast
qed

definition demo_sys :: ksys where
  "demo_sys = \<lparr>fs = demo_vfs\<lparr>files := (\<lambda>_. \<lparr>f_position = 500, f_mode = 0, f_dentry = 0x20, f_f_ops = FAT32_file_ops\<rparr>)\<rparr>,
     g_file_struct = (\<lambda>i. if i < 3 then 0x10 else 0),
     kb = \<lparr>p_head = 0, p_tail = 0, kcount = 0, kbytes = (\<lambda>_. 0)\<rparr>, p_kb = 0\<rparr>"

theorem sys_read_twice_witness:
  "\<exists>s1 s2. sys_read id 2 0x20000 100 demo_sys = Some (100, s1) \<and> sys_read id 2 0x30000 200 s1 = Some (200, s2) \<and>
     f_position (files (fs s2) 0x10) = 800 \<and> live (fs s2) = []"
proof -
  have fs: "fs demo_sys = demo_vfs" by (simp add: demo_sys_def) (simp add: demo_vfs_def)
  have b: "bpc demo_fsbi = 512" by (simp add: demo_fsbi_def)
  have ap: "areas_apart 0x10000 512 0x20000 100" "areas_apart 0x11000 512 0x30000 200"
    "areas_apart 0x11000 512 0x20000 100" by (rule areas_apart_nat; simp)+
  have "areas_apart 0x20000 100 0x30000 200" by (rule areas_apart_nat) simp_all
  then have ap': "areas_apart 0x30000 200 0x20000 100" by (rule areas_apart_swap)
  have ok: "area_ok 0x20000 100" "area_ok 0x30000 200" by (simp_all add: area_ok_def TASK_SIZE_def)
  have gf: "g_file_struct demo_sys (unat (2 :: u32)) = 0x10" "\<not> bad_fd 2" by (simp_all add: demo_sys_def bad_fd_def TASK_FILE_MAX_def)
  have ops: "f_f_ops (files demo_vfs 0x10) = FAT32_file_ops" "f_position (files demo_vfs 0x10) = 500" "live demo_vfs = []"
    by (simp_all add: demo_vfs_def)
  have "\<exists>m s1 s2. sys_read id 2 0x20000 (word_of_nat 100) demo_sys = Some (word_of_nat 100, s1) \<and>
     sys_read id 2 0x30000 (word_of_nat 200) s1 = Some (word_of_nat 200, s2) \<and> m = vmem (fs s2) \<and>
     f_position (files (fs s2) 0x10) = 500 + word_of_nat (100 + 200) \<and> live (fs s2) = live (fs demo_sys) \<and>
     (\<forall>i < 100. m (0x20000 + word_of_nat i) = file_byte (volume_of 0x10 (fs demo_sys)) (img (fs demo_sys)) [2, 3] (unat (500 :: u64) + i)) \<and>
     (\<forall>i < 200. m (0x30000 + word_of_nat i) = file_byte (volume_of 0x10 (fs demo_sys)) (img (fs demo_sys)) [2, 3] (unat (500 :: u64) + 100 + i))"
    by (rule sys_read_twice [where ?b1.0 = "0x10000" and ?b2.0 = "0x11000" and rest = "[]"])
      (use gf ops ok ap ap' demo_opened in \<open>simp_all add: fs b\<close>)
  then show ?thesis by (auto simp: fs ops)
qed

theorem closed_descriptor_faults_witness:
  "\<exists>s'. sys_close 2 demo_sys = Some (0, s') \<and> sys_read id 2 0x20000 1 s' = Some (- 1, s') \<and> sys_close 2 s' = None"
proof -
  have "\<not> bad_fd 2" "g_file_struct demo_sys (unat (2 :: u32)) = 0x10" by (simp_all add: demo_sys_def bad_fd_def TASK_FILE_MAX_def)
  from closed_descriptor_faults [OF this, where cnt = 1 and whence = 0 and woken = id and buf = "0x20000"]
  show ?thesis by (auto simp: SEEK_MAX_def)
qed


text \<open>\<open>sys_brk\<close> with 0 returns the start of the heap; a smaller end is answered with 0 and keeps
  the heap; otherwise \<open>end_brk\<close> becomes the result.  When memory runs out this is \<open>-ENOMEM\<close>, so that
  afterwards every request up to the last page of the address space is answered with 0 as success and
  maps nothing.\<close>

theorem sys_brk_result:
  assumes "sys_brk pgd start end_brk brk s = Some (r, e, s')" and "PAGE_2M_ALIGN brk \<ge> end_brk" and "PAGE_2M_ALIGN brk \<noteq> 0"
    and "do_brk pgd end_brk (PAGE_2M_ALIGN brk - end_brk) end_brk s = Some (- ENOMEM, end_brk, s')"
    and "0 < unat brk'" and "unat brk' \<le> 2 ^ 64 - 2 ^ 21"
  shows "r = - ENOMEM \<and> e = - ENOMEM \<and> sys_brk pgd start e brk' s' = Some (0, e, s')"
proof -
  have "r = - ENOMEM \<and> e = - ENOMEM"
    using assms(1,3,4) assms(2) [unfolded not_less [symmetric]] by (auto simp: sys_brk_def Let_def)
  moreover from align_2M [OF assms(5,6)] have "PAGE_2M_ALIGN brk' \<noteq> 0" "PAGE_2M_ALIGN brk' < - ENOMEM"
    by (auto simp: ENOMEM_def word_less_nat_alt)
  ultimately show ?thesis by (simp add: sys_brk_def Let_def)
qed

text \<open>The page tables of the heap exist, but no zone has a page.\<close>

definition demo_exhausted :: vmem where
  "demo_exhausted = demo_vmem\<lparr>sm := demo_smem\<lparr>gm := (gm demo_smem)\<lparr>zones_struct := (\<lambda>z. (zones_struct (gm demo_smem) z)\<lparr>page_free_count := 0\<rparr>)\<rparr>\<rparr>\<rparr>"

lemma demo_brk: "do_brk 0x1000 0x200000 0x200000 0x200000 demo_exhausted = Some (- ENOMEM, 0x200000, demo_exhausted)"
proof -
  have "ptm demo_exhausted (pt_slot 0x1000 39 0x200000) = 0x2007"
    "ptm demo_exhausted (pt_slot 0x2007 30 0x200000) = 0x3007" "ptm demo_exhausted (pt_slot 0x3007 21 0x200000) = 0"
    by code_simp+
  moreover have "alloc_pages ZONE_NORMAL 1 PG_PTable_Maped (gm (sm demo_exhausted)) = (None, gm (sm demo_exhausted))"
    by (simp add: alloc_pages_def demo_exhausted_def demo_vmem_def demo_smem_def demo_gmd_def upto.simps)
  ultimately have "brk_page 0x1000 0x200000 demo_exhausted = Some (False, demo_exhausted)"
    by (simp add: brk_page_def pt_fill_def Let_def)
  then show ?thesis by (simp add: do_brk_def, subst brk_loop.simps, simp)
qed

theorem sys_brk_result_witness:
  "sys_brk 0x1000 0x200000 0x200000 0x400000 demo_exhausted = Some (- ENOMEM, - ENOMEM, demo_exhausted) \<and>
   sys_brk 0x1000 0x200000 (- ENOMEM) 0x7000000 demo_exhausted = Some (0, - ENOMEM, demo_exhausted)"
proof -
  have a: "PAGE_2M_ALIGN 0x400000 = 0x400000" by code_simp
  have r: "sys_brk 0x1000 0x200000 0x200000 0x400000 demo_exhausted = Some (- ENOMEM, - ENOMEM, demo_exhausted)"
    by (simp add: sys_brk_def a demo_brk)
  from sys_brk_result [OF r, of "0x7000000"] show ?thesis using r by (simp add: a demo_brk)
qed

end
