(* ===== verification/Task.thy ===== *)
theory Task
  imports Vfs Paging Schedule
begin

unbundle bit_operations_syntax

text \<open>
  Tasks and their address spaces: fork, exit and wait of \<open>src/task.c\<close> and \<open>src/sys.c\<close>.  The fields of
  a \<open>task_struct\<close> the scheduler works on are those of theory \<open>Schedule\<close>; the others are here.
  All tasks are chained through \<open>next\<close> from the idle task \<open>init_task_union\<close>.  \<open>tmem\<close> is memory as
  the current task sees it, \<open>pt\<close> holds the allocators and the page tables.  \<open>p_regs\<close> are the registers
  saved at the top of the kernel stack of a task.
\<close>

section \<open>State\<close>

record mm_struct =
  mm_pgd :: u64
  mm_start_code :: u64
  mm_end_code :: u64
  mm_start_data :: u64
  mm_end_data :: u64
  mm_start_rodata :: u64
  mm_end_rodata :: u64
  mm_start_bss :: u64
  mm_end_bss :: u64
  mm_start_brk :: u64
  mm_end_brk :: u64
  mm_start_stack :: u64

definition zero_mm :: mm_struct where
  "zero_mm = \<lparr>mm_pgd = 0, mm_start_code = 0, mm_end_code = 0, mm_start_data = 0, mm_end_data = 0, mm_start_rodata = 0,
     mm_end_rodata = 0, mm_start_bss = 0, mm_end_bss = 0, mm_start_brk = 0, mm_end_brk = 0, mm_start_stack = 0\<rparr>"

record thread_struct =
  th_rsp0 :: addr
  th_rip :: addr
  th_rsp :: addr
  th_fs :: u64
  th_gs :: u64

text \<open>\<open>r_others\<close> are the registers no C code reads or writes by name.\<close>

record pt_regs =
  r_r11 :: u64
  r_r10 :: u64
  r_rbx :: u64
  r_rdx :: u64
  r_rsi :: u64
  r_rdi :: u64
  r_rax :: u64
  r_rsp :: u64
  r_rip :: u64
  r_rflags :: u64
  r_cs :: u64
  r_ds :: u64
  r_es :: u64
  r_ss :: u64
  r_others :: "nat \<Rightarrow> u64"

definition zero_regs :: pt_regs where
  "zero_regs = \<lparr>r_r11 = 0, r_r10 = 0, r_rbx = 0, r_rdx = 0, r_rsi = 0, r_rdi = 0, r_rax = 0, r_rsp = 0, r_rip = 0,
     r_rflags = 0, r_cs = 0, r_ds = 0, r_es = 0, r_ss = 0, r_others = (\<lambda>_. 0)\<rparr>"

record proc =
  p_mm :: addr
  p_thread :: thread_struct
  p_regs :: pt_regs
  p_addr_limit :: u64
  p_exit_code :: u64
  p_next :: addr
  p_parent :: addr

record tsys =
  ks :: ksched
  procs :: "addr \<Rightarrow> proc"
  mms :: "addr \<Rightarrow> mm_struct"
  pt :: vmem
  tmem :: mem
  global_pid :: int
  init_task_union :: addr
  ret_system_call :: addr
  kernel_thread_func :: addr

definition PF_KTHREAD :: u64 where "PF_KTHREAD = 1"
definition PF_VFORK :: u64 where "PF_VFORK = 4"
definition CLONE_VM :: u64 where "CLONE_VM = 1"
definition CLONE_FS :: u64 where "CLONE_FS = 2"
definition CLONE_SIGNAL :: u64 where "CLONE_SIGNAL = 4"
definition STACK_SIZE :: u64 where "STACK_SIZE = 32768"
definition sizeof_pt_regs :: u64 where "sizeof_pt_regs = 192"
definition sizeof_mm_struct :: u64 where "sizeof_mm_struct = 96"
definition KERNEL_CS :: u64 where "KERNEL_CS = 8"
definition KERNEL_DS :: u64 where "KERNEL_DS = 16"

text \<open>The wait queue \<open>wait_childexit\<close> is embedded in the structure.\<close>

definition wait_childexit :: "addr \<Rightarrow> addr" where "wait_childexit t = t + 192"

definition upd_proc :: "addr \<Rightarrow> (proc \<Rightarrow> proc) \<Rightarrow> tsys \<Rightarrow> tsys" where
  "upd_proc t f s = s\<lparr>procs := (procs s)(t := f (procs s t))\<rparr>"

definition upd_mm :: "addr \<Rightarrow> (mm_struct \<Rightarrow> mm_struct) \<Rightarrow> tsys \<Rightarrow> tsys" where
  "upd_mm a f s = s\<lparr>mms := (mms s)(a := f (mms s a))\<rparr>"

definition code_start_addr :: addr where "code_start_addr = 0x800000"
definition stack_start_addr :: addr where "stack_start_addr = 0xa00000"
definition brk_start_addr :: addr where "brk_start_addr = 0xc00000"

text \<open>\<open>kmalloc\<close> where the code uses the result without a test, and \<open>kfree\<close>.\<close>

definition tmalloc :: "u64 \<Rightarrow> tsys \<Rightarrow> (addr \<times> tsys) option" where
  "tmalloc n s = do {
     (a, m) \<leftarrow> kmalloc 2 n (sm (pt s));
     if a = NULL then None else Some (a, s\<lparr>pt := (pt s)\<lparr>sm := m\<rparr>\<rparr>)
   }"

definition tfree :: "addr \<Rightarrow> tsys \<Rightarrow> tsys option" where
  "tfree a s = do { (_, m) \<leftarrow> kfree 2 a (sm (pt s)); Some (s\<lparr>pt := (pt s)\<lparr>sm := m\<rparr>\<rparr>) }"

section \<open>Address spaces\<close>

text \<open>A fresh page table behind the entry \<open>slot\<close>.\<close>

definition new_table :: "addr \<Rightarrow> u64 \<Rightarrow> tsys \<Rightarrow> tsys option" where
  "new_table slot attr s = do {
     (v, s) \<leftarrow> tmalloc 0x1000 s;
     let m = (zero_table v (ptm (pt s)))(slot := Virt_To_Phy v OR attr);
     Some (s\<lparr>pt := (pt s)\<lparr>ptm := m\<rparr>\<rparr>)
   }"

text \<open>A fresh page for the user, filled with the 2 MB at the virtual address \<open>from\<close>.\<close>

definition copy_user_page :: "addr \<Rightarrow> addr \<Rightarrow> tsys \<Rightarrow> tsys option" where
  "copy_user_page slot from s =
     (case alloc_pages ZONE_NORMAL 1 PG_PTable_Maped (gm (sm (pt s))) of
        (None, _) \<Rightarrow> None
      | (Some p, g) \<Rightarrow>
          let phys = PHY_address (pages_struct g p);
              v = (pt s)\<lparr>sm := (sm (pt s))\<lparr>gm := g\<rparr>, ptm := (ptm (pt s))(slot := phys OR PAGE_USER_Page)\<rparr>
          in Some (s\<lparr>pt := v, tmem := snd (memcpy from (Phy_To_Virt phys) PAGE_2M_SIZE (tmem s))\<rparr>))"

text \<open>The upper half of a top level table is copied from the idle task's, the lower one cleared.\<close>

definition copy_kernel_half :: "addr \<Rightarrow> addr \<Rightarrow> (addr \<Rightarrow> u64) \<Rightarrow> addr \<Rightarrow> u64" where
  "copy_kernel_half from to m =
     (let m = fold (\<lambda>k m. m(to + 8 * word_of_nat k := m (from + 8 * word_of_nat k))) [256..<512] m
      in fold (\<lambda>k m. m(to + 8 * word_of_nat k := 0)) [0..<256] m)"

definition set_mm :: "addr \<Rightarrow> addr \<Rightarrow> tsys \<Rightarrow> tsys" where
  "set_mm t mm s =
     (let s = upd_proc t (\<lambda>p. p\<lparr>p_mm := mm\<rparr>) s
      in s\<lparr>ks := upd_task t (\<lambda>k. k\<lparr>ts_pgd := mm_pgd (mms s mm)\<rparr>) (ks s)\<rparr>)"

definition table_slot :: "u64 \<Rightarrow> addr \<Rightarrow> nat \<Rightarrow> tsys \<Rightarrow> addr" where
  "table_slot pgd va level s =
     (let t1 = pt_slot pgd 39 va; t2 = pt_slot (ptm (pt s) t1) 30 va
      in if level = 4 then t1 else if level = 3 then t2 else pt_slot (ptm (pt s) t2) 21 va)"

text \<open>A copy of the structure \<open>mm\<close> with a top level table of its own.\<close>

definition new_mm :: "addr \<Rightarrow> tsys \<Rightarrow> (addr \<times> u64 \<times> tsys) option" where
  "new_mm mm s = do {
     (newmm, s) \<leftarrow> tmalloc sizeof_mm_struct s;
     (pgd, s) \<leftarrow> tmalloc 0x1000 s;
     let s = upd_mm newmm (\<lambda>_. (mms s mm)\<lparr>mm_pgd := Virt_To_Phy pgd\<rparr>) s;
     let kpgd = ts_pgd (tsk (ks s) (init_task (ks s) (SMP_cpu_id (ks s))));
     let s = s\<lparr>pt := (pt s)\<lparr>ptm := copy_kernel_half (Phy_To_Virt kpgd) pgd (ptm (pt s))\<rparr>\<rparr>;
     Some (newmm, Virt_To_Phy pgd, s)
   }"

definition copy_mm :: "u64 \<Rightarrow> addr \<Rightarrow> tsys \<Rightarrow> tsys option" where
  "copy_mm clone_flags t s =
     (let mm = p_mm (procs s (cur (ks s)))
      in if clone_flags AND CLONE_VM \<noteq> 0 then Some (set_mm t mm s)
         else do {
           (newmm, pgd, s) \<leftarrow> new_mm mm s;
           s \<leftarrow> new_table (table_slot pgd code_start_addr 4 s) PAGE_USER_GDT s;
           s \<leftarrow> new_table (table_slot pgd code_start_addr 3 s) PAGE_USER_Dir s;
           s \<leftarrow> copy_user_page (table_slot pgd code_start_addr 2 s) code_start_addr s;
           s \<leftarrow> (if mm_end_brk (mms s mm) - mm_start_brk (mms s mm) \<noteq> 0
                then copy_user_page (table_slot pgd brk_start_addr 2 s) brk_start_addr s else Some s);
           Some (set_mm t newmm s)
         })"

definition Phy_to_2M_Page :: "u64 \<Rightarrow> nat" where
  "Phy_to_2M_Page a = unat (drop_bit 21 a)"

text \<open>A null \<open>mm\<close> is dereferenced before it is tested.\<close>

definition exit_mm :: "addr \<Rightarrow> tsys \<Rightarrow> tsys option" where
  "exit_mm t s =
     (let mm = p_mm (procs s t); pgd = mm_pgd (mms s mm); e = (\<lambda>l. ptm (pt s) (table_slot pgd code_start_addr l s))
      in if ts_flags (tsk (ks s) t) AND PF_VFORK \<noteq> 0 then Some s
         else if mm = NULL then None
         else do {
           s \<leftarrow> (if pgd \<noteq> NULL then do {
                  let s = s\<lparr>pt := (pt s)\<lparr>sm := (sm (pt s))\<lparr>gm := free_pages (Some (Phy_to_2M_Page (e 2))) 1 (gm (sm (pt s)))\<rparr>\<rparr>\<rparr>;
                  s \<leftarrow> tfree (Phy_To_Virt (e 3)) s;
                  s \<leftarrow> tfree (Phy_To_Virt (e 4)) s;
                  tfree (Phy_To_Virt pgd) s
                } else Some s);
           tfree mm s
         })"

section \<open>fork\<close>

definition copy_flags :: "u64 \<Rightarrow> addr \<Rightarrow> tsys \<Rightarrow> tsys" where
  "copy_flags clone_flags t s =
     (if clone_flags AND CLONE_VM \<noteq> 0
      then s\<lparr>ks := upd_task t (\<lambda>k. k\<lparr>ts_flags := ts_flags k OR PF_VFORK\<rparr>) (ks s)\<rparr> else s)"

definition copy_thread :: "u64 \<Rightarrow> addr \<Rightarrow> pt_regs \<Rightarrow> tsys \<Rightarrow> tsys" where
  "copy_thread stack_start t regs s =
     (let me = p_thread (procs s (cur (ks s)));
          th = \<lparr>th_rsp0 = t + STACK_SIZE,
                th_rip = (if ts_flags (tsk (ks s) t) AND PF_KTHREAD \<noteq> 0 then kernel_thread_func s else ret_system_call s),
                th_rsp = t + STACK_SIZE - sizeof_pt_regs, th_fs = th_fs me, th_gs = th_gs me\<rparr>
      in upd_proc t (\<lambda>p. p\<lparr>p_thread := th, p_regs := regs\<lparr>r_rax := 0, r_rsp := stack_start\<rparr>\<rparr>) s)"

text \<open>The new task is a copy of the current one, put first into the chain of all tasks.\<close>

definition link_task :: "addr \<Rightarrow> tsys \<Rightarrow> tsys" where
  "link_task t s =
     (let k = ks s; me = cur k; init = init_task_union s;
          k = k\<lparr>lnk := list_init (lnk k) t\<rparr>;
          k = upd_task t (\<lambda>_. (tsk k me)\<lparr>ts_priority := 2, ts_pid := global_pid s, ts_cpu_id := SMP_cpu_id k,
            ts_state := TASK_UNINTERRUPTIBLE\<rparr>) k;
          s = s\<lparr>ks := k, global_pid := global_pid s + 1\<rparr>;
          s = upd_proc t (\<lambda>_. (procs s me)\<lparr>p_next := p_next (procs s init)\<rparr>) s;
          s = upd_proc init (\<lambda>p. p\<lparr>p_next := t\<rparr>) s;
          s = upd_proc t (\<lambda>p. p\<lparr>p_parent := me\<rparr>) s
      in s\<lparr>ks := wait_queue_init (wait_childexit t) NULL (ks s)\<rparr>)"

text \<open>\<open>retval\<close> is an \<open>int\<close>.\<close>

definition do_fork :: "pt_regs \<Rightarrow> u64 \<Rightarrow> u64 \<Rightarrow> tsys \<Rightarrow> (u64 \<times> tsys) option" where
  "do_fork regs clone_flags stack_start s = do {
     (t, m) \<leftarrow> kmalloc 2 STACK_SIZE (sm (pt s));
     let s = s\<lparr>pt := (pt s)\<lparr>sm := m\<rparr>\<rparr>;
     if t = NULL then do { s \<leftarrow> tfree NULL s; Some (- EAGAIN, s) }
     else do {
       let s = copy_flags clone_flags t (link_task t s);
       s \<leftarrow> copy_mm clone_flags t s;
       let s = copy_thread stack_start t regs s;
       k \<leftarrow> wakeup_process t (ks s);
       Some (scast (word_of_int (ts_pid (tsk (ks s) t)) :: u32), s\<lparr>ks := k\<rparr>)
     }
   }"

definition sys_fork :: "tsys \<Rightarrow> (u64 \<times> tsys) option" where
  "sys_fork s = (let regs = p_regs (procs s (cur (ks s))) in do_fork regs 0 (r_rsp regs) s)"

definition sys_vfork :: "tsys \<Rightarrow> (u64 \<times> tsys) option" where
  "sys_vfork s =
     (let regs = p_regs (procs s (cur (ks s))) in do_fork regs (CLONE_VM OR CLONE_FS OR CLONE_SIGNAL) (r_rsp regs) s)"

definition kernel_thread :: "addr \<Rightarrow> u64 \<Rightarrow> u64 \<Rightarrow> tsys \<Rightarrow> (u64 \<times> tsys) option" where
  "kernel_thread fn arg flags s =
     do_fork (zero_regs\<lparr>r_rbx := fn, r_rdx := arg, r_ds := KERNEL_DS, r_es := KERNEL_DS, r_cs := KERNEL_CS,
       r_ss := KERNEL_DS, r_rflags := 0x200, r_rip := kernel_thread_func s\<rparr>)
       (flags OR CLONE_VM) 0 s"

section \<open>exit and wait\<close>

definition exit_notify :: "tsys \<Rightarrow> tsys option" where
  "exit_notify s = do {
     k \<leftarrow> wakeup (wait_childexit (p_parent (procs s (cur (ks s))))) TASK_INTERRUPTIBLE (ks s);
     Some (s\<lparr>ks := k\<rparr>)
   }"

text \<open>One turn of the loop of \<open>do_exit\<close>, up to the point where another task runs.\<close>

definition do_exit :: "u64 \<Rightarrow> tsys \<Rightarrow> tsys option" where
  "do_exit exit_code s = do {
     let me = cur (ks s);
     let s = s\<lparr>ks := upd_task me (\<lambda>k. k\<lparr>ts_state := TASK_ZOMBIE\<rparr>) (ks s)\<rparr>;
     let s = upd_proc me (\<lambda>p. p\<lparr>p_exit_code := exit_code\<rparr>) s;
     s \<leftarrow> exit_notify s;
     k \<leftarrow> schedule (ks s);
     Some (s\<lparr>ks := k\<rparr>)
   }"

partial_function (option) get_task_walk :: "(addr \<Rightarrow> addr) \<Rightarrow> (addr \<Rightarrow> u64) \<Rightarrow> addr \<Rightarrow> u64 \<Rightarrow> addr \<Rightarrow> addr option" where
  "get_task_walk next pid init want t =
     (if t = init then Some NULL else if pid t = want then Some t else get_task_walk next pid init want (next t))"

abbreviation next_of :: "tsys \<Rightarrow> addr \<Rightarrow> addr" where
  "next_of s t \<equiv> p_next (procs s t)"

definition pid_of :: "tsys \<Rightarrow> addr \<Rightarrow> u64" where
  "pid_of s t = word_of_int (ts_pid (tsk (ks s) t))"

definition get_task :: "u64 \<Rightarrow> tsys \<Rightarrow> addr option" where
  "get_task pid s = get_task_walk (next_of s) (pid_of s) (init_task_union s) pid (next_of s (init_task_union s))"

text \<open>The loop of \<open>sys_wait4\<close> stops at the task before the child.\<close>

partial_function (option) find_prev :: "(addr \<Rightarrow> addr) \<Rightarrow> (addr \<Rightarrow> u64) \<Rightarrow> addr \<Rightarrow> u64 \<Rightarrow> addr \<Rightarrow> addr option option" where
  "find_prev next pid init want t =
     (if next t = init then Some None
      else if pid (next t) = want then Some (Some t)
      else find_prev next pid init want (next t))"

text \<open>The end of \<open>sys_wait4\<close>: \<open>n\<close> bytes of the exit code for the user, the child out of the chain.\<close>

definition reap :: "nat \<Rightarrow> addr \<Rightarrow> addr \<Rightarrow> addr \<Rightarrow> tsys \<Rightarrow> (u64 \<times> tsys) option" where
  "reap n t child status s = do {
     let s = s\<lparr>tmem := (if verify_area status (word_of_nat n) then stos n (p_exit_code (procs s child)) status (tmem s) else tmem s)\<rparr>;
     let s = upd_proc t (\<lambda>p. p\<lparr>p_next := next_of s child\<rparr>) s;
     s \<leftarrow> exit_mm child s;
     s \<leftarrow> tfree child s;
     Some (0, s)
   }"

text \<open>\<open>w\<close> is the wait queue entry on the stack and \<open>resume\<close> what happens until the caller runs again.\<close>

definition sys_wait4 :: "u64 \<Rightarrow> addr \<Rightarrow> u32 \<Rightarrow> addr \<Rightarrow> (tsys \<Rightarrow> tsys option) \<Rightarrow> tsys \<Rightarrow> (u64 \<times> tsys) option" where
  "sys_wait4 pid status options w resume s = do {
     r \<leftarrow> find_prev (next_of s) (pid_of s) (init_task_union s) pid (init_task_union s);
     case r of
       None \<Rightarrow> Some (- ECHILD, s)
     | Some t \<Rightarrow>
         let child = next_of s t
         in if options \<noteq> 0 then Some (- EINVAL, s)
            else if ts_state (tsk (ks s) child) = TASK_ZOMBIE then reap 4 t child status s
            else do {
              k \<leftarrow> interruptible_sleep_on w (wait_childexit (cur (ks s))) (ks s);
              s \<leftarrow> resume (s\<lparr>ks := k\<rparr>);
              reap 8 t child status s
            }
   }"

section \<open>The file of a program\<close>

text \<open>An error is a negative pointer; a missing memory block is tested here.\<close>

definition open_exec_file :: "addr \<Rightarrow> vfs \<Rightarrow> (addr \<times> vfs) option" where
  "open_exec_file path s = do {
     (dentry, s) \<leftarrow> path_walk path 0 s;
     if dentry = NULL then Some (- ENOENT, s)
     else let ip = dir_inode (dentries s dentry)
          in if index_node.attribute (inodes s ip) = FS_ATTR_DIR then Some (- ENOTDIR, s)
             else do {
               (filp, s) \<leftarrow> get_object s;
               if filp = NULL then Some (- ENOMEM, s)
               else Some (filp, upd_file filp (\<lambda>_. \<lparr>f_position = 0, f_mode = 0, f_dentry = dentry, f_f_ops = i_f_ops (inodes s ip)\<rparr>) s)
             }
   }"

section \<open>The chain of all tasks\<close>

definition task_chain :: "tsys \<Rightarrow> addr list \<Rightarrow> bool" where
  "task_chain s xs \<longleftrightarrow> follows (next_of s) (init_task_union s # xs) (init_task_union s) \<and>
     distinct (init_task_union s # xs)"

lemma follows_cong: "(\<And>x. x \<in> set xs \<Longrightarrow> f x = g x) \<Longrightarrow> follows f xs b = follows g xs b"
  by (induction xs) auto

lemma follows_append: "follows f (xs @ y # ys) b \<longleftrightarrow> follows f xs y \<and> follows f (y # ys) b"
  by (induction xs) (auto simp: hd_append)

lemma split_at: "c \<in> set xs \<Longrightarrow> xs = takeWhile (\<lambda>x. x \<noteq> c) xs @ c # tl (dropWhile (\<lambda>x. x \<noteq> c) xs)"
  by (induction xs) auto

lemma remove1_at: "c \<in> set xs \<Longrightarrow> remove1 c xs = takeWhile (\<lambda>x. x \<noteq> c) xs @ tl (dropWhile (\<lambda>x. x \<noteq> c) xs)"
  by (induction xs) auto

lemma follows_last: "follows f ((a # ys) @ c # zs) b \<Longrightarrow> f (last (a # ys)) = c"
  by (induction ys arbitrary: a) auto

text \<open>Putting a task first, and taking out the successor of one.\<close>

lemma chain_push:
  assumes "task_chain s xs" and "t \<notin> set (init_task_union s # xs)" and "init_task_union s' = init_task_union s"
    and "next_of s' = (next_of s)(t := next_of s (init_task_union s), init_task_union s := t)"
  shows "task_chain s' (t # xs)"
proof -
  have "follows (next_of s') xs (init_task_union s) = follows (next_of s) xs (init_task_union s)"
    using assms(1,2) unfolding assms(4) by (intro follows_cong) (auto simp: task_chain_def)
  then show ?thesis using assms by (auto simp: task_chain_def)
qed

lemma chain_drop:
  assumes "task_chain s (ys @ c # zs)" and "p = last (init_task_union s # ys)"
    and "init_task_union s' = init_task_union s" and "next_of s' = (next_of s)(p := next_of s c)"
  shows "task_chain s' (ys @ zs)"
proof -
  let ?i = "init_task_union s"
  obtain as where as: "?i # ys = as @ [p]" using assms(2) by (metis append_butlast_last_id list.distinct(1))
  have d: "distinct (as @ p # c # zs)" and f: "follows (next_of s) (as @ p # c # zs) ?i"
    using assms(1) as unfolding task_chain_def by (metis append.assoc append_Cons append_Nil)+
  have "follows (next_of s') as p = follows (next_of s) as p"
    "follows (next_of s') zs ?i = follows (next_of s) zs ?i"
    using d unfolding assms(4) by (auto intro!: follows_cong)
  then have "follows (next_of s') (as @ p # zs) ?i" using f d unfolding assms(4) by (auto simp: follows_append)
  moreover have "as @ p # zs = ?i # ys @ zs" using as by (metis append.assoc append_Cons append_Nil)
  moreover have "distinct (?i # ys @ zs)" using assms(1) by (auto simp: task_chain_def)
  ultimately show ?thesis unfolding task_chain_def assms(3) by simp
qed

lemma find_prev_chain:
  "follows f (p # xs) b \<Longrightarrow> b \<notin> set xs \<Longrightarrow>
   find_prev f pid b want p = Some (case find (\<lambda>x. pid x = want) xs of None \<Rightarrow> None
     | Some c \<Rightarrow> Some (last (p # takeWhile (\<lambda>x. x \<noteq> c) xs)))"
proof (induction xs arbitrary: p)
  case Nil
  then show ?case by (subst find_prev.simps) simp
next
  case (Cons x xs)
  then have n: "f p = x" "x \<noteq> b" by auto
  have IH: "find_prev f pid b want x = Some (case find (\<lambda>x. pid x = want) xs of None \<Rightarrow> None
     | Some c \<Rightarrow> Some (last (x # takeWhile (\<lambda>x. x \<noteq> c) xs)))" using Cons by simp
  show ?case
  proof (cases "pid x = want")
    case True
    then show ?thesis using n by (subst find_prev.simps) simp
  next
    case False
    have "x \<noteq> c" if "find (\<lambda>x. pid x = want) xs = Some c" for c
      using find_SomeD [OF that] False by auto
    then show ?thesis using n False IH by (subst find_prev.simps) (simp split: option.splits)
  qed
qed

section \<open>What the parts of a fork leave alone\<close>

text \<open>Creating an address space changes the allocators, page tables and memory, and no task but the
  new one.\<close>

definition same_tasks_of :: "tsys \<Rightarrow> tsys \<Rightarrow> bool" where
  "same_tasks_of s s' \<longleftrightarrow> ks s' = ks s \<and> procs s' = procs s \<and> init_task_union s' = init_task_union s \<and>
     global_pid s' = global_pid s"

lemma tmalloc_same: "tmalloc n s = Some (a, s') \<Longrightarrow> same_tasks_of s s' \<and> mms s' = mms s \<and> a \<noteq> NULL"
  by (auto simp: tmalloc_def same_tasks_of_def bind_eq_Some_conv split: if_splits)

lemma tfree_same: "tfree a s = Some s' \<Longrightarrow> same_tasks_of s s' \<and> tmem s' = tmem s"
  by (auto simp: tfree_def same_tasks_of_def bind_eq_Some_conv)

lemma new_table_same: "new_table slot attr s = Some s' \<Longrightarrow> same_tasks_of s s'"
  by (auto simp: new_table_def bind_eq_Some_conv Let_def dest!: tmalloc_same) (auto simp: same_tasks_of_def)

lemma copy_user_page_same: "copy_user_page slot from s = Some s' \<Longrightarrow> same_tasks_of s s'"
  by (auto simp: copy_user_page_def same_tasks_of_def Let_def split: option.splits prod.splits)

lemma same_tasks_of_trans: "same_tasks_of s s' \<Longrightarrow> same_tasks_of s' s'' \<Longrightarrow> same_tasks_of s s''"
  by (simp add: same_tasks_of_def)

lemma new_mm_same: "new_mm mm s = Some (a, pgd, s') \<Longrightarrow> same_tasks_of s s' \<and> a \<noteq> NULL"
  by (auto simp: new_mm_def upd_mm_def bind_eq_Some_conv Let_def same_tasks_of_def dest!: tmalloc_same)

lemma copy_mm_set:
  assumes "copy_mm flags t s = Some s'"
  shows "\<exists>mm s1. s' = set_mm t mm s1 \<and> same_tasks_of s s1 \<and>
     (if flags AND CLONE_VM \<noteq> 0 then mm = p_mm (procs s (cur (ks s))) \<and> s1 = s else mm \<noteq> NULL)"
proof (cases "flags AND CLONE_VM = 0")
  case False
  then show ?thesis using assms by (auto simp: copy_mm_def same_tasks_of_def Let_def)
next
  case True
  then obtain mm pgd s2 s3 s4 s5 s6 where p: "new_mm (p_mm (procs s (cur (ks s)))) s = Some (mm, pgd, s2)"
    "new_table (table_slot pgd code_start_addr 4 s2) PAGE_USER_GDT s2 = Some s3"
    "new_table (table_slot pgd code_start_addr 3 s3) PAGE_USER_Dir s3 = Some s4"
    "copy_user_page (table_slot pgd code_start_addr 2 s4) code_start_addr s4 = Some s5"
    "s6 = s5 \<or> copy_user_page (table_slot pgd brk_start_addr 2 s5) brk_start_addr s5 = Some s6"
    "s' = set_mm t mm s6"
    using assms True by (auto simp: copy_mm_def Let_def bind_eq_Some_conv split: if_splits) blast+
  note new_mm_same [OF p(1)] new_table_same [OF p(2)] new_table_same [OF p(3)] copy_user_page_same [OF p(4)]
  moreover have "same_tasks_of s5 s6" using p(5) copy_user_page_same by (auto simp: same_tasks_of_def)
  ultimately have "same_tasks_of s s6 \<and> mm \<noteq> NULL" by (auto simp: same_tasks_of_def)
  then show ?thesis using p(6) True by auto
qed

lemma exit_mm_same: "exit_mm t s = Some s' \<Longrightarrow> same_tasks_of s s' \<and> tmem s' = tmem s"
  by (auto simp: exit_mm_def Let_def bind_eq_Some_conv split: if_splits dest!: tfree_same)
    (auto simp: same_tasks_of_def)

lemma reap_result:
  assumes "reap n p child status s = Some (r, s')"
  shows "r = 0 \<and> init_task_union s' = init_task_union s \<and> next_of s' = (next_of s)(p := next_of s child) \<and> ks s' = ks s \<and>
     tmem s' = (if verify_area status (word_of_nat n) then stos n (p_exit_code (procs s child)) status (tmem s) else tmem s)"
  using assms
  by (auto simp: reap_def Let_def bind_eq_Some_conv upd_proc_def dest!: tfree_same exit_mm_same)
    (auto simp: same_tasks_of_def)

text \<open>The scheduler works on with a task it does not know yet.\<close>

lemma sched_wf_new:
  assumes "sched_wf k q" and "t \<notin> sched_nodes k q"
  shows "sched_wf (upd_task t f k) q" and "sched_wf (k\<lparr>lnk := list_init (lnk k) t\<rparr>) q"
    and "sched_wf (wait_queue_init t w k) q"
proof -
  have init: "sched_wf (k\<lparr>lnk := list_init (lnk k) t\<rparr>) q"
    by (rule sched_wf_lnk [OF assms(1)])
      (use assms in \<open>auto intro!: init_frame simp: sched_wf_def runq_def Let_def sched_nodes_def\<close>)
  then show "sched_wf (k\<lparr>lnk := list_init (lnk k) t\<rparr>) q" .
  from init show "sched_wf (wait_queue_init t w k) q"
    by (simp add: wait_queue_init_def sched_wf_def runq_def SMP_cpu_id_def)
  have o: "tsk (upd_task t f k) x = tsk k x" if "x \<in> sched_nodes k q" for x
    using that assms(2) by (auto simp: upd_task_def)
  have c: "SMP_cpu_id (upd_task t f k) = SMP_cpu_id k" using o [of "cur k"] by (simp add: SMP_cpu_id_def sched_nodes_def)
  have "sorted_wrt (\<lambda>a b. vrt (upd_task t f k) a \<le> vrt (upd_task t f k) b) q = sorted_wrt (\<lambda>a b. vrt k a \<le> vrt k b) q"
    by (rule sorted_wrt_key_cong) (auto simp: o sched_nodes_def)
  then show "sched_wf (upd_task t f k) q"
    using assms(1) o unfolding sched_wf_def runq_def c Let_def by (simp add: sched_nodes_def)
qed

lemma sched_nodes_new:
  "t \<notin> sched_nodes k q \<Longrightarrow> sched_nodes (upd_task t f k) q = sched_nodes k q \<and> SMP_cpu_id (upd_task t f k) = SMP_cpu_id k"
  by (auto simp: sched_nodes_def SMP_cpu_id_def upd_task_def)

lemma insert_task_queue_tsk: "insert_task_queue k t = Some k' \<Longrightarrow> tsk k' = tsk k \<and> cur k' = cur k"
  by (auto simp: insert_task_queue_def Let_def bind_eq_Some_conv upd_sched_def split: if_splits)

lemma wakeup_process_tsk:
  "wakeup_process t k = Some k' \<Longrightarrow> t \<noteq> cur k \<Longrightarrow> tsk k' t = (tsk k t)\<lparr>ts_state := TASK_RUNNING\<rparr>"
  by (auto simp: wakeup_process_def Let_def bind_eq_Some_conv upd_task_def dest!: insert_task_queue_tsk)

lemma wakeup_new:
  assumes "sched_wf k q" and "t \<notin> sched_nodes k q" and "ts_cpu_id (tsk k t) = SMP_cpu_id k" and "wakeup_process t k = Some k'"
  shows "\<exists>q'. sched_wf k' q' \<and> set q' = insert t (set q) \<and> cur k' = cur k"
proof -
  have "t \<noteq> cur k" "t \<notin> set q" "t \<noteq> rqhead k (SMP_cpu_id k)" "t \<noteq> init_task k (SMP_cpu_id k)"
    using assms(2) by (auto simp: sched_nodes_def)
  from wakeup_process_refines [OF assms(1) this assms(3)] obtain k'' where
    "wakeup_process t k = Some k''" "sched_wf k'' (rq_insert (vrt k) t q)" "cur k'' = cur k" by blast
  with assms(4) show ?thesis by (intro exI [of _ "rq_insert (vrt k) t q"]) auto
qed

lemma wakeup_process_frame:
  "wakeup_process t k = Some k' \<Longrightarrow> cur k' = cur k \<and> (t \<noteq> u \<longrightarrow> ts_state (tsk k' u) = ts_state (tsk k u))"
  by (auto simp: wakeup_process_def Let_def bind_eq_Some_conv upd_task_def dest!: insert_task_queue_tsk)

lemma copy_thread_parts:
  "ks (copy_thread stack t regs s) = ks s" "init_task_union (copy_thread stack t regs s) = init_task_union s"
  "global_pid (copy_thread stack t regs s) = global_pid s"
  "\<exists>th. procs (copy_thread stack t regs s) =
     (procs s)(t := (procs s t)\<lparr>p_thread := th, p_regs := regs\<lparr>r_rax := 0, r_rsp := stack\<rparr>\<rparr>)"
  by (simp_all add: copy_thread_def upd_proc_def Let_def) blast

lemma set_mm_parts:
  "ks (set_mm t mm s) = upd_task t (\<lambda>k. k\<lparr>ts_pgd := mm_pgd (mms s mm)\<rparr>) (ks s)"
  "init_task_union (set_mm t mm s) = init_task_union s" "global_pid (set_mm t mm s) = global_pid s"
  "procs (set_mm t mm s) = (procs s)(t := (procs s t)\<lparr>p_mm := mm\<rparr>)"
  by (simp_all add: set_mm_def upd_proc_def)

lemma copy_flags_parts:
  "procs (copy_flags flags t s) = procs s" "init_task_union (copy_flags flags t s) = init_task_union s"
  "global_pid (copy_flags flags t s) = global_pid s"
  by (simp_all add: copy_flags_def)

lemma copy_flags_ks:
  "\<exists>g. ks (copy_flags flags t s) = upd_task t g (ks s) \<and>
     (flags AND CLONE_VM \<noteq> 0 \<longrightarrow> g = (\<lambda>k. k\<lparr>ts_flags := ts_flags k OR PF_VFORK\<rparr>)) \<and>
     (\<forall>k. ts_pid (g k) = ts_pid k \<and> ts_cpu_id (g k) = ts_cpu_id k)"
proof (cases "flags AND CLONE_VM = 0")
  case True
  then show ?thesis by (intro exI [of _ id]) (simp add: copy_flags_def upd_task_def)
next
  case False
  then show ?thesis
    by (intro exI [of _ "\<lambda>k. k\<lparr>ts_flags := ts_flags k OR PF_VFORK\<rparr>"]) (simp add: copy_flags_def)
qed

text \<open>What a fork has done before the new task is woken up.\<close>

lemma link_task_next:
  assumes "t \<noteq> init_task_union s"
  shows "init_task_union (link_task t s) = init_task_union s"
    and "next_of (link_task t s) = (next_of s)(t := next_of s (init_task_union s), init_task_union s := t)"
  using assms by (auto simp: link_task_def upd_proc_def Let_def)

lemma link_task_result:
  assumes "task_chain s xs" and "t \<notin> set (init_task_union s # xs)"
    and "sched_wf (ks s) q" and "{t, wait_childexit t} \<inter> sched_nodes (ks s) q = {}"
  defines "s' \<equiv> link_task t s"
  shows "task_chain s' (t # xs)" and "sched_wf (ks s') q" and "sched_nodes (ks s') q = sched_nodes (ks s) q"
    and "tsk (ks s') = (tsk (ks s))(t := (tsk (ks s) (cur (ks s)))\<lparr>ts_priority := 2, ts_pid := global_pid s,
           ts_cpu_id := SMP_cpu_id (ks s), ts_state := TASK_UNINTERRUPTIBLE\<rparr>)"
    and "cur (ks s') = cur (ks s)" and "p_parent (procs s' t) = cur (ks s)" and "global_pid s' = global_pid s + 1"
    and "init_task_union s' = init_task_union s" and "t \<noteq> cur (ks s) \<Longrightarrow> p_mm (procs s' (cur (ks s))) = p_mm (procs s (cur (ks s)))"
proof -
  have f: "init_task_union s' = init_task_union s" "next_of s' = (next_of s)(t := next_of s (init_task_union s), init_task_union s := t)"
    using assms(2) link_task_next [of t s] by (auto simp: s'_def)
  show "init_task_union s' = init_task_union s" by (rule f)
  show "task_chain s' (t # xs)" by (rule chain_push [OF assms(1,2) f])
  define k1 where "k1 = (ks s)\<lparr>lnk := list_init (lnk (ks s)) t\<rparr>"
  define k2 where "k2 = upd_task t (\<lambda>_. (tsk k1 (cur (ks s)))\<lparr>ts_priority := 2, ts_pid := global_pid s,
    ts_cpu_id := SMP_cpu_id k1, ts_state := TASK_UNINTERRUPTIBLE\<rparr>) k1"
  have k: "ks s' = wait_queue_init (wait_childexit t) NULL k2"
    by (simp add: s'_def link_task_def k2_def k1_def upd_proc_def Let_def)
  have n: "t \<notin> sched_nodes (ks s) q" "wait_childexit t \<notin> sched_nodes (ks s) q" using assms(4) by auto
  have n1: "sched_nodes k1 q = sched_nodes (ks s) q" by (simp add: sched_nodes_def k1_def SMP_cpu_id_def)
  have tc: "t \<noteq> cur (ks s)" using n(1) by (auto simp: sched_nodes_def)
  then have n2: "sched_nodes k2 q = sched_nodes k1 q" by (auto simp: sched_nodes_def k2_def SMP_cpu_id_def upd_task_def k1_def)
  have "sched_wf k1 q" unfolding k1_def by (rule sched_wf_new [OF assms(3) n(1)])
  then have "sched_wf k2 q" unfolding k2_def using n n1 by (intro sched_wf_new) auto
  then show "sched_wf (ks s') q" unfolding k using n n1 n2 by (intro sched_wf_new) auto
  show "sched_nodes (ks s') q = sched_nodes (ks s) q"
    unfolding k n1 [symmetric] n2 [symmetric] by (simp add: sched_nodes_def wait_queue_init_def SMP_cpu_id_def)
  show "tsk (ks s') = (tsk (ks s))(t := (tsk (ks s) (cur (ks s)))\<lparr>ts_priority := 2, ts_pid := global_pid s,
           ts_cpu_id := SMP_cpu_id (ks s), ts_state := TASK_UNINTERRUPTIBLE\<rparr>)"
    and "cur (ks s') = cur (ks s)"
    unfolding k by (simp_all add: wait_queue_init_def k2_def k1_def upd_task_def SMP_cpu_id_def)
  show "p_parent (procs s' t) = cur (ks s)" "global_pid s' = global_pid s + 1"
    by (simp_all add: s'_def link_task_def upd_proc_def Let_def)
  show "p_mm (procs s' (cur (ks s))) = p_mm (procs s (cur (ks s)))" if "t \<noteq> cur (ks s)"
    using that by (auto simp: s'_def link_task_def upd_proc_def Let_def)
qed

lemma fork_before_wakeup:
  assumes pre: "task_chain s xs" "t \<notin> set (init_task_union s # xs)" "sched_wf (ks s) q"
    "{t, wait_childexit t} \<inter> sched_nodes (ks s) q = {}"
    and c: "copy_mm flags t (copy_flags flags t (link_task t s)) = Some s3"
  shows "sched_wf (ks (copy_thread stack t regs s3)) q" and "t \<notin> sched_nodes (ks (copy_thread stack t regs s3)) q"
    and "ts_cpu_id (tsk (ks (copy_thread stack t regs s3)) t) = SMP_cpu_id (ks (copy_thread stack t regs s3))"
    and "ts_pid (tsk (ks (copy_thread stack t regs s3)) t) = global_pid s"
    and "cur (ks (copy_thread stack t regs s3)) = cur (ks s)"
    and "flags AND CLONE_VM \<noteq> 0 \<Longrightarrow> ts_flags (tsk (ks (copy_thread stack t regs s3)) t) = ts_flags (tsk (ks s) (cur (ks s))) OR PF_VFORK"
    and "task_chain (copy_thread stack t regs s3) (t # xs)"
    and "p_parent (procs (copy_thread stack t regs s3) t) = cur (ks s)"
    and "global_pid (copy_thread stack t regs s3) = global_pid s + 1"
    and "r_rax (p_regs (procs (copy_thread stack t regs s3) t)) = 0"
    and "r_rsp (p_regs (procs (copy_thread stack t regs s3) t)) = stack"
    and "if flags AND CLONE_VM \<noteq> 0 then p_mm (procs (copy_thread stack t regs s3) t) = p_mm (procs s (cur (ks s)))
         else p_mm (procs (copy_thread stack t regs s3) t) \<noteq> NULL"
proof -
  let ?c = "copy_thread stack t regs s3"
  define s1 where "s1 = link_task t s"
  note L = link_task_result [OF pre, folded s1_def]
  have tn: "t \<notin> sched_nodes (ks s) q" using pre(4) by auto
  then have tc: "t \<noteq> cur (ks s)" by (auto simp: sched_nodes_def)
  from copy_mm_set [OF c, folded s1_def] obtain mm s2 where s3: "s3 = set_mm t mm s2" and same: "same_tasks_of (copy_flags flags t s1) s2"
    and mm: "if flags AND CLONE_VM \<noteq> 0 then mm = p_mm (procs s1 (cur (ks s1))) \<and> s2 = copy_flags flags t s1 else mm \<noteq> NULL"
    by (auto simp: copy_flags_def split: if_splits)
  from copy_flags_ks [of flags t s1] obtain g where g: "ks s2 = upd_task t g (ks s1)"
    and flag: "flags AND CLONE_VM \<noteq> 0 \<Longrightarrow> g = (\<lambda>k. k\<lparr>ts_flags := ts_flags k OR PF_VFORK\<rparr>)"
    and gp: "\<And>k. ts_pid (g k) = ts_pid k \<and> ts_cpu_id (g k) = ts_cpu_id k"
    using same by (auto simp: same_tasks_of_def)
  define h where "h = (\<lambda>k. (g k)\<lparr>ts_pgd := mm_pgd (mms s2 mm)\<rparr>)"
  have k0: "ks ?c = upd_task t h (ks s1)"
    by (simp add: copy_thread_parts s3 set_mm_parts g h_def upd_task_def)
  have n1: "t \<notin> sched_nodes (ks s1) q" using tn L(3) by simp
  have cpu: "SMP_cpu_id (ks ?c) = SMP_cpu_id (ks s1)" "SMP_cpu_id (ks s1) = SMP_cpu_id (ks s)"
    using sched_nodes_new [OF n1, of h] tc L(4,5) by (simp_all add: k0) (simp_all add: SMP_cpu_id_def)
  have tk: "tsk (ks ?c) t = h (tsk (ks s1) t)" by (simp add: k0 upd_task_def)
  show "sched_wf (ks ?c) q" unfolding k0 by (rule sched_wf_new [OF L(2) n1])
  show "t \<notin> sched_nodes (ks ?c) q" using n1 sched_nodes_new [OF n1, of h] by (simp add: k0)
  show "ts_cpu_id (tsk (ks ?c) t) = SMP_cpu_id (ks ?c)" unfolding tk cpu by (simp add: h_def gp L(4))
  show "ts_pid (tsk (ks ?c) t) = global_pid s" unfolding tk by (simp add: h_def gp L(4))
  show "cur (ks ?c) = cur (ks s)" using L(5) by (simp add: k0)
  show "ts_flags (tsk (ks ?c) t) = ts_flags (tsk (ks s) (cur (ks s))) OR PF_VFORK" if "flags AND CLONE_VM \<noteq> 0"
    unfolding tk by (simp add: h_def flag [OF that] L(4))
  have procs: "procs ?c = (procs s1)(t := procs ?c t)" "p_next (procs ?c t) = p_next (procs s1 t)"
    "p_parent (procs ?c t) = p_parent (procs s1 t)" "p_mm (procs ?c t) = mm" "init_task_union ?c = init_task_union s1"
    "global_pid ?c = global_pid s1" "r_rax (p_regs (procs ?c t)) = 0" "r_rsp (p_regs (procs ?c t)) = stack"
    using same copy_thread_parts(4) [of stack t regs s3]
    by (auto simp: copy_thread_parts(2,3) s3 set_mm_parts same_tasks_of_def copy_flags_parts)
  have "next_of ?c = next_of s1" using procs(1,2) by (metis fun_upd_apply)
  then show "task_chain ?c (t # xs)" using L(1) procs(5) by (simp add: task_chain_def)
  show "p_parent (procs ?c t) = cur (ks s)" "global_pid ?c = global_pid s + 1" "r_rax (p_regs (procs ?c t)) = 0"
    "r_rsp (p_regs (procs ?c t)) = stack" using procs L(6,7) by simp_all
  show "if flags AND CLONE_VM \<noteq> 0 then p_mm (procs ?c t) = p_mm (procs s (cur (ks s))) else p_mm (procs ?c t) \<noteq> NULL"
    using mm procs(4) L(5,9) tc by simp
qed

text \<open>A fork that shares the address space allocates nothing but the task, and then succeeds.\<close>

lemma do_fork_vm_returns:
  assumes "kmalloc 2 STACK_SIZE (sm (pt s)) = Some (t, m)" and "t \<noteq> NULL" and "flags AND CLONE_VM \<noteq> 0"
    and "task_chain s xs" and "t \<notin> set (init_task_union s # xs)"
    and "sched_wf (ks s) q" and "{t, wait_childexit t} \<inter> sched_nodes (ks s) q = {}"
  shows "\<exists>r s'. do_fork regs flags stack s = Some (r, s')"
proof -
  let ?s = "s\<lparr>pt := (pt s)\<lparr>sm := m\<rparr>\<rparr>"
  have pre: "task_chain ?s xs" "t \<notin> set (init_task_union ?s # xs)" "sched_wf (ks ?s) q"
    "{t, wait_childexit t} \<inter> sched_nodes (ks ?s) q = {}" using assms(4-7) by (simp_all add: task_chain_def)
  obtain s3 where c: "copy_mm flags t (copy_flags flags t (link_task t ?s)) = Some s3"
    using assms(3) by (simp add: copy_mm_def Let_def)
  note F = fork_before_wakeup [OF pre c, of stack regs]
  have "t \<noteq> cur (ks (copy_thread stack t regs s3))" "t \<notin> set q"
    "t \<noteq> rqhead (ks (copy_thread stack t regs s3)) (SMP_cpu_id (ks (copy_thread stack t regs s3)))"
    "t \<noteq> init_task (ks (copy_thread stack t regs s3)) (SMP_cpu_id (ks (copy_thread stack t regs s3)))"
    using F(2) by (auto simp: sched_nodes_def)
  from wakeup_process_refines [OF F(1) this F(3)] obtain k where
    "wakeup_process t (ks (copy_thread stack t regs s3)) = Some k" by blast
  with c assms(1,2) show ?thesis by (simp add: do_fork_def Let_def)
qed

section \<open>Properties\<close>


text \<open>C29.  \<open>sys_wait4\<close> answers an unknown process number with \<open>-ECHILD\<close> and options with
  \<open>-EINVAL\<close>, without a change.  For the first task with the number, if it has exited, it stores the
  lower four bytes of the exit code, takes exactly this task out of the chain, frees its address space
  and its structure (which the allocator must manage to do) and returns 0.\<close>

theorem sys_wait4_result:
  assumes "task_chain s xs" and "p = last (init_task_union s # takeWhile (\<lambda>x. x \<noteq> child) xs)"
    and "s0 = upd_proc p (\<lambda>x. x\<lparr>p_next := next_of s child\<rparr>)
       (s\<lparr>tmem := (if verify_area status 4 then stos 4 (p_exit_code (procs s child)) status (tmem s) else tmem s)\<rparr>)"
    and "exit_mm child s0 = Some s1" and "tfree child s1 = Some s2"
  shows "case find (\<lambda>x. pid_of s x = pid) xs of
       None \<Rightarrow> sys_wait4 pid status options w resume s = Some (- ECHILD, s)
     | Some c \<Rightarrow>
         (options \<noteq> 0 \<longrightarrow> sys_wait4 pid status options w resume s = Some (- EINVAL, s)) \<and>
         (options = 0 \<longrightarrow> c = child \<longrightarrow> ts_state (tsk (ks s) c) = TASK_ZOMBIE \<longrightarrow>
            sys_wait4 pid status options w resume s = Some (0, s2) \<and> task_chain s2 (remove1 c xs) \<and> ks s2 = ks s \<and>
            tmem s2 = (if verify_area status 4 then stos 4 (p_exit_code (procs s c)) status (tmem s) else tmem s))"
proof -
  let ?i = "init_task_union s"
  have f: "follows (next_of s) (?i # xs) ?i" "?i \<notin> set xs" "distinct xs" using assms(1) by (auto simp: task_chain_def)
  note prev = find_prev_chain [OF f(1,2), of "pid_of s" pid]
  show ?thesis
  proof (cases "find (\<lambda>x. pid_of s x = pid) xs")
    case None
    then show ?thesis using prev by (simp add: sys_wait4_def)
  next
    case (Some c)
    define ys zs where yz: "ys = takeWhile (\<lambda>x. x \<noteq> c) xs" "zs = tl (dropWhile (\<lambda>x. x \<noteq> c) xs)"
    have "c \<in> set xs" using find_SomeD [OF Some] by blast
    then have xs: "xs = ys @ c # zs" unfolding yz by (rule split_at)
    then have next_p: "next_of s (last (?i # ys)) = c" using follows_last [of "next_of s" ?i ys c zs ?i] f(1) by simp
    have rm: "remove1 c xs = ys @ zs" using \<open>c \<in> set xs\<close> unfolding yz by (rule remove1_at)
    have find: "find_prev (next_of s) (pid_of s) ?i pid ?i = Some (Some (last (?i # ys)))" using prev Some by (simp add: yz)
    have "sys_wait4 pid status options w resume s = Some (- EINVAL, s)" if "options \<noteq> 0"
      using that unfolding sys_wait4_def find by (simp add: Let_def)
    moreover have "sys_wait4 pid status 0 w resume s = Some (0, s2) \<and> task_chain s2 (remove1 c xs) \<and> ks s2 = ks s \<and>
        tmem s2 = (if verify_area status 4 then stos 4 (p_exit_code (procs s c)) status (tmem s) else tmem s)"
      if c: "c = child" and z: "ts_state (tsk (ks s) c) = TASK_ZOMBIE"
    proof -
      have p: "p = last (?i # ys)" using assms(2) c by (simp add: yz)
      have r: "reap 4 p child status s = Some (0, s2)"
        using assms(4,5) by (simp add: reap_def assms(3) Let_def upd_proc_def)
      note R = reap_result [OF r]
      have "task_chain s2 (ys @ zs)" by (rule chain_drop [OF assms(1) [unfolded xs] p]) (use R c in simp_all)
      moreover have "sys_wait4 pid status 0 w resume s = Some (0, s2)"
        using r z next_p unfolding sys_wait4_def find p c by (simp add: Let_def)
      ultimately show ?thesis using R rm c by simp
    qed
    ultimately show ?thesis unfolding Some option.case by blast
  qed
qed

text \<open>C31.  A wait that has to sleep works with the predecessor it found before.  If the child was the
  first in the chain and another task has been forked in the meantime, the new task is taken out of the
  chain together with the child: nobody can wait for it any more.\<close>

theorem wait4_drops_forked:
  assumes "task_chain s (child # xs)" and "pid_of s child = pid" and "ts_state (tsk (ks s) child) \<noteq> TASK_ZOMBIE"
    and "interruptible_sleep_on w (wait_childexit (cur (ks s))) (ks s) = Some k"
    and "resume (s\<lparr>ks := k\<rparr>) = Some s2" and "task_chain s2 (t # child # xs)" and "init_task_union s2 = init_task_union s"
    and "sys_wait4 pid status 0 w resume s = Some (r, s')"
  shows "r = 0 \<and> task_chain s' xs \<and> t \<notin> set xs"
proof -
  let ?i = "init_task_union s"
  have n: "next_of s ?i = child" "child \<noteq> ?i" using assms(1) by (auto simp: task_chain_def)
  then have "find_prev (next_of s) (pid_of s) ?i pid ?i = Some (Some ?i)" using assms(2) by (subst find_prev.simps) simp
  then have reap: "reap 8 ?i child status s2 = Some (r, s')"
    using assms(3-5,8) n by (simp add: sys_wait4_def Let_def)
  have c: "next_of s2 child = hd (xs @ [?i])" "follows (next_of s2) xs ?i" "distinct (?i # t # child # xs)"
    using assms(6,7) by (auto simp: task_chain_def)
  note R = reap_result [OF reap]
  have nx: "next_of s' x = (if x = ?i then next_of s2 child else next_of s2 x)" for x
    using R by (metis fun_upd_apply)
  then have "follows (next_of s') xs ?i = follows (next_of s2) xs ?i" using c(3) by (intro follows_cong) auto
  then show ?thesis using c R assms(7) nx [of ?i] by (auto simp: task_chain_def)
qed

text \<open>C30.  A task that exits wakes the parent that waits for it: \<open>do_exit\<close> leaves the exit code and
  the state \<open>TASK_ZOMBIE\<close>, makes the parent at the head of the wait queue runnable, and gives the
  processor to another task; the parent then runs or is in the run queue, the exited task is neither
  and so never runs again.\<close>

theorem exit_wakes_parent:
  assumes "sched_wf (ks s) q" and "cur (ks s) = me"
    and "waitq (ks s) q (wait_childexit (p_parent (procs s me))) (w # ws)"
    and "wait_tsk (ks s) w = t" and "ts_state (tsk (ks s) t) = TASK_INTERRUPTIBLE"
    and "t \<notin> sched_nodes (ks s) q" and "t \<notin> set (wait_childexit (p_parent (procs s me)) # ws)"
    and "ts_cpu_id (tsk (ks s) t) = SMP_cpu_id (ks s)"
  shows "\<exists>s' q'. do_exit code s = Some s' \<and> sched_wf (ks s') q' \<and> t \<in> set (cur (ks s') # q') \<and>
     ts_state (tsk (ks s') t) = TASK_RUNNING \<and> ts_state (tsk (ks s') me) = TASK_ZOMBIE \<and>
     p_exit_code (procs s' me) = code \<and> me \<notin> set (cur (ks s') # q')"
proof -
  let ?h = "wait_childexit (p_parent (procs s me))"
  define k where "k = upd_task me (\<lambda>k. k\<lparr>ts_state := TASK_ZOMBIE\<rparr>) (ks s)"
  define s1 where "s1 = upd_proc me (\<lambda>p. p\<lparr>p_exit_code := code\<rparr>) (s\<lparr>ks := k\<rparr>)"
  have wf: "sched_wf k q" using assms(1) by (simp add: k_def sched_wf_upd_state)
  have cpu: "SMP_cpu_id k = SMP_cpu_id (ks s)" by (simp add: k_def SMP_cpu_id_def upd_task_def)
  then have n: "sched_nodes k q = sched_nodes (ks s) q" by (simp add: sched_nodes_def k_def)
  have wq: "waitq k q ?h (w # ws)" using assms(3) by (simp add: waitq_def n) (simp add: k_def)
  have t: "t \<noteq> cur k" "t \<notin> set q" "t \<noteq> rqhead k (SMP_cpu_id k)" "t \<noteq> init_task k (SMP_cpu_id k)"
    using assms(6) unfolding n [symmetric] by (auto simp: sched_nodes_def)
  have me: "cur k = me" "t \<noteq> me" using t(1) assms(2) by (auto simp: k_def)
  have ts: "ts_cpu_id (tsk k t) = SMP_cpu_id k" "ts_state (tsk k t) = TASK_INTERRUPTIBLE" "wait_tsk k w = t"
    using assms(4,5,8) me(2) cpu by (simp_all add: k_def upd_task_def)
  from wakeup_waiter [OF wf wq t ts(1) assms(7)] obtain k1 where
    k1: "wakeup_process t (k\<lparr>lnk := list_del (lnk k) w\<rparr>) = Some k1" "sched_wf k1 (rq_insert (vrt k) t q)"
      "ts_state (tsk k1 t) = TASK_RUNNING" by blast
  note C = wakeup_process_frame [OF k1(1)]
  have cz: "cur k1 = me" "ts_state (tsk k1 me) = TASK_ZOMBIE"
    using C me by (simp_all add: k_def upd_task_def)
  have ring: "ring (lnk k) ?h (w # ws)" using wq by (simp add: waitq_def)
  have "wakeup ?h TASK_INTERRUPTIBLE k = Some k1"
    using k1(1) kl.rep_empty [OF ring] kl.rep_succ [OF ring] ts(2,3) by (simp add: wakeup_def) (simp add: TASK_INTERRUPTIBLE_def)
  then have notify: "exit_notify s1 = Some (s1\<lparr>ks := k1\<rparr>)"
    using me(1) by (simp add: exit_notify_def s1_def upd_proc_def)
  obtain k2 where k2: "schedule k1 = Some k2" using schedule_returns [OF k1(2)] by blast
  note P = schedule_post [OF k1(2) k2]
  obtain x xs where x: "rq_insert (vrt k) t q = x # xs" by (cases "rq_insert (vrt k) t q") (auto dest: arg_cong [where f = set])
  then have r: "sched_result k1 (rq_insert (vrt k) t q) = (x, xs)"
    using cz by (simp add: sched_result_def sched_spec_def sched_pick_def task_consts)
  have set: "set (x # xs) = insert t (set q)" unfolding x [symmetric] by simp
  have "do_exit code s = Some (s1\<lparr>ks := k2\<rparr>)"
    using notify k2 assms(2) by (simp add: do_exit_def Let_def s1_def k_def)
  moreover have "me \<notin> insert t (set q)" using me sched_wfD(2) [OF wf] by auto
  moreover have "p_exit_code (procs (s1\<lparr>ks := k2\<rparr>) me) = code" by (simp add: s1_def upd_proc_def)
  ultimately show ?thesis
    using P(1,2,4) r set k1(3) cz by (intro exI [of _ "s1\<lparr>ks := k2\<rparr>"] exI [of _ xs]) (auto simp: clear_need_def)
qed

text \<open>The processor of theory \<open>Schedule\<close>; the only task in the chain is 0x6000, which shares the
  address space of its parent.\<close>

definition demo_tsys :: "u64 \<Rightarrow> tsys" where
  "demo_tsys st = \<lparr>ks = upd_task 0x6000 (\<lambda>k. k\<lparr>ts_state := st, ts_flags := PF_VFORK, ts_pid := 3\<rparr>)
       (demo_sched\<lparr>lnk := list_init (lnk demo_sched) 0x40c0\<rparr>),
     procs = (\<lambda>_. \<lparr>p_mm = 0x20, p_thread = \<lparr>th_rsp0 = 0, th_rip = 0, th_rsp = 0, th_fs = 0, th_gs = 0\<rparr>,
       p_regs = zero_regs, p_addr_limit = 0, p_exit_code = 42, p_next = 0x5000, p_parent = 0x7f40\<rparr>)
       (0x5000 := \<lparr>p_mm = 0x20, p_thread = \<lparr>th_rsp0 = 0, th_rip = 0, th_rsp = 0, th_fs = 0, th_gs = 0\<rparr>,
       p_regs = zero_regs, p_addr_limit = 0, p_exit_code = 0, p_next = 0x6000, p_parent = 0x5000\<rparr>),
     mms = (\<lambda>_. zero_mm\<lparr>mm_pgd := 0x1000\<rparr>), pt = demo_vmem, tmem = (\<lambda>_. 0),
     global_pid = 7, init_task_union = 0x5000, ret_system_call = 0, kernel_thread_func = 0\<rparr>"

lemma family_chain: "task_chain (demo_tsys st) [0x6000]"
  by (simp add: task_chain_def demo_tsys_def)

lemma demo_tsys_wf: "sched_wf (ks (demo_tsys st)) [0x2000, 0x3000]"
  unfolding demo_tsys_def tsys.simps
  by (rule sched_wf_new, rule sched_wf_new(2) [OF demo_wf])
    (simp_all add: sched_nodes_def demo_sched_def demo_task_def zero_task_def SMP_cpu_id_def)

lemma demo_stack: "\<exists>m. kmalloc 2 STACK_SIZE demo_smem = Some (0x2408000, m)"
proof -
  have i: "cache_index STACK_SIZE demo_smem = 10" by code_simp
  have w: "free_slab_walk demo_smem 18 18 = Some 18" by (subst free_slab_walk.simps) (simp add: demo_smem_def)
  have "kmalloc (Suc 1) STACK_SIZE demo_smem = Some (kmalloc_take 10 18 demo_smem)"
    using kmalloc_hit [of STACK_SIZE demo_smem 18 1] w unfolding i by (simp add: STACK_SIZE_def demo_smem_def)
  moreover have "fst (kmalloc_take 10 18 demo_smem) = 0x2408000" by code_simp
  ultimately show ?thesis by (metis Suc_1 prod.collapse)
qed


lemma demo_tfree: "a AND NOT 0x1fffff = 0 \<Longrightarrow> pt s = demo_vmem \<Longrightarrow> tfree a s = Some s"
  using demo_kfree_find [of "[0..<16]"] by (simp add: tfree_def numeral_2_eq_2) (simp add: demo_vmem_def)

lemma demo_exit_mm: "ts_flags (tsk (ks s) 0x6000) = PF_VFORK \<Longrightarrow> exit_mm 0x6000 s = Some s"
  by (simp add: exit_mm_def PF_VFORK_def)

theorem sys_wait4_result_witness:
  "\<exists>s'. sys_wait4 3 0x100000 0 0xB000 Some (demo_tsys TASK_ZOMBIE) = Some (0, s') \<and> task_chain s' [] \<and>
     tmem s' = stos 4 42 0x100000 (\<lambda>_. 0)"
proof -
  let ?s = "demo_tsys TASK_ZOMBIE"
  define s0 where "s0 = upd_proc 0x5000 (\<lambda>x. x\<lparr>p_next := next_of ?s 0x6000\<rparr>)
       (?s\<lparr>tmem := (if verify_area 0x100000 4 then stos 4 (p_exit_code (procs ?s 0x6000)) 0x100000 (tmem ?s) else tmem ?s)\<rparr>)"
  have p: "(0x5000 :: addr) = last (init_task_union ?s # takeWhile (\<lambda>x. x \<noteq> 0x6000) [0x6000])" by (simp add: demo_tsys_def)
  have e: "exit_mm 0x6000 s0 = Some s0"
    by (rule demo_exit_mm) (simp add: s0_def upd_proc_def, simp add: demo_tsys_def upd_task_def)
  have f: "tfree 0x6000 s0 = Some s0" by (rule demo_tfree) (simp_all add: s0_def upd_proc_def demo_tsys_def)
  have "find (\<lambda>x. pid_of ?s x = 3) [0x6000] = Some 0x6000" "ts_state (tsk (ks ?s) 0x6000) = TASK_ZOMBIE"
    "p_exit_code (procs ?s 0x6000) = 42" "tmem ?s = (\<lambda>_. 0)" "verify_area 0x100000 4"
    by (simp_all add: pid_of_def demo_tsys_def upd_task_def verify_area_def)
  with sys_wait4_result [OF family_chain p s0_def e f, of 3 0 "0xB000" Some] show ?thesis by simp
qed

theorem exit_wakes_parent_witness:
  "\<exists>s' q'. do_exit 5 (demo_tsys TASK_INTERRUPTIBLE) = Some s' \<and> 0x6000 \<in> set (cur (ks s') # q') \<and>
     ts_state (tsk (ks s') 0x6000) = TASK_RUNNING \<and> 0x4000 \<notin> set (cur (ks s') # q')"
proof -
  let ?s = "demo_tsys TASK_INTERRUPTIBLE"
  have h: "wait_childexit (p_parent (procs ?s 0x4000)) = 0x8000" by (simp add: demo_tsys_def wait_childexit_def)
  have n: "sched_nodes (ks ?s) [0x2000, 0x3000] = sched_nodes demo_sched [0x2000, 0x3000]"
    by (simp add: sched_nodes_def demo_tsys_def SMP_cpu_id_def upd_task_def demo_sched_def)
  have q: "waitq (ks ?s) [0x2000, 0x3000] (wait_childexit (p_parent (procs ?s 0x4000))) [0x9000]"
    unfolding h using demo_waitq unfolding waitq_def n by (auto simp: demo_tsys_def intro!: init_frame)
  have "\<exists>s' q'. do_exit 5 ?s = Some s' \<and> sched_wf (ks s') q' \<and> 0x6000 \<in> set (cur (ks s') # q') \<and>
     ts_state (tsk (ks s') 0x6000) = TASK_RUNNING \<and> ts_state (tsk (ks s') 0x4000) = TASK_ZOMBIE \<and>
     p_exit_code (procs s' 0x4000) = 5 \<and> 0x4000 \<notin> set (cur (ks s') # q')"
    by (rule exit_wakes_parent [OF demo_tsys_wf _ q])
      (unfold n h, simp_all add: demo_tsys_def sched_nodes_def upd_task_def SMP_cpu_id_def, simp_all add: demo_sched_def demo_task_def zero_task_def)
  then show ?thesis by blast
qed

lemma demo_sleep:
  "\<exists>k. interruptible_sleep_on 0xB000 (wait_childexit 0x4000) (ks (demo_tsys 4)) = Some k \<and>
     ts_flags (tsk k 0x6000) = PF_VFORK"
proof -
  let ?k = "ks (demo_tsys 4)" and ?h = "wait_childexit 0x4000"
  let ?e = "sleep_enqueue 0xB000 ?h TASK_INTERRUPTIBLE ?k"
  have h: "?h = 0x40c0" by (simp add: wait_childexit_def)
  have "sched_nodes ?k [0x2000, 0x3000] = {0x4000, 0x5000, 0x1000, 0x2000, 0x3000}"
    by (auto simp: sched_nodes_def demo_tsys_def demo_sched_def SMP_cpu_id_def)
  then have "waitq ?k [0x2000, 0x3000] ?h []" and w: "0xB000 \<notin> set [?h]" "0xB000 \<notin> sched_nodes ?k [0x2000, 0x3000]"
    unfolding h by (simp_all add: waitq_def) (simp add: demo_tsys_def list_init_ring)
  note E = sleep_enqueue_refines [OF demo_tsys_wf this(1) w, of TASK_INTERRUPTIBLE]
  obtain k where k: "schedule ?e = Some k" using schedule_returns [OF E(1)] by blast
  have "ts_flags (tsk ?e 0x6000) = PF_VFORK" "cur ?e = 0x4000"
    by (simp_all add: sleep_enqueue_def wait_queue_init_def Let_def upd_task_def demo_tsys_def demo_sched_def)
  with schedule_post(4) [OF E(1) k] k show ?thesis by (simp add: interruptible_sleep_on_def clear_need_def upd_task_def)
qed

theorem wait4_drops_forked_witness:
  "\<exists>s'. sys_wait4 3 0x100000 0 0xB000 (\<lambda>s. Some (link_task 0x7000 s)) (demo_tsys 4) = Some (0, s') \<and> task_chain s' []"
proof -
  let ?s = "demo_tsys 4"
  have c: "cur (ks ?s) = 0x4000" by (simp add: demo_tsys_def demo_sched_def)
  obtain k where k: "interruptible_sleep_on 0xB000 (wait_childexit (cur (ks ?s))) (ks ?s) = Some k"
    "ts_flags (tsk k 0x6000) = PF_VFORK" using demo_sleep unfolding c by blast
  let ?s1 = "?s\<lparr>ks := k\<rparr>"
  let ?s2 = "link_task 0x7000 ?s1"
  have i: "init_task_union ?s = 0x5000" "next_of ?s 0x5000 = 0x6000" by (simp_all add: demo_tsys_def)
  have "task_chain ?s1 [0x6000]" using family_chain [of 4] by (simp add: task_chain_def)
  then have chain: "task_chain ?s2 [0x7000, 0x6000]"
    by (rule chain_push [OF _ _ link_task_next]) (simp_all add: i)
  have s2: "init_task_union ?s2 = init_task_union ?s" using link_task_next [of "0x7000" ?s1] i by simp
  have child: "pid_of ?s 0x6000 = 3" "ts_state (tsk (ks ?s) 0x6000) \<noteq> TASK_ZOMBIE"
    by (simp_all add: pid_of_def demo_tsys_def upd_task_def TASK_ZOMBIE_def)
  have flags: "ts_flags (tsk (ks ?s2) 0x6000) = PF_VFORK" "pt ?s2 = demo_vmem"
    using k(2) by (simp_all add: link_task_def upd_proc_def Let_def wait_queue_init_def upd_task_def) (simp add: demo_tsys_def)
  have find: "find_prev (next_of ?s) (pid_of ?s) 0x5000 3 0x5000 = Some (Some 0x5000)"
    using i child(1) by (subst find_prev.simps) simp
  define s3 where "s3 = upd_proc 0x5000 (\<lambda>p. p\<lparr>p_next := next_of ?s2 0x6000\<rparr>)
    (?s2\<lparr>tmem := (if verify_area 0x100000 8 then stos 8 (p_exit_code (procs ?s2 0x6000)) 0x100000 (tmem ?s2) else tmem ?s2)\<rparr>)"
  have "exit_mm 0x6000 s3 = Some s3" by (rule demo_exit_mm) (simp add: s3_def upd_proc_def flags)
  moreover have "tfree 0x6000 s3 = Some s3" by (rule demo_tfree) (simp_all add: s3_def upd_proc_def flags)
  ultimately have "reap 8 0x5000 0x6000 0x100000 ?s2 = Some (0, s3)"
    by (simp add: reap_def Let_def s3_def [symmetric])
  then have w: "sys_wait4 3 0x100000 0 0xB000 (\<lambda>s. Some (link_task 0x7000 s)) ?s = Some (0, s3)"
    using k(1) child(2) by (simp add: sys_wait4_def i find Let_def)
  from wait4_drops_forked [OF family_chain child k(1) refl chain s2 w] w show ?thesis by blast
qed

end
