(* ===== verification/Exec.thy ===== *)
theory Exec
  imports Sys Task
begin

unbundle bit_operations_syntax

text \<open>
  Running a program: \<open>do_execve\<close> of \<open>src/task.c\<close> and \<open>sys_execve\<close> of \<open>src/sys.c\<close>.  The state is a
  task system together with the open files; \<open>tmem\<close> is memory as the current task sees it.  The bytes
  of a user page are held at its user addresses while its tables are loaded; loading other tables
  changes what is seen at the addresses whose translation they change.
\<close>

section \<open>State\<close>

record xsys =
  ts :: tsys
  fsys :: ksys

definition USER_CS :: u64 where "USER_CS = 0x28"
definition USER_DS :: u64 where "USER_DS = 0x30"

text \<open>An operation on files works on the same memory.\<close>

definition with_files :: "(ksys \<Rightarrow> ('a \<times> ksys) option) \<Rightarrow> xsys \<Rightarrow> ('a \<times> xsys) option" where
  "with_files f x = do {
     let k = fsys x;
     (r, k) \<leftarrow> f (k\<lparr>fs := (fs k)\<lparr>vmem := tmem (ts x)\<rparr>\<rparr>);
     Some (r, \<lparr>ts = (ts x)\<lparr>tmem := vmem (fs k)\<rparr>, fsys = k\<rparr>)
   }"

section \<open>The address space\<close>

text \<open>A child of \<open>vfork\<close> gets an address space of its own, empty below the kernel.\<close>

definition own_mm :: "tsys \<Rightarrow> tsys option" where
  "own_mm s =
     (let me = cur (ks s)
      in if ts_flags (tsk (ks s) me) AND PF_VFORK = 0 then Some s
         else do {
           (mm, s) \<leftarrow> tmalloc sizeof_mm_struct s;
           (pgd, s) \<leftarrow> tmalloc 0x1000 s;
           let s = upd_mm mm (\<lambda>_. zero_mm\<lparr>mm_pgd := Virt_To_Phy pgd\<rparr>) s;
           let kpgd = ts_pgd (tsk (ks s) (init_task (ks s) (SMP_cpu_id (ks s))));
           let s = s\<lparr>pt := (pt s)\<lparr>ptm := copy_kernel_half (Phy_To_Virt kpgd) pgd (ptm (pt s))\<rparr>\<rparr>;
           Some (set_mm me mm s)
         })"

abbreviation cur_mm :: "tsys \<Rightarrow> addr" where
  "cur_mm s \<equiv> p_mm (procs s (cur (ks s)))"

definition cur_pgd :: "tsys \<Rightarrow> u64" where
  "cur_pgd s = mm_pgd (mms s (cur_mm s))"

text \<open>The page of the program is mapped as \<open>do_brk\<close> maps one; a missing page is a null pointer that
  is dereferenced.\<close>

definition map_code :: "tsys \<Rightarrow> tsys option" where
  "map_code s = do {
     (ok, v) \<leftarrow> brk_page (cur_pgd s) code_start_addr (pt s);
     if ok then Some (s\<lparr>pt := v\<rparr>) else None
   }"

text \<open>The page table walk of the processor for a 2 MB page.\<close>

definition translate :: "(addr \<Rightarrow> u64) \<Rightarrow> u64 \<Rightarrow> addr \<Rightarrow> u64 option" where
  "translate m pgd va =
     (let e = pt_leaf m pgd va
      in if e = 0 then None else Some ((e AND NOT 0x1fffff) + (va AND 0x1fffff)))"

definition load_cr3 :: "u64 \<Rightarrow> (addr \<Rightarrow> u64) \<Rightarrow> u64 \<Rightarrow> (addr \<Rightarrow> u64) \<Rightarrow> mem \<Rightarrow> mem" where
  "load_cr3 old om pgd nm m =
     (\<lambda>a. if TASK_SIZE < a \<or> translate nm pgd a = translate om old a then m a
          else case translate nm pgd a of None \<Rightarrow> m a | Some p \<Rightarrow> m (Phy_To_Virt p))"

section \<open>The arguments\<close>

text \<open>The vector of at most ten pointers is at \<open>dargv\<close>, the strings below it, the first one highest.\<close>

fun put_args :: "nat \<Rightarrow> nat \<Rightarrow> addr \<Rightarrow> addr \<Rightarrow> addr \<Rightarrow> mem \<Rightarrow> (nat \<times> addr \<times> mem) option" where
  "put_args 0 i argv dargv pos m = Some (i, pos, m)"
| "put_args (Suc n) i argv dargv pos m =
     (let arg = load_le 8 (argv + 8 * word_of_nat i) m
      in if arg = NULL then Some (i, pos, m)
         else do {
           let len = strnlen_user arg 1024 m + 1;
           (_, m) \<leftarrow> strcpy (pos - len) arg m;
           let m = stos 8 (pos - len) (dargv + 8 * word_of_nat i) m;
           put_args n (Suc i) argv dargv (pos - len) m
         })"

definition dargv_addr :: addr where "dargv_addr = stack_start_addr - 80"

text \<open>The new stack starts ten bytes below the strings.\<close>

definition copy_args :: "addr \<Rightarrow> pt_regs \<Rightarrow> mem \<Rightarrow> (addr \<times> pt_regs \<times> mem) option" where
  "copy_args argv regs m =
     (if argv = NULL then Some (stack_start_addr, regs, m)
      else do {
        (i, pos, m) \<leftarrow> put_args 10 0 argv dargv_addr dargv_addr m;
        Some (pos - 10, regs\<lparr>r_rdi := word_of_nat i, r_rsi := dargv_addr\<rparr>, m)
      })"

section \<open>execve\<close>

text \<open>The position is a local variable, not that of the file.  A missing \<open>read\<close> is a null pointer.\<close>

definition load_program :: "(kbuf \<Rightarrow> kbuf) \<Rightarrow> addr \<Rightarrow> addr \<Rightarrow> ksys \<Rightarrow> (u64 \<times> ksys) option" where
  "load_program woken filp buf k =
     (let cnt = file_size (inodes (fs k) (dir_inode (dentries (fs k) (f_dentry (files (fs k) filp)))))
      in case f_f_ops (files (fs k) filp) of
           No_file_ops \<Rightarrow> None
         | FAT32_file_ops \<Rightarrow> do { (r, pos, v) \<leftarrow> FAT32_read filp buf cnt 0 (fs k); Some (r, k\<lparr>fs := v\<rparr>) }
         | keyboard_fops \<Rightarrow> Some (read_keyboard woken buf cnt k))"

definition exec_mm :: "u64 \<Rightarrow> mm_struct \<Rightarrow> mm_struct" where
  "exec_mm len mm = mm\<lparr>mm_start_code := code_start_addr, mm_end_code := 0, mm_start_data := 0, mm_end_data := 0,
     mm_start_rodata := 0, mm_end_rodata := 0, mm_start_bss := code_start_addr + len, mm_end_bss := stack_start_addr,
     mm_start_brk := brk_start_addr, mm_end_brk := brk_start_addr, mm_start_stack := stack_start_addr\<rparr>"

definition user_regs :: "addr \<Rightarrow> pt_regs \<Rightarrow> pt_regs" where
  "user_regs stack regs = regs\<lparr>r_ds := USER_DS, r_es := USER_DS, r_ss := USER_DS, r_cs := USER_CS,
     r_r10 := code_start_addr, r_r11 := stack, r_rax := 1\<rparr>"

definition exec_task :: "u64 \<Rightarrow> tsys \<Rightarrow> tsys" where
  "exec_task len s =
     (let me = cur (ks s); flags = ts_flags (tsk (ks s) me);
          s = (if flags AND PF_KTHREAD = 0 then upd_proc me (\<lambda>p. p\<lparr>p_addr_limit := TASK_SIZE\<rparr>) s else s);
          s = upd_mm (cur_mm s) (exec_mm len) s
      in s\<lparr>ks := upd_task me (\<lambda>k. k\<lparr>ts_flags := flags AND NOT PF_VFORK\<rparr>) (ks s)\<rparr>)"

text \<open>From the new address space to the open file, an error of which is returned at once.\<close>

definition exec_open :: "addr \<Rightarrow> xsys \<Rightarrow> (addr \<times> xsys) option" where
  "exec_open name x = do {
     let old = cur_pgd (ts x);
     let om = ptm (pt (ts x));
     s \<leftarrow> own_mm (ts x);
     s \<leftarrow> map_code s;
     let s = s\<lparr>tmem := load_cr3 old om (cur_pgd s) (ptm (pt s)) (tmem s)\<rparr>;
     with_files (\<lambda>k. do { (filp, v) \<leftarrow> open_exec_file name (fs k); Some (filp, k\<lparr>fs := v\<rparr>) }) (x\<lparr>ts := s\<rparr>)
   }"

definition exec_image :: "(kbuf \<Rightarrow> kbuf) \<Rightarrow> addr \<Rightarrow> pt_regs \<Rightarrow> addr \<Rightarrow> xsys \<Rightarrow> (u64 \<times> pt_regs \<times> xsys) option" where
  "exec_image woken filp regs argv x = do {
     let v = fs (fsys x);
     let s = exec_task (file_size (inodes v (dir_inode (dentries v (f_dentry (files v filp)))))) (ts x);
     (stack, regs, m) \<leftarrow> copy_args argv regs (tmem s);
     let m = snd (memset code_start_addr 0 (stack - code_start_addr) m);
     (r, x) \<leftarrow> with_files (load_program woken filp code_start_addr) (x\<lparr>ts := s\<lparr>tmem := m\<rparr>\<rparr>);
     Some (r, user_regs stack regs, x)
   }"

text \<open>\<open>regs\<close> points to the saved registers of the current task.\<close>

definition do_execve :: "(kbuf \<Rightarrow> kbuf) \<Rightarrow> addr \<Rightarrow> addr \<Rightarrow> xsys \<Rightarrow> (u64 \<times> xsys) option" where
  "do_execve woken name argv x = do {
     let me = cur (ks (ts x));
     (filp, x) \<leftarrow> exec_open name x;
     if filp > - 0x1000 then Some (filp, x)
     else do {
       (r, regs, x) \<leftarrow> exec_image woken filp (p_regs (procs (ts x) me)) argv x;
       Some (r, x\<lparr>ts := upd_proc me (\<lambda>p. p\<lparr>p_regs := regs\<rparr>) (ts x)\<rparr>)
     }
   }"

text \<open>The name is copied as in \<open>sys_open\<close>.\<close>

definition sys_execve :: "(kbuf \<Rightarrow> kbuf) \<Rightarrow> xsys \<Rightarrow> (u64 \<times> xsys) option" where
  "sys_execve woken x = do {
     let regs = p_regs (procs (ts x) (cur (ks (ts x))));
     (path, x) \<leftarrow> with_files (\<lambda>k. do { (r, v) \<leftarrow> get_path (r_rdi regs) (fs k); Some (r, k\<lparr>fs := v\<rparr>) }) x;
     case path of
       Inl e \<Rightarrow> Some (e, x)
     | Inr pathname \<Rightarrow> do {
         (r, x) \<leftarrow> do_execve woken pathname (r_rsi regs) x;
         with_files (\<lambda>k. Some (r, k\<lparr>fs := put_object pathname (fs k)\<rparr>)) x
       }
   }"

section \<open>Writing the arguments\<close>

definition span :: "nat \<Rightarrow> nat \<Rightarrow> addr \<Rightarrow> bool" where
  "span lo hi a \<longleftrightarrow> lo \<le> unat a \<and> unat a < hi"

text \<open>\<open>n\<close> bytes from \<open>a\<close> on lie outside the range.\<close>

definition outside :: "nat \<Rightarrow> nat \<Rightarrow> addr \<Rightarrow> nat \<Rightarrow> bool" where
  "outside lo hi a n \<longleftrightarrow> (\<forall>k < n. \<not> span lo hi (a + word_of_nat k))"

lemma in_range: "unat a + n \<le> 2 ^ 64 \<Longrightarrow> unat (x - a) < n \<longleftrightarrow> span (unat a) (unat a + n) x"
  using in_area_nat [of a n x] by (simp add: in_area_def span_def)

lemma stos_outside: "unat di + k \<le> 2 ^ 64 \<Longrightarrow> \<not> span (unat di) (unat di + k) a \<Longrightarrow> stos k w di m a = m a"
  by (simp add: stos_def in_range)

lemma put_str_frame:
  "unat di + length xs \<le> 2 ^ 64 \<Longrightarrow> \<not> span (unat di) (unat di + length xs) a \<Longrightarrow> put_str di xs m a = m a"
  by (simp add: put_str_def in_range)

lemma load_le_frame: "(\<And>k. k < n \<Longrightarrow> m' (a + word_of_nat k) = m (a + word_of_nat k)) \<Longrightarrow> load_le n a m' = load_le n a m"
  unfolding load_le_def by (intro arg_cong [where f = le_word] map_cong) auto

lemma load_stos_8: "load_le 8 a (stos 8 w a m) = w"
proof -
  have "map (\<lambda>i. stos 8 w a m (a + word_of_nat i)) [0..<8] = map (\<lambda>k. byte_of k w) [0..<8]"
    by (intro map_cong) (auto simp: stos_def byte_of_def unat_of_nat_small)
  then show ?thesis unfolding load_le_def using le_word_bytes [of w 8] by (simp only:) (simp add: take_bit_word_eq_self)
qed

lemma cstr_put_str:
  assumes "0 \<notin> set xs" "length xs < 2 ^ 32"
  shows "cstr (put_str a (xs @ [0]) m) a xs"
  using assms put_str_at [of _ "xs @ [0]" a m] by (auto simp: cstr_nth nth_append)

definition room :: "u8 list list \<Rightarrow> nat" where
  "room ss = sum_list (map (\<lambda>s. length s + 1) ss)"

lemma room_simps [simp]: "room [] = 0" "room (s # ss) = length s + 1 + room ss"
  by (simp_all add: room_def)

lemma room_take: "room (take k ss) \<le> room ss"
  by (metis append_take_drop_id le_add1 map_append room_def sum_list_append)

text \<open>A vector of pointers to strings of at most 1024 characters in user memory, none of whose bytes
  lies in the range the copies are written to; \<open>i\<close> entries have been read.\<close>

fun args_at :: "mem \<Rightarrow> addr \<Rightarrow> nat \<Rightarrow> addr list \<Rightarrow> u8 list list \<Rightarrow> nat \<Rightarrow> nat \<Rightarrow> bool" where
  "args_at m argv i (src # srcs) (s # ss) lo hi \<longleftrightarrow>
     load_le 8 (argv + 8 * word_of_nat i) m = src \<and> src \<noteq> NULL \<and> outside lo hi (argv + 8 * word_of_nat i) 8 \<and>
     cstr m src s \<and> length s \<le> 1024 \<and> verify_area src (word_of_nat (length s)) \<and> outside lo hi src (Suc (length s)) \<and>
     args_at m argv (Suc i) srcs ss lo hi"
| "args_at m argv i srcs ss lo hi \<longleftrightarrow> srcs = [] \<and> ss = []"

lemma args_at_frame:
  "args_at m argv i srcs ss lo hi \<Longrightarrow> (\<And>a. \<not> span lo hi a \<Longrightarrow> m' a = m a) \<Longrightarrow> args_at m' argv i srcs ss lo hi"
proof (induction m argv i srcs ss lo hi rule: args_at.induct)
  case (1 m argv i src srcs s ss lo hi)
  have "load_le 8 (argv + 8 * word_of_nat i) m' = load_le 8 (argv + 8 * word_of_nat i) m"
    using 1 by (intro load_le_frame) (auto simp: outside_def)
  moreover have "cstr m' src s" by (rule cstr_frame [of m src s]) (use 1 in \<open>auto simp: outside_def\<close>)
  ultimately show ?case using 1 by auto
qed auto

text \<open>What \<open>put_args\<close> leaves behind: entry \<open>i + j\<close> of the vector points to a copy of string \<open>j\<close>.\<close>

definition args_put :: "mem \<Rightarrow> addr \<Rightarrow> nat \<Rightarrow> addr \<Rightarrow> u8 list list \<Rightarrow> bool" where
  "args_put m dargv i pos ss \<longleftrightarrow>
     (\<forall>j < length ss. let p = pos - word_of_nat (room (take (Suc j) ss))
        in load_le 8 (dargv + 8 * word_of_nat (i + j)) m = p \<and> cstr m p (ss ! j))"

lemma args_put_Cons:
  "args_put m dargv i pos (s # ss) \<longleftrightarrow>
     (let p = pos - word_of_nat (length s + 1)
      in load_le 8 (dargv + 8 * word_of_nat i) m = p \<and> cstr m p s \<and> args_put m dargv (Suc i) p ss)"
proof -
  have "(\<forall>j < Suc n. P j) \<longleftrightarrow> P 0 \<and> (\<forall>j < n. P (Suc j))" for n :: nat and P by (auto simp: less_Suc_eq_0_disj)
  then show ?thesis unfolding args_put_def Let_def by (simp add: algebra_simps)
qed

lemma strnlen_user_cstr:
  assumes "cstr m a s" "length s \<le> 1024" "verify_area a (word_of_nat (length s))"
  shows "strnlen_user a 1024 m = word_of_nat (length s)"
proof -
  have "strlen a m = word_of_nat (length s)" using assms by (intro strlen_cstr) auto
  moreover have "(scast (word_of_nat (length s) :: u32) :: u64) = word_of_nat (length s)"
  proof -
    have "sint (word_of_nat (length s) :: u32) = int (length s)"
      using assms(2) by (simp add: signed_of_nat signed_take_bit_int_eq_self)
    then show ?thesis by (simp add: scast_eq)
  qed
  moreover have "(word_of_nat (length s) :: u64) \<le> 1024"
    using assms(2) by (simp add: word_le_nat_alt unat_of_nat_small)
  ultimately show ?thesis using assms(3) by (simp add: strnlen_user_def Let_def)
qed

lemma unat_off: "unat a + k < 2 ^ 64 \<Longrightarrow> unat (a + word_of_nat k :: addr) = unat a + k"
  by (simp add: unat_word_ariths unat_of_nat_small)

lemma unat_back: "k \<le> unat a \<Longrightarrow> unat (a - word_of_nat k :: addr) = unat a - k"
  using unat_less_2p64 [of a] by (simp add: unat_sub word_le_nat_alt unat_of_nat_small)

lemma unat_cell: "unat d + 8 * i + k < 2 ^ 64 \<Longrightarrow> unat (d + 8 * word_of_nat i + word_of_nat k :: addr) = unat d + 8 * i + k"
  using unat_off [of d "8 * i + k"] by (simp add: add.assoc)

lemma put_arg_copy:
  assumes "cstr m src s" "length s \<le> 1024" "outside lo hi src (Suc (length s))"
    and "lo \<le> unat p" "unat p + length s < hi" "hi \<le> 2 ^ 64"
  shows "strcpy p src m = Some (p, put_str p (s @ [0]) m)"
proof -
  have "strcpy_loop p src m = Some (put_str p (s @ [0]) m)"
  proof (rule strcpy_loop_put [OF assms(1)])
    fix i j assume "i \<le> length s" "j \<le> length s"
    with assms have "span lo hi (p + word_of_nat i)" "\<not> span lo hi (src + word_of_nat j)"
      by (auto simp: span_def outside_def unat_off)
    then show "p + word_of_nat i \<noteq> src + word_of_nat j" by metis
  qed (use assms(2) in simp)
  then show ?thesis by (simp add: strcpy_def)
qed

lemma put_args_copies:
  assumes "args_at m argv i srcs ss lo hi" and "length ss \<le> n"
    and "length ss < n \<Longrightarrow> load_le 8 (argv + 8 * word_of_nat (i + length ss)) m = NULL \<and>
       outside lo hi (argv + 8 * word_of_nat (i + length ss)) 8"
    and "lo + room ss \<le> unat pos" "unat pos \<le> unat dargv" "unat dargv + 8 * (i + n) \<le> hi" "hi \<le> 2 ^ 63"
  shows "\<exists>m'. put_args n i argv dargv pos m = Some (i + length ss, pos - word_of_nat (room ss), m') \<and>
     args_put m' dargv i pos ss \<and>
     (\<forall>a. \<not> span (unat pos - room ss) (unat pos) a \<longrightarrow>
        \<not> span (unat dargv + 8 * i) (unat dargv + 8 * (i + length ss)) a \<longrightarrow> m' a = m a)"
  using assms
proof (induction ss arbitrary: srcs n i pos m)
  case Nil
  then show ?case by (cases n; cases srcs) (auto simp: args_put_def)
next
  case (Cons s ss)
  obtain src srcs' where srcs: "srcs = src # srcs'" using Cons.prems(1) by (cases srcs) auto
  obtain n' where n: "n = Suc n'" using Cons.prems(2) by (cases n) auto
  let ?L = "length s + 1"
  define p where "p = pos - word_of_nat ?L"
  define m1 where "m1 = put_str p (s @ [0]) m"
  define m2 where "m2 = stos 8 p (dargv + 8 * word_of_nat i) m1"
  have A: "load_le 8 (argv + 8 * word_of_nat i) m = src" "src \<noteq> NULL" "cstr m src s" "length s \<le> 1024"
    "verify_area src (word_of_nat (length s))" "outside lo hi src (Suc (length s))" "args_at m argv (Suc i) srcs' ss lo hi"
    using Cons.prems(1) by (auto simp: srcs)
  have p: "unat p = unat pos - ?L" "lo + room ss \<le> unat p" "unat p \<le> unat dargv" "unat p + ?L = unat pos"
  proof -
    have "unat p = unat pos - ?L" unfolding p_def using Cons.prems(4) by (intro unat_back) simp
    then show "unat p = unat pos - ?L" "lo + room ss \<le> unat p" "unat p \<le> unat dargv" "unat p + ?L = unat pos"
      using Cons.prems(4,5) by simp_all
  qed
  have d: "unat (dargv + word_of_nat (8 * i)) = unat dargv + 8 * i"
    using Cons.prems(6,7) by (intro unat_off) (simp add: n)
  then have d: "unat (dargv + 8 * word_of_nat i) = unat dargv + 8 * i" by simp
  have m1: "m1 a = m a" if "\<not> span (unat p) (unat pos) a" for a
    unfolding m1_def using that p(4) unat_less_2p64 [of pos] by (intro put_str_frame) simp_all
  have m2: "m2 a = m1 a" if "\<not> span (unat dargv + 8 * i) (unat dargv + 8 * Suc i) a" for a
    unfolding m2_def using that Cons.prems(6,7) by (intro stos_outside) (auto simp: d n span_def)
  have lohi: "lo \<le> unat p" "unat dargv + 8 * Suc (i + n') \<le> hi" "unat pos \<le> unat dargv"
    using p Cons.prems(5,6) by (simp_all add: n)
  have m2m: "m2 a = m a" if "\<not> span lo hi a" for a
  proof -
    have "m2 a = m1 a" using that lohi p by (intro m2) (auto simp: span_def)
    also have "\<dots> = m a" using that lohi by (intro m1) (auto simp: span_def)
    finally show ?thesis .
  qed
  have step: "put_args n i argv dargv pos m = put_args n' (Suc i) argv dargv p m2"
  proof -
    have "strcpy p src m = Some (p, m1)" unfolding m1_def
      using A(3,4) p lohi Cons.prems(7) by (intro put_arg_copy [OF _ _ A(6)]) auto
    moreover have "pos - (strnlen_user src 1024 m + 1) = p"
      unfolding strnlen_user_cstr [OF A(3,4,5)] p_def by simp
    ultimately show ?thesis using A(1,2) by (simp add: n Let_def m2_def)
  qed
  have "load_le 8 (argv + 8 * word_of_nat (Suc i + length ss)) m2 = NULL \<and>
      outside lo hi (argv + 8 * word_of_nat (Suc i + length ss)) 8" if "length ss < n'"
    using Cons.prems(3) that m2m by (subst load_le_frame [where m = m]) (auto simp: n outside_def)
  then obtain m' where m': "put_args n' (Suc i) argv dargv p m2 = Some (Suc i + length ss, p - word_of_nat (room ss), m')"
    "args_put m' dargv (Suc i) p ss"
    "\<And>a. \<not> span (unat p - room ss) (unat p) a \<Longrightarrow>
       \<not> span (unat dargv + 8 * Suc i) (unat dargv + 8 * (Suc i + length ss)) a \<Longrightarrow> m' a = m2 a"
    using Cons.IH [OF args_at_frame [OF A(7) m2m], of n' p] Cons.prems(2,6,7) p(2,3) by (auto simp: n)
  have "load_le 8 (dargv + 8 * word_of_nat i) m' = load_le 8 (dargv + 8 * word_of_nat i) m2"
  proof (rule load_le_frame)
    fix k :: nat assume "k < 8"
    then have "unat (dargv + 8 * word_of_nat i + word_of_nat k) = unat dargv + 8 * i + k"
      using Cons.prems(6,7) by (intro unat_cell) (simp add: n)
    with \<open>k < 8\<close> p(3) show "m' (dargv + 8 * word_of_nat i + word_of_nat k) = m2 (dargv + 8 * word_of_nat i + word_of_nat k)"
      by (intro m'(3)) (auto simp: span_def)
  qed
  then have "load_le 8 (dargv + 8 * word_of_nat i) m' = p" by (simp add: m2_def load_stos_8)
  moreover have "cstr m' p s"
  proof (rule cstr_frame)
    show "cstr m1 p s" unfolding m1_def using A(3,4) by (intro cstr_put_str) (auto simp: cstr_nth)
    fix k assume "k \<le> length s"
    then have "unat (p + word_of_nat k) = unat p + k" using p(4) unat_less_2p64 [of pos] by (intro unat_off) simp
    moreover have "unat p + k < unat pos" using \<open>k \<le> length s\<close> p(4) by simp
    ultimately have u: "unat p \<le> unat (p + word_of_nat k)" "unat (p + word_of_nat k) < unat dargv" using lohi by linarith+
    have "m' (p + word_of_nat k) = m2 (p + word_of_nat k)" using u by (intro m'(3)) (auto simp: span_def)
    also have "\<dots> = m1 (p + word_of_nat k)" using u by (intro m2) (auto simp: span_def)
    finally show "m' (p + word_of_nat k) = m1 (p + word_of_nat k)" .
  qed
  ultimately have "args_put m' dargv i pos (s # ss)" using m'(2) unfolding args_put_Cons Let_def p_def by blast
  moreover have "m' a = m a" if "\<not> span (unat pos - room (s # ss)) (unat pos) a"
    "\<not> span (unat dargv + 8 * i) (unat dargv + 8 * (i + length (s # ss))) a" for a
  proof -
    have "m' a = m2 a" using that p by (intro m'(3)) (auto simp: span_def)
    also have "\<dots> = m1 a" using that by (intro m2) (auto simp: span_def)
    also have "\<dots> = m a" using that p by (intro m1) (auto simp: span_def)
    finally show ?thesis .
  qed
  ultimately show ?case using m'(1) step by (intro exI [of _ m']) (auto simp: p_def algebra_simps)
qed

lemma args_put_frame:
  assumes "args_put m dargv i pos ss" and "\<And>a. span lo hi a \<Longrightarrow> m' a = m a"
    and "lo + room ss \<le> unat pos" "unat pos \<le> unat dargv" "unat dargv + 8 * (i + length ss) \<le> hi" "hi \<le> 2 ^ 63"
  shows "args_put m' dargv i pos ss"
  using assms(1,3-5)
proof (induction ss arbitrary: i pos)
  case (Cons s ss)
  define p where "p = pos - word_of_nat (length s + 1)"
  have C: "load_le 8 (dargv + 8 * word_of_nat i) m = p" "cstr m p s" "args_put m dargv (Suc i) p ss"
    using Cons.prems(1) unfolding args_put_Cons Let_def p_def by blast+
  have p: "unat p = unat pos - (length s + 1)" unfolding p_def using Cons.prems(2) by (intro unat_back) simp
  have "load_le 8 (dargv + 8 * word_of_nat i) m' = p"
    unfolding C(1) [symmetric]
  proof (intro load_le_frame assms(2))
    fix k :: nat assume "k < 8"
    then have "unat (dargv + 8 * word_of_nat i + word_of_nat k) = unat dargv + 8 * i + k"
      using Cons.prems(4) assms(6) by (intro unat_cell) simp
    with \<open>k < 8\<close> show "span lo hi (dargv + 8 * word_of_nat i + word_of_nat k)"
      using Cons.prems(2,3,4) by (simp add: span_def)
  qed
  moreover have "cstr m' p s"
  proof (rule cstr_frame [OF C(2)], rule assms(2))
    fix k assume "k \<le> length s"
    moreover from this have "unat (p + word_of_nat k) = unat p + k"
      using p Cons.prems(2,3) unat_less_2p64 [of pos] by (intro unat_off) simp
    ultimately show "span lo hi (p + word_of_nat k)" using p Cons.prems(2,3,4) by (auto simp: span_def)
  qed
  moreover have "args_put m' dargv (Suc i) p ss" using C(3) p Cons.prems(2-4) by (intro Cons.IH) auto
  ultimately show ?case unfolding args_put_Cons Let_def p_def by blast
qed (simp add: args_put_def)

lemma addr_values:
  "unat code_start_addr = 0x800000" "unat stack_start_addr = 0xa00000" "unat dargv_addr = 0xa00000 - 80"
  "unat TASK_SIZE = 0x7fffffffffff"
  by (simp_all add: code_start_addr_def stack_start_addr_def dargv_addr_def TASK_SIZE_def)

text \<open>The vector at \<open>argv\<close> holds the strings \<open>ss\<close>, none of which lies where the copies go.\<close>

definition arguments :: "mem \<Rightarrow> addr \<Rightarrow> u8 list list \<Rightarrow> bool" where
  "arguments m argv ss \<longleftrightarrow> argv \<noteq> NULL \<and> length ss \<le> 10 \<and>
     (let lo = unat dargv_addr - room ss; hi = unat stack_start_addr
      in (\<exists>srcs. args_at m argv 0 srcs ss lo hi) \<and>
         (length ss < 10 \<longrightarrow> load_le 8 (argv + 8 * word_of_nat (length ss)) m = NULL \<and>
            outside lo hi (argv + 8 * word_of_nat (length ss)) 8))"

lemma copy_args_done:
  assumes "arguments m argv ss" and "room ss < unat dargv_addr" and "pos = dargv_addr - word_of_nat (room ss)"
  shows "\<exists>m'. copy_args argv regs m =
      Some (pos - 10, regs\<lparr>r_rdi := word_of_nat (length ss), r_rsi := dargv_addr\<rparr>, m') \<and>
    args_put m' dargv_addr 0 dargv_addr ss \<and>
    (\<forall>a. \<not> span (unat dargv_addr - room ss) (unat stack_start_addr) a \<longrightarrow> m' a = m a)"
proof -
  let ?lo = "unat dargv_addr - room ss" and ?hi = "unat stack_start_addr"
  obtain srcs where A: "args_at m argv 0 srcs ss ?lo ?hi" "length ss \<le> 10" "argv \<noteq> NULL"
    "length ss < 10 \<Longrightarrow> load_le 8 (argv + 8 * word_of_nat (0 + length ss)) m = NULL \<and>
       outside ?lo ?hi (argv + 8 * word_of_nat (0 + length ss)) 8"
    using assms(1) by (auto simp: arguments_def Let_def)
  from put_args_copies [OF A(1,2,4), of dargv_addr dargv_addr] assms(2) obtain m' where
    m': "put_args 10 0 argv dargv_addr dargv_addr m = Some (length ss, pos, m')" "args_put m' dargv_addr 0 dargv_addr ss"
    "\<And>a. \<not> span ?lo (unat dargv_addr) a \<Longrightarrow> \<not> span (unat dargv_addr) (unat dargv_addr + 8 * length ss) a \<Longrightarrow> m' a = m a"
    unfolding assms(3) by (auto simp: addr_values)
  have "m' a = m a" if "\<not> span ?lo ?hi a" for a
    using that A(2) by (intro m'(3)) (auto simp: span_def addr_values)
  with m'(1,2) A(3) show ?thesis by (auto simp: copy_args_def)
qed

section \<open>Loading the program\<close>

text \<open>The file behind \<open>filp\<close> and a buffer of the kernel to read it through.\<close>

definition program :: "vfs \<Rightarrow> addr \<Rightarrow> u32 list \<Rightarrow> addr \<Rightarrow> bool" where
  "program v filp cs buffer \<longleftrightarrow> f_f_ops (files v filp) = FAT32_file_ops \<and> opened v filp cs \<and>
     (\<exists>rest. fresh v = buffer # rest) \<and> unat TASK_SIZE < unat buffer \<and> unat buffer + bpc (volume_of filp v) \<le> 2 ^ 64"

lemma vmem_frame [simp]:
  "volume_of filp (v\<lparr>vmem := m\<rparr>) = volume_of filp v" "size_of filp (v\<lparr>vmem := m\<rparr>) = size_of filp v"
  "opened (v\<lparr>vmem := m\<rparr>) filp cs = opened v filp cs"
proof -
  have i: "inode_of filp (v\<lparr>vmem := m\<rparr>) = inode_of filp v" by (simp add: inode_of_def)
  show o: "volume_of filp (v\<lparr>vmem := m\<rparr>) = volume_of filp v" "size_of filp (v\<lparr>vmem := m\<rparr>) = size_of filp v"
    unfolding volume_of_def size_of_def i by simp_all
  show "opened (v\<lparr>vmem := m\<rparr>) filp cs = opened v filp cs" unfolding opened_def o finode_of_def i by simp
qed

lemma load_program_reads:
  assumes "program v filp cs buffer" and "v = fs k" and "n = unat (size_of filp v)"
    and "unat u + n \<le> unat TASK_SIZE" "u < TASK_SIZE"
  shows "\<exists>k' m. load_program woken filp u k = Some (size_of filp v, k') \<and> vmem (fs k') = m \<and>
     (\<forall>i < n. m (u + word_of_nat i) = file_byte (volume_of filp v) (img v) cs i) \<and>
     (\<forall>a. unat a < unat TASK_SIZE \<longrightarrow> \<not> span (unat u) (unat u + n) a \<longrightarrow> m a = vmem v a)"
proof -
  obtain rest where P: "f_f_ops (files v filp) = FAT32_file_ops" "opened v filp cs" "fresh v = buffer # rest"
    "unat TASK_SIZE < unat buffer" "unat buffer + bpc (volume_of filp v) \<le> 2 ^ 64"
    using assms(1) by (auto simp: program_def)
  have "n = min (unat (size_of filp v)) (unat (size_of filp v) - unat (0 :: u64))" using assms(3) by simp
  moreover have "area_ok u n" using assms(4,5) by (simp add: area_ok_def)
  moreover have "areas_apart buffer (bpc (volume_of filp v)) u n"
    using areas_apart_nat [of u n buffer "bpc (volume_of filp v)"] P(4,5) assms(4) by (auto simp: areas_apart_def)
  moreover have "unat (size_of filp v) < 2 ^ 63" using P(2) by (simp add: opened_def)
  moreover have "buffer \<noteq> NULL" using P(4) by auto
  ultimately obtain m where m: "FAT32_read filp u (size_of filp v) 0 v = Some (word_of_nat n, 0 + word_of_nat n, v\<lparr>vmem := m, fresh := rest\<rparr>)"
    "\<forall>i < n. m (u + word_of_nat i) = file_byte (volume_of filp v) (img v) cs (unat (0 :: u64) + i)"
    "\<forall>x. \<not> in_area buffer (bpc (volume_of filp v)) x \<longrightarrow> \<not> in_area u n x \<longrightarrow> m x = vmem v x"
    using FAT32_read_bytes [OF P(2) _ _ P(3), of 0 "size_of filp v" n u] by auto
  have "file_size (inodes v (dir_inode (dentries v (f_dentry (files v filp))))) = size_of filp v"
    by (simp add: size_of_def inode_of_def)
  then have "load_program woken filp u k = Some (size_of filp v, k\<lparr>fs := v\<lparr>vmem := m, fresh := rest\<rparr>\<rparr>)"
    using m(1) P(1) assms(2,3) by (simp add: load_program_def Let_def)
  moreover have "m a = vmem v a" if "unat a < unat TASK_SIZE" "\<not> span (unat u) (unat u + n) a" for a
    using m(3) that P(4,5) assms(4) in_area_nat [of buffer "bpc (volume_of filp v)" a] in_area_nat [of u n a]
    by (auto simp: span_def addr_values)
  ultimately show ?thesis using m(2) by auto
qed

text \<open>Memory after a program of \<open>size\<close> bytes and the strings \<open>ss\<close> have been loaded.\<close>

definition loaded :: "mem \<Rightarrow> nat \<Rightarrow> (nat \<Rightarrow> u8) \<Rightarrow> u8 list list \<Rightarrow> bool" where
  "loaded m len byte ss \<longleftrightarrow>
     (\<forall>i < len. m (code_start_addr + word_of_nat i) = byte i) \<and>
     (\<forall>a. span (unat code_start_addr + len) (unat dargv_addr - room ss - 10) a \<longrightarrow> m a = 0) \<and>
     args_put m dargv_addr 0 dargv_addr ss"

lemma exec_task_parts:
  "tmem (exec_task n s) = tmem s" "cur (ks (exec_task n s)) = cur (ks s)" "cur_mm (exec_task n s) = cur_mm s"
  "mms (exec_task n s) = (mms s)(cur_mm s := exec_mm n (mms s (cur_mm s)))"
  "ts_flags (tsk (ks (exec_task n s)) (cur (ks s))) = ts_flags (tsk (ks s) (cur (ks s))) AND NOT PF_VFORK"
  by (simp_all add: exec_task_def Let_def upd_proc_def upd_mm_def upd_task_def)

lemma clear_code:
  assumes "unat code_start_addr \<le> unat stack" "unat stack \<le> unat stack_start_addr"
  shows "snd (memset code_start_addr 0 (stack - code_start_addr) m) =
     (\<lambda>a. if span (unat code_start_addr) (unat stack) a then 0 else m a)"
proof -
  let ?n = "stack - code_start_addr"
  have n: "unat ?n = unat stack - unat code_start_addr" using assms(1) by (simp add: unat_sub word_le_nat_alt)
  then have "unat ?n < 2 ^ 63" using assms by (simp add: addr_values)
  then have "0 \<le> sint ?n" by (simp only: sint_small_64)
  then have "snd (memset code_start_addr 0 ?n m) = fill (unat ?n) 0 code_start_addr m" by (simp add: memset_fill)
  also have "\<dots> = (\<lambda>a. if span (unat code_start_addr) (unat stack) a then 0 else m a)"
    using assms n in_range [of code_start_addr "unat ?n"] by (auto simp: fill_def addr_values fun_eq_iff)
  finally show ?thesis .
qed

lemma exec_image_loaded:
  assumes "program v filp cs buffer" and "v = fs (fsys x)" and "n = unat (size_of filp v)"
    and "arguments (tmem (ts x)) argv ss" and "unat code_start_addr + n + 10 + room ss \<le> unat dargv_addr"
    and "stack = dargv_addr - word_of_nat (room ss) - 10"
  shows "\<exists>x'. exec_image woken filp regs argv x =
      Some (size_of filp v, user_regs stack (regs\<lparr>r_rdi := word_of_nat (length ss), r_rsi := dargv_addr\<rparr>), x') \<and>
     ts x' = (exec_task (size_of filp v) (ts x))\<lparr>tmem := tmem (ts x')\<rparr> \<and>
     loaded (tmem (ts x')) n (file_byte (volume_of filp v) (img v) cs) ss"
proof -
  let ?s = "exec_task (size_of filp v) (ts x)" and ?lo = "unat dargv_addr - room ss"
  have r: "room ss < unat dargv_addr" using assms(5) by (simp add: addr_values)
  from copy_args_done [OF assms(4) this refl] obtain m1 where
    m1: "copy_args argv regs (tmem (ts x)) =
       Some (stack, regs\<lparr>r_rdi := word_of_nat (length ss), r_rsi := dargv_addr\<rparr>, m1)" "args_put m1 dargv_addr 0 dargv_addr ss"
    unfolding assms(6) by blast
  have "unat (dargv_addr - word_of_nat (room ss)) = ?lo" using r by (intro unat_back) simp
  then have st: "unat stack = ?lo - 10" unfolding assms(6) using unat_back [of 10 "dargv_addr - word_of_nat (room ss)"] assms(5)
    by (simp add: addr_values)
  define m2 where "m2 = snd (memset code_start_addr 0 (stack - code_start_addr) m1)"
  have "unat code_start_addr \<le> unat stack" "unat stack \<le> unat stack_start_addr"
    using st assms(5) by (simp_all add: addr_values)
  from clear_code [OF this, of m1] have m2: "m2 = (\<lambda>a. if span (unat code_start_addr) (unat stack) a then 0 else m1 a)"
    by (simp add: m2_def)
  let ?k = "(fsys x)\<lparr>fs := v\<lparr>vmem := m2\<rparr>\<rparr>"
  have u: "unat code_start_addr + n \<le> unat TASK_SIZE" "code_start_addr < TASK_SIZE"
    using assms(5) by (simp_all add: addr_values word_less_nat_alt)
  have "program (fs ?k) filp cs buffer" "n = unat (size_of filp (fs ?k))" using assms(1,3) by (simp_all add: program_def)
  from load_program_reads [OF this(1) refl this(2) u, of woken] obtain k' m3 where
    m3: "load_program woken filp code_start_addr ?k = Some (size_of filp v, k')" "vmem (fs k') = m3"
    "\<forall>i < n. m3 (code_start_addr + word_of_nat i) = file_byte (volume_of filp v) (img v) cs i"
    "\<And>a. unat a < unat TASK_SIZE \<Longrightarrow> \<not> span (unat code_start_addr) (unat code_start_addr + n) a \<Longrightarrow> m3 a = m2 a"
    by auto
  have "m3 a = 0" if "span (unat code_start_addr + n) (?lo - 10) a" for a
    using that m3(4) [of a] st by (auto simp: m2 span_def addr_values)
  moreover have "args_put m3 dargv_addr 0 dargv_addr ss"
  proof (rule args_put_frame [OF m1(2), of ?lo "unat stack_start_addr"])
    fix a assume "span ?lo (unat stack_start_addr) a"
    then have "unat stack \<le> unat a" "unat code_start_addr + n \<le> unat a" "unat a < unat TASK_SIZE"
      using st assms(5) by (auto simp: span_def addr_values)
    then show "m3 a = m1 a" using m3(4) [of a] by (auto simp: m2 span_def)
  qed (use r assms(4) in \<open>simp_all add: addr_values arguments_def\<close>)
  ultimately have "loaded m3 n (file_byte (volume_of filp v) (img v) cs) ss" using m3(3) by (simp add: loaded_def)
  moreover have "exec_image woken filp regs argv x =
      Some (size_of filp v, user_regs stack (regs\<lparr>r_rdi := word_of_nat (length ss), r_rsi := dargv_addr\<rparr>),
        \<lparr>ts = ?s\<lparr>tmem := m3\<rparr>, fsys = k'\<rparr>)"
  proof -
    have "file_size (inodes v (dir_inode (dentries v (f_dentry (files v filp))))) = size_of filp v"
      by (simp add: size_of_def inode_of_def)
    moreover have "with_files (load_program woken filp code_start_addr) (x\<lparr>ts := ?s\<lparr>tmem := m2\<rparr>\<rparr>) =
       Some (size_of filp v, \<lparr>ts = ?s\<lparr>tmem := m3\<rparr>, fsys = k'\<rparr>)"
      using m3(1,2) by (simp add: with_files_def Let_def assms(2))
    ultimately show ?thesis using m1(1) assms(2)
      by (simp add: exec_image_def Let_def exec_task_parts m2_def)
  qed
  ultimately show ?thesis by auto
qed

section \<open>Opening the program\<close>

lemma brk_page_mapped: "pt_leaf (ptm s) pgd i \<noteq> 0 \<Longrightarrow> brk_page pgd i s = Some (True, s)"
  by (auto simp: brk_page_def pt_fill_def pt_leaf_def Let_def split: if_splits)

lemma exec_open_mapped:
  assumes "ts_flags (tsk (ks s) (cur (ks s))) AND PF_VFORK = 0" and "pt_leaf (ptm (pt s)) (cur_pgd s) code_start_addr \<noteq> 0"
    and "open_exec_file name ((fs k)\<lparr>vmem := tmem s\<rparr>) = Some (filp, v)"
  shows "exec_open name \<lparr>ts = s, fsys = k\<rparr> = Some (filp, \<lparr>ts = s\<lparr>tmem := vmem v\<rparr>, fsys = k\<lparr>fs := v\<rparr>\<rparr>)"
proof -
  have "own_mm s = Some s" using assms(1) by (simp add: own_mm_def Let_def)
  moreover have "map_code s = Some s" using brk_page_mapped [OF assms(2)] by (simp add: map_code_def)
  moreover have "load_cr3 (cur_pgd s) (ptm (pt s)) (cur_pgd s) (ptm (pt s)) (tmem s) = tmem s"
    by (simp add: load_cr3_def)
  ultimately show ?thesis using assms(3) by (simp add: exec_open_def with_files_def Let_def)
qed

text \<open>The address space of a child of \<open>vfork\<close> after \<open>own_mm\<close> is a cleared structure.\<close>

lemma own_mm_vfork:
  assumes "own_mm s = Some s'" and "ts_flags (tsk (ks s) (cur (ks s))) AND PF_VFORK \<noteq> 0"
  shows "cur_mm s' \<noteq> NULL \<and> (\<exists>pgd. mms s' (cur_mm s') = zero_mm\<lparr>mm_pgd := pgd\<rparr>) \<and> cur (ks s') = cur (ks s) \<and>
     ts_flags (tsk (ks s') (cur (ks s))) = ts_flags (tsk (ks s) (cur (ks s))) \<and>
     p_regs (procs s' (cur (ks s))) = p_regs (procs s (cur (ks s)))"
proof -
  obtain mm s1 pgd s2 m where "tmalloc sizeof_mm_struct s = Some (mm, s1)" "tmalloc 0x1000 s1 = Some (pgd, s2)"
    and s': "s' = set_mm (cur (ks s)) mm ((upd_mm mm (\<lambda>_. zero_mm\<lparr>mm_pgd := Virt_To_Phy pgd\<rparr>) s2)\<lparr>pt := m\<rparr>)"
    using assms by (auto simp: own_mm_def Let_def bind_eq_Some_conv upd_mm_def)
  then have "same_tasks_of s s2" "mm \<noteq> NULL"
    by (auto simp: same_tasks_of_def dest!: tmalloc_same)
  then show ?thesis unfolding s' by (auto simp: set_mm_def upd_proc_def upd_mm_def upd_task_def same_tasks_of_def)
qed

lemma exec_open_vfork:
  assumes "exec_open name x = Some (e, x')" and "ts_flags (tsk (ks (ts x)) (cur (ks (ts x)))) AND PF_VFORK \<noteq> 0"
  shows "cur_mm (ts x') \<noteq> NULL \<and> (\<exists>pgd. mms (ts x') (cur_mm (ts x')) = zero_mm\<lparr>mm_pgd := pgd\<rparr>) \<and>
     cur (ks (ts x')) = cur (ks (ts x)) \<and>
     ts_flags (tsk (ks (ts x')) (cur (ks (ts x)))) = ts_flags (tsk (ks (ts x)) (cur (ks (ts x)))) \<and>
     p_regs (procs (ts x') (cur (ks (ts x)))) = p_regs (procs (ts x) (cur (ks (ts x))))"
proof -
  obtain s s1 where s: "own_mm (ts x) = Some s" "map_code s = Some s1"
    using assms(1) by (auto simp: exec_open_def Let_def bind_eq_Some_conv)
  then have "ks s1 = ks s \<and> procs s1 = procs s \<and> mms s1 = mms s"
    by (auto simp: map_code_def bind_eq_Some_conv split: if_splits)
  moreover have "ks (ts x') = ks s1 \<and> procs (ts x') = procs s1 \<and> mms (ts x') = mms s1"
    using assms(1) s by (auto simp: exec_open_def Let_def bind_eq_Some_conv with_files_def)
  ultimately show ?thesis using own_mm_vfork [OF s(1) assms(2)] by auto
qed

section \<open>Properties\<close>

text \<open>C38.  \<open>do_execve\<close> of a task with its page mapped, for a program that fits below its arguments:
  the code area holds the file and zeros up to the new stack, the vector points to intact copies of the
  arguments, and the saved registers, the address space and the flags are those of a fresh user
  program with the number of the arguments and their vector as parameters.\<close>

theorem do_execve_runs:
  assumes "x = \<lparr>ts = s, fsys = k\<rparr>" and "me = cur (ks s)" and "ts_flags (tsk (ks s) me) AND PF_VFORK = 0"
    and "pt_leaf (ptm (pt s)) (cur_pgd s) code_start_addr \<noteq> 0"
    and "open_exec_file name ((fs k)\<lparr>vmem := tmem s\<rparr>) = Some (filp, v)" and "filp \<le> - 0x1000"
    and "program v filp cs buffer" and "n = unat (size_of filp v)"
    and "arguments (vmem v) argv ss" and "unat code_start_addr + n + 10 + room ss \<le> unat dargv_addr"
    and "stack = dargv_addr - word_of_nat (room ss) - 10"
  shows "\<exists>x'. do_execve woken name argv x = Some (size_of filp v, x') \<and>
     loaded (tmem (ts x')) n (file_byte (volume_of filp v) (img v) cs) ss \<and>
     p_regs (procs (ts x') me) =
       user_regs stack ((p_regs (procs s me))\<lparr>r_rdi := word_of_nat (length ss), r_rsi := dargv_addr\<rparr>) \<and>
     mms (ts x') (cur_mm s) = exec_mm (size_of filp v) (mms s (cur_mm s)) \<and>
     ts_flags (tsk (ks (ts x')) me) AND PF_VFORK = 0"
proof -
  let ?s = "s\<lparr>tmem := vmem v\<rparr>" and ?k = "k\<lparr>fs := v\<rparr>"
  have o: "exec_open name x = Some (filp, \<lparr>ts = ?s, fsys = ?k\<rparr>)"
    unfolding assms(1) by (rule exec_open_mapped [OF assms(3) [unfolded assms(2)] assms(4,5)])
  obtain x1 where x1: "exec_image woken filp (p_regs (procs s me)) argv \<lparr>ts = ?s, fsys = ?k\<rparr> =
      Some (size_of filp v, user_regs stack ((p_regs (procs s me))\<lparr>r_rdi := word_of_nat (length ss), r_rsi := dargv_addr\<rparr>), x1)"
    "ts x1 = (exec_task (size_of filp v) ?s)\<lparr>tmem := tmem (ts x1)\<rparr>"
    "loaded (tmem (ts x1)) n (file_byte (volume_of filp v) (img v) cs) ss"
    using exec_image_loaded [OF assms(7) _ assms(8) _ assms(10,11), where x = "\<lparr>ts = ?s, fsys = ?k\<rparr>" and argv = argv]
      assms(9) by auto
  have "do_execve woken name argv x = Some (size_of filp v, x1\<lparr>ts := upd_proc me (\<lambda>p. p\<lparr>p_regs := user_regs stack
      ((p_regs (procs s me))\<lparr>r_rdi := word_of_nat (length ss), r_rsi := dargv_addr\<rparr>)\<rparr>) (ts x1)\<rparr>)"
    using o x1(1) assms(1,2) leD [OF assms(6)] by (simp add: do_execve_def Let_def)
  moreover obtain m where t: "ts x1 = (exec_task (size_of filp v) ?s)\<lparr>tmem := m\<rparr>" using x1(2) by blast
  moreover have "(w AND NOT PF_VFORK) AND PF_VFORK = 0" for w by (intro bit_word_eqI) (simp add: bit_simps)
  ultimately show ?thesis using x1(3) exec_task_parts [of "size_of filp v" ?s] assms(2) by (simp add: upd_proc_def)
qed

text \<open>A child of \<open>vfork\<close> that asks for a missing program gets the error with its address space gone: its
  memory map is the cleared structure of an empty one, and the registers it returns with are the old
  ones.\<close>

theorem vfork_exec_fails:
  assumes "exec_open name x = Some (e, x')" and "- 0x1000 < e" and "me = cur (ks (ts x))"
    and "ts_flags (tsk (ks (ts x)) me) AND PF_VFORK \<noteq> 0"
  shows "do_execve woken name argv x = Some (e, x') \<and> p_regs (procs (ts x') me) = p_regs (procs (ts x) me) \<and>
     (\<exists>pgd. mms (ts x') (cur_mm (ts x')) = zero_mm\<lparr>mm_pgd := pgd\<rparr>) \<and> ts_flags (tsk (ks (ts x')) me) AND PF_VFORK \<noteq> 0"
  using assms exec_open_vfork [OF assms(1)] by (auto simp: do_execve_def)

text \<open>The task 0x4000 runs \<open>/\<close>, here a regular file of 1000 bytes, with the argument \<open>ab\<close>.\<close>

definition exec_mem :: mem where
  "exec_mem = (\<lambda>_. 0)(0x100 := 0x2f, 0x201 := 3, 0x300 := 0x61, 0x301 := 0x62)"

definition exec_vfs :: vfs where
  "exec_vfs = demo_vfs\<lparr>fresh := [0x10, 0xffff800000010000]\<rparr>"

definition exec_tsys :: tsys where
  "exec_tsys = (demo_tsys 4)\<lparr>tmem := exec_mem, pt := demo_vmem\<lparr>ptm := (\<lambda>_. 0x1007)\<rparr>\<rparr>"

definition exec_file :: vfs where
  "exec_file = upd_file 0x10 (\<lambda>_. \<lparr>f_position = 0, f_mode = 0, f_dentry = 0x70, f_f_ops = FAT32_file_ops\<rparr>)
     (exec_vfs\<lparr>vmem := exec_mem, fresh := [0xffff800000010000], live := [0x10]\<rparr>)"

lemma exec_demo_open: "open_exec_file 0x100 (exec_vfs\<lparr>vmem := exec_mem\<rparr>) = Some (0x10, exec_file)"
proof -
  have "skip_slashes exec_mem 0x100 = Some 0x101"
    by (subst skip_slashes.simps, simp add: exec_mem_def, subst skip_slashes.simps, simp)
  moreover have "exec_mem 0x101 = 0" by (simp add: exec_mem_def)
  ultimately have "path_walk 0x100 0 (exec_vfs\<lparr>vmem := exec_mem\<rparr>) = Some (0x70, exec_vfs\<lparr>vmem := exec_mem\<rparr>)"
    by (simp add: path_walk_def) (simp add: exec_vfs_def demo_vfs_def)
  moreover have "get_object (exec_vfs\<lparr>vmem := exec_mem\<rparr>) =
      Some (0x10, exec_vfs\<lparr>vmem := exec_mem, fresh := [0xffff800000010000], live := [0x10]\<rparr>)"
    by (simp add: get_object_def) (simp add: exec_vfs_def demo_vfs_def)
  moreover have "index_node.attribute (inodes exec_vfs i) = FS_ATTR_FILE" "i_f_ops (inodes exec_vfs i) = FAT32_file_ops" for i
    by (simp_all add: exec_vfs_def demo_vfs_def)
  ultimately show ?thesis by (simp add: open_exec_file_def exec_file_def FS_ATTR_DIR_def FS_ATTR_FILE_def)
qed

lemma exec_demo_program: "program exec_file 0x10 [2, 3] 0xffff800000010000"
  and exec_demo_size: "size_of 0x10 exec_file = 1000" and exec_demo_mem: "vmem exec_file = exec_mem"
proof -
  have v: "volume_of 0x10 exec_file = volume_of 0x10 demo_vfs" and i: "inode_of 0x10 exec_file = 0x30"
    by (simp_all add: volume_of_def inode_of_def exec_file_def exec_vfs_def upd_file_def demo_vfs_def)
  have "opened exec_file 0x10 [2, 3] = opened demo_vfs 0x10 [2, 3]"
    unfolding opened_def v size_of_def finode_of_def
    by (simp add: inode_of_def exec_file_def exec_vfs_def upd_file_def) (simp add: demo_vfs_def)
  then show "program exec_file 0x10 [2, 3] 0xffff800000010000"
    using demo_opened unfolding program_def v
    by (simp add: demo_fsbi_def TASK_SIZE_def) (simp add: exec_file_def exec_vfs_def upd_file_def)
  show "size_of 0x10 exec_file = 1000" "vmem exec_file = exec_mem"
    unfolding size_of_def i by (simp_all add: exec_file_def exec_vfs_def upd_file_def demo_vfs_def)
qed

lemma exec_demo_args: "arguments exec_mem 0x200 [[0x61, 0x62]]"
proof -
  have o: "outside lo hi a n" if "unat a + n \<le> lo" "lo < 2 ^ 63" for lo hi a n
    using that by (auto simp: outside_def span_def unat_off)
  have "load_le 8 0x200 exec_mem = 0x300" "load_le 8 0x208 exec_mem = 0"
    by (simp_all add: load_le_def exec_mem_def upt_rec)
  then show ?thesis
    by (auto simp: arguments_def addr_values exec_mem_def verify_area_def intro!: exI [of _ "[0x300]"] o)
qed

theorem do_execve_runs_witness:
  "\<exists>x'. do_execve id 0x100 0x200 \<lparr>ts = exec_tsys, fsys = demo_sys\<lparr>fs := exec_vfs\<rparr>\<rparr> = Some (1000, x') \<and>
     cstr (tmem (ts x')) 0x9fffad [0x61, 0x62] \<and> r_rdi (p_regs (procs (ts x') 0x4000)) = 1 \<and>
     r_r11 (p_regs (procs (ts x') 0x4000)) = 0x9fffa3"
proof -
  let ?k = "demo_sys\<lparr>fs := exec_vfs\<rparr>"
  have cur: "cur (ks exec_tsys) = 0x4000" "ts_flags (tsk (ks exec_tsys) 0x4000) AND PF_VFORK = 0"
    by (simp_all add: exec_tsys_def demo_tsys_def demo_sched_def upd_task_def demo_task_def zero_task_def)
  have leaf: "pt_leaf (ptm (pt exec_tsys)) (cur_pgd exec_tsys) code_start_addr \<noteq> 0" by (simp add: exec_tsys_def pt_leaf_def)
  have opn: "open_exec_file 0x100 ((fs ?k)\<lparr>vmem := tmem exec_tsys\<rparr>) = Some (0x10, exec_file)"
    using exec_demo_open by (simp add: exec_tsys_def)
  have args: "arguments (vmem exec_file) 0x200 [[0x61, 0x62]]" using exec_demo_args by (simp add: exec_demo_mem)
  have room: "unat code_start_addr + 1000 + 10 + room [[0x61, 0x62]] \<le> unat dargv_addr" by (simp add: addr_values)
  have "\<exists>x'. do_execve id 0x100 0x200 \<lparr>ts = exec_tsys, fsys = ?k\<rparr> = Some (size_of 0x10 exec_file, x') \<and>
     loaded (tmem (ts x')) 1000 (file_byte (volume_of 0x10 exec_file) (img exec_file) [2, 3]) [[0x61, 0x62]] \<and>
     p_regs (procs (ts x') 0x4000) =
       user_regs 0x9fffa3 ((p_regs (procs exec_tsys 0x4000))\<lparr>r_rdi := word_of_nat (length [[0x61 :: u8, 0x62]]), r_rsi := dargv_addr\<rparr>) \<and>
     mms (ts x') (cur_mm exec_tsys) = exec_mm (size_of 0x10 exec_file) (mms exec_tsys (cur_mm exec_tsys)) \<and>
     ts_flags (tsk (ks (ts x')) 0x4000) AND PF_VFORK = 0"
    by (rule do_execve_runs [OF refl cur(1) [symmetric] cur(2) leaf opn _ exec_demo_program _ args room])
      (simp_all add: exec_demo_size dargv_addr_def stack_start_addr_def)
  then show ?thesis
    by (auto simp: exec_demo_size loaded_def args_put_def user_regs_def dargv_addr_def stack_start_addr_def)
qed

end
