(* ===== verification/Smp.thy ===== *)
theory Smp
  imports Gate Schedule
begin

unbundle bit_operations_syntax

text \<open>
  The start of the application processors: \<open>SMP_init\<close> and \<open>Start_SMP\<close> of \<open>src/SMP.c\<close>.  The boot
  processor prepares one processor after the other and hands over the shared variables
  \<open>_stack_start\<close> and \<open>global_i\<close> under \<open>SMP_lock\<close>, which the started processor releases; the steps of
  the processors interleave.  \<open>SMP_lock\<close> is free or taken, as theory \<open>Spinlock\<close> shows of spin locks.
  \<open>blk j\<close> is the result of the \<open>j\<close>-th \<open>kmalloc\<close> of a stack: two for each processor.  Reading the
  processor's identification and enabling its local APIC are left out.
\<close>

section \<open>Interrupt commands\<close>

record INT_CMD_REG =
  icr_vector :: u8
  icr_deliver_mode :: u64
  icr_dest_shorthand :: u64
  x2apic_destination :: u64

definition APIC_ICR_IOAPIC_Fixed :: u64 where "APIC_ICR_IOAPIC_Fixed = 0"
definition APIC_ICR_IOAPIC_INIT :: u64 where "APIC_ICR_IOAPIC_INIT = 5"
definition ICR_Start_up :: u64 where "ICR_Start_up = 6"
definition ICR_No_Shorthand :: u64 where "ICR_No_Shorthand = 0"
definition ICR_ALL_EXCLUDE_Self :: u64 where "ICR_ALL_EXCLUDE_Self = 3"

text \<open>The other fields are 0 in all commands: physical destination, edge, de-asserted.\<close>

definition icr_word :: "INT_CMD_REG \<Rightarrow> u64" where
  "icr_word e = ucast (icr_vector e) OR push_bit 8 (take_bit 3 (icr_deliver_mode e)) OR
     push_bit 18 (take_bit 2 (icr_dest_shorthand e)) OR push_bit 32 (take_bit 32 (x2apic_destination e))"

definition init_ipi :: INT_CMD_REG where
  "init_ipi = \<lparr>icr_vector = 0, icr_deliver_mode = APIC_ICR_IOAPIC_INIT, icr_dest_shorthand = ICR_ALL_EXCLUDE_Self,
     x2apic_destination = 0\<rparr>"

definition start_ipi :: "nat \<Rightarrow> INT_CMD_REG" where
  "start_ipi i = \<lparr>icr_vector = 0x20, icr_deliver_mode = ICR_Start_up, icr_dest_shorthand = ICR_No_Shorthand,
     x2apic_destination = word_of_nat i\<rparr>"

text \<open>The test at the end sends the vectors 200 and 201 to processor 1.\<close>

definition test_ipi :: "u8 \<Rightarrow> INT_CMD_REG" where
  "test_ipi v = \<lparr>icr_vector = v, icr_deliver_mode = APIC_ICR_IOAPIC_Fixed, icr_dest_shorthand = ICR_No_Shorthand,
     x2apic_destination = 1\<rparr>"

section \<open>State\<close>

record tss_struct =
  rsp012 :: addr      \<comment> \<open>\<open>rsp0\<close>, \<open>rsp1\<close> and \<open>rsp2\<close>\<close>
  ist1_7 :: addr      \<comment> \<open>\<open>ist1\<close> to \<open>ist7\<close>\<close>

datatype ap_phase =
    Off
  | Started      \<comment> \<open>the start-up interrupt has arrived\<close>
  | Entered      \<comment> \<open>on its stack, in \<open>Start_SMP\<close>\<close>
  | Ready        \<comment> \<open>behind \<open>spin_unlock\<close>\<close>
  | Faulted      \<comment> \<open>a general protection fault in \<open>load_TR\<close>\<close>

datatype bsp_phase =
    Waiting      \<comment> \<open>before \<open>spin_lock\<close> in the loop\<close>
  | Sent         \<comment> \<open>behind the start-up interrupts, before \<open>global_i++\<close>\<close>
  | Finished

record smp =
  locked :: bool
  global_i :: nat
  stack_start :: addr
  init_tss :: "nat \<Rightarrow> tss_struct"
  gdt :: "nat \<Rightarrow> u64"
  sched :: ksched
  icr_log :: "u64 list"
  bsp :: bsp_phase
  ap :: "nat \<Rightarrow> ap_phase"
  ap_rsp :: "nat \<Rightarrow> addr"
  ap_tr :: "nat \<Rightarrow> nat"
  ap_rsp0 :: "nat \<Rightarrow> addr"

definition SMP_STACK_SIZE :: u64 where "SMP_STACK_SIZE = 32768"

text \<open>The task whose structure is at the bottom of the stack in use; a function runs below its top.\<close>

definition current_of :: "addr \<Rightarrow> addr" where
  "current_of rsp = (rsp - 8) AND NOT 32767"

text \<open>\<open>ltr\<close> accepts an available task state segment and marks it busy.\<close>

definition desc_type :: "u64 \<Rightarrow> u64" where
  "desc_type d = drop_bit 40 d AND 0xff"

definition mark_busy :: "u64 \<Rightarrow> u64" where
  "mark_busy d = d OR push_bit 41 1"

definition load_TR :: "nat \<Rightarrow> (nat \<Rightarrow> u64) \<Rightarrow> (nat \<Rightarrow> u64) option" where
  "load_TR n g = (if desc_type (g n) = 0x89 then Some (g(n := mark_busy (g n))) else None)"

definition tss_addr :: "addr \<Rightarrow> nat \<Rightarrow> addr" where
  "tss_addr base i = base + 104 * word_of_nat i"

definition tss_slot :: "nat \<Rightarrow> nat" where
  "tss_slot i = 10 + i * 2"

section \<open>The steps\<close>

text \<open>\<open>base\<close> is the address of \<open>init_tss\<close>, \<open>pgd\<close> the page table of \<open>init_mm\<close>.\<close>

definition SMP_prepare :: "addr \<Rightarrow> (nat \<Rightarrow> addr) \<Rightarrow> smp \<Rightarrow> smp" where
  "SMP_prepare base blk s =
     (let i = global_i s; p = blk (2 * i); q = blk (2 * i + 1); top = p + SMP_STACK_SIZE
      in s\<lparr>locked := True, stack_start := top,
           sched := upd_task q (\<lambda>t. t\<lparr>ts_cpu_id := i\<rparr>) (upd_task p (\<lambda>t. t\<lparr>ts_cpu_id := i\<rparr>) (sched s)),
           init_tss := (init_tss s)(i := \<lparr>rsp012 = top, ist1_7 = q + SMP_STACK_SIZE\<rparr>),
           gdt := set_tss_descriptor (tss_slot i) (tss_addr base i) (gdt s),
           icr_log := icr_log s @ [icr_word (start_ipi i), icr_word (start_ipi i)],
           ap := (ap s)(i := Started), bsp := Sent\<rparr>)"

definition SMP_next :: "smp \<Rightarrow> smp" where
  "SMP_next s =
     (let i = global_i s + 1
      in if i < 4 then s\<lparr>global_i := i, bsp := Waiting\<rparr>
         else s\<lparr>global_i := i, bsp := Finished, icr_log := icr_log s @ [icr_word (test_ipi 0xc8), icr_word (test_ipi 0xc9)]\<rparr>)"

definition AP_enter :: "nat \<Rightarrow> smp \<Rightarrow> smp" where
  "AP_enter c s = s\<lparr>ap := (ap s)(c := Entered), ap_rsp := (ap_rsp s)(c := stack_start s)\<rparr>"

text \<open>The idle task of the processor, up to \<open>init_task[SMP_cpu_id()] = current\<close>.\<close>

definition AP_idle :: "u64 \<Rightarrow> nat \<Rightarrow> smp \<Rightarrow> smp" where
  "AP_idle pgd c s =
     (let me = current_of (ap_rsp s c);
          k = upd_task me (\<lambda>t. t\<lparr>ts_state := TASK_RUNNING, ts_flags := 1, ts_pgd := pgd, ts_priority := 2, ts_vrun_time := 0\<rparr>) (sched s);
          k = k\<lparr>lnk := list_init (lnk k) me\<rparr>
      in s\<lparr>sched := k\<lparr>init_task := (init_task k)(ts_cpu_id (tsk k me) := me)\<rparr>, ap_rsp0 := (ap_rsp0 s)(c := stack_start s)\<rparr>)"

definition Start_SMP :: "u64 \<Rightarrow> nat \<Rightarrow> smp \<Rightarrow> smp" where
  "Start_SMP pgd c s =
     (let s = AP_idle pgd c s; n = 10 + (global_i s - 1) * 2
      in case load_TR n (gdt s) of
           None \<Rightarrow> s\<lparr>ap := (ap s)(c := Faulted)\<rparr>
         | Some g \<Rightarrow> s\<lparr>gdt := g, ap_tr := (ap_tr s)(c := n), locked := False, ap := (ap s)(c := Ready)\<rparr>)"

inductive smp_step :: "addr \<Rightarrow> u64 \<Rightarrow> (nat \<Rightarrow> addr) \<Rightarrow> smp \<Rightarrow> smp \<Rightarrow> bool" for base pgd blk where
  prepare: "bsp s = Waiting \<Longrightarrow> \<not> locked s \<Longrightarrow> smp_step base pgd blk s (SMP_prepare base blk s)"
| increment: "bsp s = Sent \<Longrightarrow> smp_step base pgd blk s (SMP_next s)"
| enter: "ap s c = Started \<Longrightarrow> smp_step base pgd blk s (AP_enter c s)"
| start: "ap s c = Entered \<Longrightarrow> smp_step base pgd blk s (Start_SMP pgd c s)"

inductive_cases smp_stepE: "smp_step base pgd blk s s'"

text \<open>The state at the loop: the boot processor has loaded the descriptor of its own segment.\<close>

definition smp_start :: "addr \<Rightarrow> ksched \<Rightarrow> (nat \<Rightarrow> u64) \<Rightarrow> smp" where
  "smp_start base k g =
     (let g = set_tss_descriptor (tss_slot 0) (tss_addr base 0) g
      in \<lparr>locked = False, global_i = 1, stack_start = 0, init_tss = (\<lambda>_. \<lparr>rsp012 = 0, ist1_7 = 0\<rparr>),
          gdt = g(tss_slot 0 := mark_busy (g (tss_slot 0))), sched = k, icr_log = [icr_word init_ipi],
          bsp = Waiting, ap = (\<lambda>_. Off), ap_rsp = (\<lambda>_. 0), ap_tr = (\<lambda>_. 0), ap_rsp0 = (\<lambda>_. 0)\<rparr>)"

inductive smp_reach :: "addr \<Rightarrow> u64 \<Rightarrow> (nat \<Rightarrow> addr) \<Rightarrow> smp \<Rightarrow> smp \<Rightarrow> bool" for base pgd blk s0 where
  init: "smp_reach base pgd blk s0 s0"
| step: "smp_reach base pgd blk s0 s \<Longrightarrow> smp_step base pgd blk s s' \<Longrightarrow> smp_reach base pgd blk s0 s'"

section \<open>Descriptors and stacks\<close>

lemma desc_type_set: "desc_type (set_tss_descriptor n a g n) = 0x89"
proof -
  have "drop_bit 40 (set_tss_descriptor n a g n) AND 0xff = drop_bit 40 (push_bit 40 0x89) AND 0xff"
    by (rule bit_word_eqI) (auto simp: set_tss_descriptor_def tss_limit_def field_masks bit_simps)
  also have "drop_bit 40 (push_bit 40 (0x89 :: u64)) AND 0xff = 0x89" by code_simp
  finally show ?thesis by (simp add: desc_type_def)
qed

lemma desc_type_busy: "desc_type d = 0x89 \<Longrightarrow> desc_type (mark_busy d) = 0x8b"
proof -
  assume "desc_type d = 0x89"
  moreover have "desc_type (d OR push_bit 41 1) = desc_type d OR 2"
  proof -
    have "(2 :: u64) = push_bit 1 1" by simp
    then have "drop_bit 40 (push_bit 41 1) AND 0xff = (2 :: u64)" by code_simp
    then show ?thesis unfolding desc_type_def by (simp only: drop_bit_or bit.conj_disj_distrib2)
  qed
  ultimately show ?thesis by (simp add: mark_busy_def)
qed

lemma descriptor_base_busy [simp]: "descriptor_base (mark_busy d) e = descriptor_base d e"
proof -
  have "drop_bit 16 (d OR push_bit 41 1) AND 0xffffff = drop_bit 16 d AND 0xffffff"
    by (rule bit_word_eqI) (auto simp: field_masks bit_simps)
  moreover have "drop_bit 56 (d OR push_bit 41 1) = drop_bit 56 d"
    by (rule bit_word_eqI) (auto simp: bit_simps)
  ultimately show ?thesis unfolding descriptor_base_def mark_busy_def by (simp only:)
qed

definition aligned32K :: "addr \<Rightarrow> bool" where
  "aligned32K a \<longleftrightarrow> (\<forall>n < 15. \<not> bit a n)"

lemma current_of_top: "aligned32K p \<Longrightarrow> current_of (p + SMP_STACK_SIZE) = p"
proof -
  assume p: "aligned32K p"
  have m: "(32760 :: u64) = push_bit 3 (mask 12)" "(32767 :: u64) = mask 15" by (simp_all add: mask_eq_exp_minus_1)
  have "p + SMP_STACK_SIZE - 8 = p + 32760" by (simp add: SMP_STACK_SIZE_def)
  also have "\<dots> = p OR 32760" unfolding m
    by (rule add_disjoint_or) (use p in \<open>auto simp: aligned32K_def bit_simps\<close>)
  finally show ?thesis unfolding current_of_def m
    by (intro bit_word_eqI) (use p in \<open>auto simp: aligned32K_def bit_simps\<close>)
qed

section \<open>The invariant\<close>

text \<open>The blocks are aligned, distinct, and hold no head of a run queue.\<close>

definition stacks_ok :: "(nat \<Rightarrow> addr) \<Rightarrow> ksched \<Rightarrow> bool" where
  "stacks_ok blk k \<longleftrightarrow> inj_on blk {..<8} \<and>
     (\<forall>j < 8. aligned32K (blk j) \<and> (\<forall>c < NR_CPUS. blk j \<noteq> rqhead k c))"

text \<open>The last processor that has been sent its start-up interrupts, 0 before the first.\<close>

definition last_ap :: "smp \<Rightarrow> nat" where
  "last_ap s = (if bsp s = Sent then global_i s else global_i s - 1)"

definition stack_of :: "(nat \<Rightarrow> addr) \<Rightarrow> nat \<Rightarrow> addr" where
  "stack_of blk c = blk (2 * c) + SMP_STACK_SIZE"

text \<open>What belongs to processor \<open>c\<close> once it has been prepared.\<close>

definition own :: "addr \<Rightarrow> (nat \<Rightarrow> addr) \<Rightarrow> smp \<Rightarrow> nat \<Rightarrow> bool" where
  "own base blk s c \<longleftrightarrow>
     ts_cpu_id (tsk (sched s) (blk (2 * c))) = c \<and>
     init_tss s c = \<lparr>rsp012 = stack_of blk c, ist1_7 = blk (2 * c + 1) + SMP_STACK_SIZE\<rparr> \<and>
     (ap s c \<in> {Entered, Ready, Faulted} \<longrightarrow> ap_rsp s c = stack_of blk c) \<and>
     (ap s c = Ready \<longrightarrow> ap_tr s c = tss_slot c \<and> ap_rsp0 s c = stack_of blk c \<and> init_task (sched s) c = blk (2 * c))"

definition segment :: "addr \<Rightarrow> smp \<Rightarrow> nat \<Rightarrow> bool" where
  "segment base s c \<longleftrightarrow>
     descriptor_base (gdt s (tss_slot c)) (gdt s (Suc (tss_slot c))) = tss_addr base c \<and>
     desc_type (gdt s (tss_slot c)) = (if c = 0 \<or> ap s c = Ready then 0x8b else 0x89)"

definition smp_inv :: "addr \<Rightarrow> (nat \<Rightarrow> addr) \<Rightarrow> ksched \<Rightarrow> smp \<Rightarrow> bool" where
  "smp_inv base blk k s \<longleftrightarrow>
     1 \<le> global_i s \<and> global_i s \<le> 4 \<and> (bsp s = Finished \<longleftrightarrow> global_i s = 4) \<and>
     (\<forall>c. c = 0 \<or> last_ap s < c \<longrightarrow> ap s c = Off) \<and>
     (\<forall>c. 0 < c \<and> c < last_ap s \<longrightarrow> ap s c = Ready) \<and>
     (locked s \<longleftrightarrow> 0 < last_ap s \<and> ap s (last_ap s) \<noteq> Ready) \<and>
     (0 < last_ap s \<longrightarrow> ap s (last_ap s) \<noteq> Off \<and> stack_start s = stack_of blk (last_ap s)) \<and>
     (\<forall>c. 0 < c \<and> c \<le> last_ap s \<longrightarrow> own base blk s c) \<and>
     (\<forall>c \<le> last_ap s. segment base s c) \<and>
     (\<forall>c < NR_CPUS. runq (sched s) c [] \<and> rqhead (sched s) c = rqhead k c)"

lemma smp_invD:
  assumes "smp_inv base blk k s"
  shows "0 < c \<Longrightarrow> c < last_ap s \<Longrightarrow> ap s c = Ready" "0 < c \<Longrightarrow> c \<le> last_ap s \<Longrightarrow> own base blk s c"
    "c \<le> last_ap s \<Longrightarrow> segment base s c" "0 < last_ap s \<Longrightarrow> stack_start s = stack_of blk (last_ap s)"
    "c < NR_CPUS \<Longrightarrow> runq (sched s) c []" "c < NR_CPUS \<Longrightarrow> rqhead (sched s) c = rqhead k c"
    "ap s c \<noteq> Off \<Longrightarrow> 0 < c \<and> c \<le> last_ap s" "ap s c \<noteq> Off \<Longrightarrow> ap s c \<noteq> Ready \<Longrightarrow> c = last_ap s"
    "last_ap s < 4" "ap s c \<noteq> Off \<Longrightarrow> ap s c \<noteq> Ready \<Longrightarrow> locked s"
proof -
  note I = assms [unfolded smp_inv_def]
  show "0 < c \<Longrightarrow> c < last_ap s \<Longrightarrow> ap s c = Ready" "0 < c \<Longrightarrow> c \<le> last_ap s \<Longrightarrow> own base blk s c"
    "c \<le> last_ap s \<Longrightarrow> segment base s c" "0 < last_ap s \<Longrightarrow> stack_start s = stack_of blk (last_ap s)"
    "c < NR_CPUS \<Longrightarrow> runq (sched s) c []" "c < NR_CPUS \<Longrightarrow> rqhead (sched s) c = rqhead k c"
    using I by blast+
  show o: "ap s c \<noteq> Off \<Longrightarrow> 0 < c \<and> c \<le> last_ap s" using I by (metis not_gr0 not_le)
  show "ap s c \<noteq> Off \<Longrightarrow> ap s c \<noteq> Ready \<Longrightarrow> c = last_ap s" using I o by (metis le_neq_implies_less)
  then show "ap s c \<noteq> Off \<Longrightarrow> ap s c \<noteq> Ready \<Longrightarrow> locked s" using I o by metis
  show "last_ap s < 4" using I by (auto simp: last_ap_def)
qed

lemma smp_start_inv:
  assumes "\<forall>c < NR_CPUS. runq k c []"
  shows "smp_inv base blk k (smp_start base k g)"
  using assms desc_type_busy [OF desc_type_set [of "tss_slot 0" "tss_addr base 0" g]]
    descriptor_base_set [of "tss_slot 0" "tss_addr base 0" g]
  by (simp add: smp_inv_def smp_start_def Let_def last_ap_def segment_def)

lemma increment_inv:
  assumes "smp_inv base blk k s" and "bsp s = Sent"
  shows "smp_inv base blk k (SMP_next s)"
proof -
  have "last_ap (SMP_next s) = last_ap s" using assms(2) by (simp add: last_ap_def SMP_next_def Let_def)
  then show ?thesis using assms
    by (auto simp: smp_inv_def own_def segment_def SMP_next_def Let_def)
qed

lemma runq_upd_task: "t \<noteq> rqhead k c \<Longrightarrow> runq (upd_task t f k) c [] = runq k c []"
  by (simp add: runq_def upd_task_def)

lemma blk_neq:
  assumes "stacks_ok blk k" and "a < 8" "b < 8" "a \<noteq> b"
  shows "blk a \<noteq> blk b"
  using assms by (auto simp: stacks_ok_def inj_on_def)

lemma set_tss_other: "m \<noteq> n \<Longrightarrow> m \<noteq> Suc n \<Longrightarrow> set_tss_descriptor n a g m = g m"
  by (simp add: set_tss_descriptor_def)

lemma slots_apart: "c \<noteq> i \<Longrightarrow> tss_slot c \<noteq> tss_slot i \<and> tss_slot c \<noteq> Suc (tss_slot i) \<and> Suc (tss_slot c) \<noteq> tss_slot i"
  by (auto simp: tss_slot_def)

lemma prepare_inv:
  assumes I: "smp_inv base blk k s" and w: "bsp s = Waiting" "\<not> locked s" and ok: "stacks_ok blk k"
  shows "smp_inv base blk k (SMP_prepare base blk s)"
proof -
  let ?i = "global_i s" and ?s = "SMP_prepare base blk s"
  have g: "1 \<le> ?i" "?i < 4" "last_ap s = ?i - 1" using I w by (auto simp: smp_inv_def last_ap_def)
  have l: "last_ap ?s = ?i" "global_i ?s = ?i" "bsp ?s = Sent" "locked ?s" by (simp_all add: last_ap_def SMP_prepare_def Let_def)
  have ap: "ap ?s = (ap s)(?i := Started)" and st: "stack_start ?s = stack_of blk ?i"
    by (simp_all add: SMP_prepare_def Let_def stack_of_def)
  have ready: "ap s c = Ready" if "0 < c" "c < ?i" for c
    using I w that g by (cases "c = last_ap s") (auto simp: smp_inv_def)
  have "own base blk ?s c" if "0 < c" "c \<le> ?i" for c
  proof (cases "c = ?i")
    case True
    then show ?thesis using blk_neq [OF ok, of "2 * ?i" "2 * ?i + 1"] g
      by (simp add: own_def ap) (simp add: SMP_prepare_def Let_def upd_task_def stack_of_def)
  next
    case False
    then have o: "own base blk s c" using I that g by (auto simp: smp_inv_def)
    have "2 * c \<noteq> 2 * ?i" "2 * c \<noteq> 2 * ?i + 1" using False by presburger+
    then have "blk (2 * c) \<noteq> blk (2 * ?i)" "blk (2 * c) \<noteq> blk (2 * ?i + 1)"
      using blk_neq [OF ok, of "2 * c" "2 * ?i"] blk_neq [OF ok, of "2 * c" "2 * ?i + 1"] that g by linarith+
    with o False show ?thesis by (simp add: own_def ap) (simp add: SMP_prepare_def Let_def upd_task_def)
  qed
  moreover have "segment base ?s c" if "c \<le> ?i" for c
  proof (cases "c = ?i")
    case True
    then show ?thesis using g descriptor_base_set [of "tss_slot ?i" "tss_addr base ?i" "gdt s"]
      by (simp add: segment_def ap) (simp add: SMP_prepare_def Let_def desc_type_set)
  next
    case False
    then have "segment base s c" using I that g by (auto simp: smp_inv_def)
    moreover have "gdt ?s (tss_slot c) = gdt s (tss_slot c)" "gdt ?s (Suc (tss_slot c)) = gdt s (Suc (tss_slot c))"
      using slots_apart [OF False] by (simp_all add: SMP_prepare_def Let_def set_tss_other)
    ultimately show ?thesis using False by (simp add: segment_def ap)
  qed
  moreover have "runq (sched ?s) c [] \<and> rqhead (sched ?s) c = rqhead k c" if "c < NR_CPUS" for c
  proof -
    have "blk (2 * ?i) \<noteq> rqhead k c" "blk (2 * ?i + 1) \<noteq> rqhead k c" using ok that g by (auto simp: stacks_ok_def)
    moreover have "runq (sched s) c []" "rqhead (sched s) c = rqhead k c" using I that by (auto simp: smp_inv_def)
    ultimately show ?thesis by (simp add: SMP_prepare_def Let_def runq_upd_task)
  qed
  ultimately show ?thesis using I g ready l(4) unfolding smp_inv_def l(1-3) ap st by (auto simp: smp_inv_def)
qed

lemma enter_inv:
  assumes I: "smp_inv base blk k s" and a: "ap s c = Started"
  shows "smp_inv base blk k (AP_enter c s)"
proof -
  have c: "c = last_ap s" "0 < c" using smp_invD(7,8) [OF I, of c] a by auto
  have l: "last_ap (AP_enter c s) = last_ap s" by (simp add: last_ap_def AP_enter_def)
  show ?thesis using I a c unfolding smp_inv_def l
    by (auto simp: AP_enter_def own_def segment_def)
qed

lemma AP_idle_parts:
  assumes "ap_rsp s c = stack_of blk c" and "ts_cpu_id (tsk (sched s) (blk (2 * c))) = c" and "aligned32K (blk (2 * c))"
  shows "sched (AP_idle pgd c s) = (let k = upd_task (blk (2 * c)) (\<lambda>t. t\<lparr>ts_state := TASK_RUNNING, ts_flags := 1,
       ts_pgd := pgd, ts_priority := 2, ts_vrun_time := 0\<rparr>) (sched s)
     in k\<lparr>lnk := list_init (lnk k) (blk (2 * c)), init_task := (init_task k)(c := blk (2 * c))\<rparr>)"
  using assms current_of_top [OF assms(3)] by (simp add: AP_idle_def Let_def stack_of_def upd_task_def)

lemma AP_idle_same:
  "ap (AP_idle pgd c s) = ap s" "gdt (AP_idle pgd c s) = gdt s" "global_i (AP_idle pgd c s) = global_i s"
  "locked (AP_idle pgd c s) = locked s" "bsp (AP_idle pgd c s) = bsp s" "stack_start (AP_idle pgd c s) = stack_start s"
  "ap_rsp (AP_idle pgd c s) = ap_rsp s" "ap_tr (AP_idle pgd c s) = ap_tr s" "init_tss (AP_idle pgd c s) = init_tss s"
  "ap_rsp0 (AP_idle pgd c s) = (ap_rsp0 s)(c := stack_start s)"
  by (simp_all add: AP_idle_def Let_def)

lemma idle_runq:
  assumes "runq k c []" and "p \<noteq> rqhead k c"
  shows "runq ((upd_task p f k)\<lparr>lnk := list_init (lnk k) p, init_task := g\<rparr>) c []"
  using assms init_frame [of "lnk k" "rqhead k c" "[]" p] by (simp add: runq_def upd_task_def)

text \<open>The two outcomes of \<open>load_TR\<close>, by the boot processor's progress.\<close>

lemma Start_SMP_cases:
  assumes I: "smp_inv base blk k s" and a: "ap s c = Entered"
  shows "c = last_ap s" and "0 < c" and "c < 4"
    and "bsp s = Sent \<Longrightarrow> Start_SMP pgd c s = (AP_idle pgd c s)\<lparr>ap := (ap s)(c := Faulted)\<rparr>"
    and "bsp s \<noteq> Sent \<Longrightarrow> Start_SMP pgd c s = (AP_idle pgd c s)\<lparr>gdt := (gdt s)(tss_slot c := mark_busy (gdt s (tss_slot c))),
       ap_tr := (ap_tr s)(c := tss_slot c), locked := False, ap := (ap s)(c := Ready)\<rparr>"
proof -
  show c: "c = last_ap s" "0 < c" using smp_invD(7,8) [OF I, of c] a by auto
  show "c < 4" using smp_invD(9) [OF I] c by simp
  have g: "global_i s = (if bsp s = Sent then c else Suc c)" using c by (auto simp: last_ap_def)
  have seg: "segment base s j" if "j \<le> c" for j using smp_invD(3) [OF I] c that by simp
  show "Start_SMP pgd c s = (AP_idle pgd c s)\<lparr>ap := (ap s)(c := Faulted)\<rparr>" if "bsp s = Sent"
  proof -
    have "c - 1 = 0 \<or> ap s (c - 1) = Ready" using smp_invD(1) [OF I, of "c - 1"] c by linarith
    then have "desc_type (gdt s (tss_slot (c - 1))) = 0x8b" using seg [of "c - 1"] by (auto simp: segment_def)
    then show ?thesis using that g by (simp add: Start_SMP_def Let_def AP_idle_same load_TR_def tss_slot_def)
  qed
  show "Start_SMP pgd c s = (AP_idle pgd c s)\<lparr>gdt := (gdt s)(tss_slot c := mark_busy (gdt s (tss_slot c))),
       ap_tr := (ap_tr s)(c := tss_slot c), locked := False, ap := (ap s)(c := Ready)\<rparr>" if "bsp s \<noteq> Sent"
    using that g seg [of c] a c by (simp add: Start_SMP_def Let_def AP_idle_same load_TR_def tss_slot_def segment_def)
qed

lemma start_inv:
  assumes I: "smp_inv base blk k s" and a: "ap s c = Entered" and ok: "stacks_ok blk k"
  shows "smp_inv base blk k (Start_SMP pgd c s)"
proof -
  let ?s = "Start_SMP pgd c s" and ?p = "blk (2 * c)"
  note C = Start_SMP_cases [OF I a]
  have o: "own base blk s j" if "0 < j" "j \<le> c" for j using smp_invD(2) [OF I] C(1) that by simp
  have st: "stack_start s = stack_of blk c" using smp_invD(4) [OF I] C(1,2) by simp
  have oc: "ap_rsp s c = stack_of blk c" "ts_cpu_id (tsk (sched s) ?p) = c" using o [of c] C(2) a by (auto simp: own_def)
  have al: "aligned32K ?p" using ok C(3) by (auto simp: stacks_ok_def)
  have ss: "sched ?s = sched (AP_idle pgd c s)" "bsp ?s = bsp s" "global_i ?s = global_i s" "stack_start ?s = stack_start s"
    "ap_rsp ?s = ap_rsp s" "init_tss ?s = init_tss s" "ap_rsp0 ?s = (ap_rsp0 s)(c := stack_start s)"
    using C(4,5) by (cases "bsp s = Sent"; simp add: AP_idle_same)+
  note sc = AP_idle_parts [OF oc al, of pgd, folded ss(1)]
  have l: "last_ap ?s = last_ap s" by (simp add: last_ap_def ss)
  have ap: "ap ?s = (ap s)(c := if bsp s = Sent then Faulted else Ready)"
    "ap_tr ?s = (ap_tr s)(c := if bsp s = Sent then ap_tr s c else tss_slot c)"
    "gdt ?s = (if bsp s = Sent then gdt s else (gdt s)(tss_slot c := mark_busy (gdt s (tss_slot c))))"
    "locked ?s = (if bsp s = Sent then locked s else False)"
    using C(4,5) by (cases "bsp s = Sent"; simp add: AP_idle_same)+
  have own: "own base blk ?s j" if j: "0 < j" "j \<le> c" for j
  proof -
    have "?p \<noteq> blk (2 * j)" if "j \<noteq> c" using blk_neq [OF ok, of "2 * c" "2 * j"] j C(3) that by auto
    then show ?thesis using o [OF j] oc a by (cases "j = c") (auto simp: own_def ss(5-7) ap sc Let_def upd_task_def st)
  qed
  have seg: "segment base ?s j" if "j \<le> c" for j
  proof (cases "j = c")
    case True
    have "segment base s c" using smp_invD(3) [OF I, of c] C(1) by simp
    then show ?thesis using True C(2) a desc_type_busy [of "gdt s (tss_slot c)"] by (auto simp: segment_def ap)
  next
    case False
    then have "gdt ?s (tss_slot j) = gdt s (tss_slot j)" "gdt ?s (Suc (tss_slot j)) = gdt s (Suc (tss_slot j))"
      using slots_apart [of c j] by (auto simp: ap)
    moreover have "segment base s j" using smp_invD(3) [OF I] C(1) that by simp
    ultimately show ?thesis using False by (simp add: segment_def ap)
  qed
  have rq: "runq (sched ?s) j [] \<and> rqhead (sched ?s) j = rqhead k j" if "j < NR_CPUS" for j
  proof -
    have "?p \<noteq> rqhead k j" using ok that C(3) by (auto simp: stacks_ok_def)
    moreover have "runq (sched s) j []" "rqhead (sched s) j = rqhead k j" using smp_invD(5,6) [OF I that] by blast+
    ultimately show ?thesis using idle_runq [of "sched s" j ?p] by (simp add: sc Let_def)
  qed
  have other: "ap ?s j = ap s j" if "j \<noteq> last_ap s" for j
    using that unfolding C(1) [symmetric] by (simp add: ap)
  have off: "ap ?s j = Off" if "j = 0 \<or> last_ap s < j" for j
    using other [of j] smp_invD(7) [OF I, of j] that C(1,2) by fastforce
  have ready: "ap ?s j = Ready" if "0 < j" "j < last_ap s" for j
    using other [of j] smp_invD(1) [OF I that] that by simp
  have here: "ap ?s (last_ap s) \<noteq> Off" "locked ?s \<longleftrightarrow> ap ?s (last_ap s) \<noteq> Ready"
    using smp_invD(10) [OF I, of c] a unfolding C(1) [symmetric] by (simp_all add: ap)
  have "1 \<le> global_i s \<and> global_i s \<le> 4 \<and> (bsp s = Finished \<longleftrightarrow> global_i s = 4)" using I by (simp add: smp_inv_def)
  moreover have "0 < last_ap s" using C(1,2) by simp
  ultimately show ?thesis unfolding smp_inv_def l ss(2-4)
    using own seg rq smp_invD(4) [OF I] off ready here C(1) by simp
qed

lemma smp_reach_inv:
  assumes "smp_reach base pgd blk (smp_start base k g) s" and "stacks_ok blk k" and "\<forall>c < NR_CPUS. runq k c []"
  shows "smp_inv base blk k s"
  using assms(1)
proof induction
  case init
  show ?case by (rule smp_start_inv [OF assms(3)])
next
  case (step s s')
  from step.hyps(2) step.IH show ?case
    by (cases rule: smp_step.cases) (auto intro: prepare_inv increment_inv enter_inv start_inv assms(2))
qed

text \<open>A processor that faulted keeps the lock: nothing but \<open>global_i++\<close> happens any more.\<close>

definition stuck :: "smp \<Rightarrow> bool" where
  "stuck s \<longleftrightarrow> locked s \<and> (\<forall>c. ap s c = (if c = 1 then Faulted else Off)) \<and>
     (bsp s = Sent \<and> global_i s = 1 \<or> bsp s = Waiting)"

lemma stuck_step: "smp_step base pgd blk s s' \<Longrightarrow> stuck s \<Longrightarrow> stuck s'"
proof (induction rule: smp_step.induct)
  case (increment s)
  then show ?case by (auto simp: stuck_def SMP_next_def)
qed (auto simp: stuck_def split: if_splits)

lemma stuck_reach: "smp_reach base pgd blk s s' \<Longrightarrow> stuck s \<Longrightarrow> stuck s'"
  by (induction rule: smp_reach.induct) (auto intro: stuck_step)

section \<open>Properties\<close>

text \<open>C39.  In every interleaving, a processor that has passed \<open>Start_SMP\<close> is one of 1 to 3, runs on the
  stack prepared for it, finds its own number there, has loaded the descriptor of its own task state
  segment, which leads to that stack, and has an idle task and an empty run queue that the scheduler
  can work on.\<close>

theorem smp_ap_ready:
  assumes "smp_reach base pgd blk (smp_start base k g) s" and "stacks_ok blk k" and "\<forall>c < NR_CPUS. runq k c []"
    and "ap s c = Ready"
  shows "c \<in> {1, 2, 3} \<and> ap_rsp s c = stack_of blk c \<and> ap_tr s c = tss_slot c \<and>
     descriptor_base (gdt s (tss_slot c)) (gdt s (Suc (tss_slot c))) = tss_addr base c \<and>
     rsp012 (init_tss s c) = stack_of blk c \<and>
     SMP_cpu_id ((sched s)\<lparr>cur := current_of (ap_rsp s c)\<rparr>) = c \<and>
     sched_wf ((sched s)\<lparr>cur := current_of (ap_rsp s c)\<rparr>) []"
proof -
  have I: "smp_inv base blk k s" by (rule smp_reach_inv [OF assms(1-3)])
  have c: "0 < c" "c \<le> last_ap s" "c < 4" using smp_invD(7) [OF I, of c] smp_invD(9) [OF I] assms(4) by auto
  have o: "own base blk s c" and g: "segment base s c" using smp_invD(2,3) [OF I, of c] c by auto
  have p: "aligned32K (blk (2 * c))" "blk (2 * c) \<noteq> rqhead k c" using assms(2) c(3) by (auto simp: stacks_ok_def NR_CPUS_def)
  have cur: "current_of (ap_rsp s c) = blk (2 * c)"
    using o assms(4) current_of_top [OF p(1)] by (simp add: own_def stack_of_def)
  have "runq (sched s) c []" "rqhead (sched s) c = rqhead k c" using smp_invD(5,6) [OF I, of c] c(3) by (auto simp: NR_CPUS_def)
  then have "sched_wf ((sched s)\<lparr>cur := blk (2 * c)\<rparr>) []"
    using o p(2) assms(4) by (intro sched_wfI [where c = c]) (auto simp: own_def runq_def)
  then show ?thesis using o g c assms(4) cur by (auto simp: own_def segment_def SMP_cpu_id_def)
qed

text \<open>C40.  There is an interleaving in which processor 1 reads \<open>global_i\<close> before the boot processor has
  incremented it: it loads the descriptor of the boot processor, which is busy, and faults with the
  lock taken, so that processor 2 is never started.\<close>

theorem smp_early_ap_faults:
  "\<exists>s. smp_reach base pgd blk (smp_start base k g) s \<and> ap s 1 = Faulted \<and>
     (\<forall>s'. smp_reach base pgd blk s s' \<longrightarrow> ap s' 1 = Faulted \<and> ap s' 2 = Off \<and> locked s' \<and> bsp s' \<noteq> Finished)"
proof -
  let ?a = "smp_start base k g"
  let ?b = "SMP_prepare base blk ?a"
  let ?d = "AP_enter 1 ?b"
  let ?e = "Start_SMP pgd 1 ?d"
  have "smp_reach base pgd blk ?a ?b"
    by (rule smp_reach.step [OF smp_reach.init prepare]) (simp_all add: smp_start_def Let_def)
  then have "smp_reach base pgd blk ?a ?d"
    by (rule smp_reach.step [OF _ enter]) (simp add: SMP_prepare_def smp_start_def Let_def)
  then have r: "smp_reach base pgd blk ?a ?e" by (rule smp_reach.step [OF _ start]) (simp add: AP_enter_def)
  have slots: "tss_slot 0 = 10" "tss_slot 1 = 12" by (simp_all add: tss_slot_def)
  have g: "gdt ?d 10 = mark_busy (set_tss_descriptor 10 (tss_addr base 0) g 10)" "global_i ?d = 1"
    by (simp_all add: AP_enter_def SMP_prepare_def smp_start_def Let_def set_tss_other tss_slot_def)
  then have "load_TR 10 (gdt ?d) = None"
    using desc_type_busy [OF desc_type_set [of 10 "tss_addr base 0" g]] by (simp add: load_TR_def)
  then have f: "?e = (AP_idle pgd 1 ?d)\<lparr>ap := (ap ?d)(1 := Faulted)\<rparr>"
    using g(2) by (simp add: Start_SMP_def Let_def AP_idle_same)
  have "stuck ?e" unfolding f stuck_def
    by (simp add: AP_idle_same) (simp add: AP_enter_def SMP_prepare_def smp_start_def Let_def)
  moreover from this have "ap ?e 1 = Faulted" by (simp add: stuck_def)
  moreover have "ap s' 1 = Faulted \<and> ap s' 2 = Off \<and> locked s' \<and> bsp s' \<noteq> Finished" if "stuck s'" for s'
    using that by (auto simp: stuck_def)
  ultimately show ?thesis using r stuck_reach by (intro exI [of _ ?e]) blast
qed

theorem smp_early_ap_faults_witness:
  "\<exists>s. smp_reach 0 0 (\<lambda>_. 0) (smp_start 0 demo_sched (\<lambda>_. 0)) s \<and> ap s 1 = Faulted \<and> ap s 2 = Off \<and> locked s"
  using smp_early_ap_faults [where base = 0 and pgd = 0 and blk = "\<lambda>_. 0" and k = demo_sched and g = "\<lambda>_. 0"] smp_reach.init
  by blast

text \<open>Processor 1 after the boot processor has gone on.\<close>

definition demo_cpus :: ksched where
  "demo_cpus = schedule_init (demo_sched\<lparr>task_schedule :=
     (\<lambda>i. \<lparr>running_task_count = 0, CPU_exec_task_jiffies = 0, task_queue = word_of_nat i\<rparr>)\<rparr>)"

definition demo_stacks :: "nat \<Rightarrow> addr" where
  "demo_stacks j = 0x100000 + word_of_nat j * 0x8000"

lemma demo_cpus_heads: "rqhead demo_cpus c = word_of_nat c"
proof -
  have "rqhead (fold schedule_init_one cs s) c = rqhead s c" for cs s
    by (induction cs arbitrary: s) (simp_all add: schedule_init_one_def upd_sched_def Let_def)
  moreover have "rqhead (fold (\<lambda>i s. upd_task (task_queue (task_schedule s i)) (\<lambda>_. zero_task) s) cs s) c = rqhead s c" for cs s
    by (induction cs arbitrary: s) simp_all
  ultimately show ?thesis by (simp add: demo_cpus_def schedule_init_def Let_def)
qed

lemma demo_cpus_runq: "\<forall>c < NR_CPUS. runq demo_cpus c []"
proof (intro allI impI)
  fix c assume "c < NR_CPUS"
  then show "runq demo_cpus c []" unfolding demo_cpus_def
    by (intro schedule_init_empty_queues) (auto simp: inj_on_def NR_CPUS_def word_of_nat_eq_iff take_bit_nat_eq_self)
qed

lemma demo_stacks_ok: "stacks_ok demo_stacks demo_cpus"
proof -
  have e: "demo_stacks j = push_bit 15 (32 + word_of_nat j)" for j
    by (simp add: demo_stacks_def push_bit_eq_mult algebra_simps)
  have u: "unat (demo_stacks j) = 0x100000 + j * 0x8000" if "j < 8" for j
    using that by (simp add: demo_stacks_def unat_word_ariths unat_of_nat_small)
  have "inj_on demo_stacks {..<8}" by (rule inj_onI) (metis u add_left_cancel lessThan_iff mult_cancel2 zero_neq_numeral)
  moreover have "aligned32K (demo_stacks j)" for j by (simp add: e aligned32K_def bit_simps)
  moreover have "demo_stacks j \<noteq> word_of_nat c" if "j < 8" "c < NR_CPUS" for j c
    using u [OF that(1)] that(2) unat_of_nat_small [of c] by (auto simp: NR_CPUS_def)
  ultimately show ?thesis by (simp add: stacks_ok_def demo_cpus_heads)
qed

theorem smp_ap_ready_witness:
  "\<exists>s. smp_reach 0x200000 0 demo_stacks (smp_start 0x200000 demo_cpus (\<lambda>_. 0)) s \<and> ap s 1 = Ready \<and>
     ap_tr s 1 = 12 \<and> sched_wf ((sched s)\<lparr>cur := current_of (ap_rsp s 1)\<rparr>) []"
proof -
  let ?R = "smp_reach 0x200000 0 demo_stacks (smp_start 0x200000 demo_cpus (\<lambda>_. 0))"
  let ?b = "SMP_prepare 0x200000 demo_stacks (smp_start 0x200000 demo_cpus (\<lambda>_. 0))"
  let ?e = "AP_enter 1 (SMP_next ?b)"
  have 1: "?R ?b" by (rule smp_reach.step [OF smp_reach.init prepare]) (simp_all add: smp_start_def Let_def)
  have 2: "?R (SMP_next ?b)" by (rule smp_reach.step [OF 1 increment]) (simp add: SMP_prepare_def Let_def)
  have 3: "?R ?e" by (rule smp_reach.step [OF 2 enter]) (simp add: SMP_next_def SMP_prepare_def smp_start_def Let_def)
  have e: "ap ?e 1 = Entered" by (simp add: AP_enter_def)
  have 4: "?R (Start_SMP 0 1 ?e)" by (rule smp_reach.step [OF 3 start [OF e]])
  have "bsp ?e \<noteq> Sent" by (simp add: AP_enter_def SMP_next_def SMP_prepare_def smp_start_def Let_def)
  then have "ap (Start_SMP 0 1 ?e) 1 = Ready"
    using Start_SMP_cases(5) [OF smp_reach_inv [OF 3 demo_stacks_ok demo_cpus_runq] e] by simp
  with smp_ap_ready [OF 4 demo_stacks_ok demo_cpus_runq, of 1] 4 show ?thesis by (auto simp: tss_slot_def)
qed

end
