(* ===== verification/Interrupt.thy ===== *)
theory Interrupt
  imports Gate Paging
begin

unbundle bit_operations_syntax

text \<open>
  Interrupt dispatch: \<open>src/interrupt.c\<close> and the I/O APIC part of \<open>src/APIC.c\<close>.  The chip is its index
  register and its register file; \<open>ioapic_ro\<close> are the bits of each register that software cannot
  change (the delivery status of a redirection entry, for instance).  Handlers and interrupt
  controllers are called through pointers: \<open>run\<close> says what the handler at an address does to the rest
  of the machine, with the vector and the parameter it is given; the functions of a controller are
  named by \<open>hw_fn\<close>.  \<open>eoi_log\<close> records what the acknowledgement of an interrupt depends on: the
  calls of handlers and the writes to the two end-of-interrupt registers, in order.
\<close>

section \<open>Descriptors\<close>

text \<open>The functions the controller tables of the source point to.\<close>

datatype hw_fn =
    Null_fn | Fn_enable | Fn_disable | Fn_install | Fn_uninstall | Fn_edge_ack | Fn_level_ack

record hw_int_controller =
  hc_enable :: hw_fn
  hc_disable :: hw_fn
  hc_install :: hw_fn
  hc_uninstall :: hw_fn
  hc_ack :: hw_fn

record irq_desc_T =
  irq_controller :: addr
  irq_name :: addr
  irq_parameter :: u64
  irq_handler :: addr
  irq_flags :: u64

definition NR_IRQS :: nat where "NR_IRQS = 24"

datatype eoi_event =
    Handled addr u64 u64    \<comment> \<open>handler, vector, parameter\<close>
  | Eoi                     \<comment> \<open>\<open>wrmsr\<close> to the EOI register of the local APIC\<close>
  | Eoi_io u32              \<comment> \<open>a write to the EOI register of the I/O APIC\<close>

record 'm irqsys =
  interrupt_desc :: "nat \<Rightarrow> irq_desc_T"
  SMP_IPI_desc :: "nat \<Rightarrow> irq_desc_T"
  controllers :: "addr \<Rightarrow> hw_int_controller"
  ioapic_index :: u8
  ioapic_regs :: "u8 \<Rightarrow> u32"
  ioapic_ro :: "u8 \<Rightarrow> u32"
  eoi_log :: "eoi_event list"
  machine :: 'm

definition no_desc :: irq_desc_T where
  "no_desc = \<lparr>irq_controller = NULL, irq_name = NULL, irq_parameter = 0, irq_handler = NULL, irq_flags = 0\<rparr>"

definition event :: "eoi_event \<Rightarrow> 'm irqsys \<Rightarrow> 'm irqsys" where
  "event e s = s\<lparr>eoi_log := eoi_log s @ [e]\<rparr>"

section \<open>The I/O APIC\<close>

definition write_index :: "u8 \<Rightarrow> 'm irqsys \<Rightarrow> 'm irqsys" where
  "write_index i s = s\<lparr>ioapic_index := i\<rparr>"

definition read_data :: "'m irqsys \<Rightarrow> u32" where
  "read_data s = ioapic_regs s (ioapic_index s)"

definition write_data :: "u32 \<Rightarrow> 'm irqsys \<Rightarrow> 'm irqsys" where
  "write_data v s =
     (let i = ioapic_index s; ro = ioapic_ro s i
      in s\<lparr>ioapic_regs := (ioapic_regs s)(i := (v AND NOT ro) OR (ioapic_regs s i AND ro))\<rparr>)"

definition ioapic_rte_read :: "u8 \<Rightarrow> 'm irqsys \<Rightarrow> u64 \<times> 'm irqsys" where
  "ioapic_rte_read i s =
     (let s = write_index (i + 1) s;
          r = ucast (read_data s);
          r = push_bit 32 r;
          s = write_index i s;
          r = r OR ucast (read_data s)
      in (r, s))"

definition ioapic_rte_write :: "u8 \<Rightarrow> u64 \<Rightarrow> 'm irqsys \<Rightarrow> 'm irqsys" where
  "ioapic_rte_write i v s =
     (let s = write_index i s;
          s = write_data (ucast (v AND 0xffffffff)) s;
          v = drop_bit 32 v;
          s = write_index (i + 1) s
      in write_data (ucast (v AND 0xffffffff)) s)"

text \<open>\<open>(irq - 32) * 2 + 0x10\<close>, cut to the \<open>unsigned char\<close> of the parameter.\<close>

definition rte_index :: "u64 \<Rightarrow> u8" where
  "rte_index irq = ucast ((irq - 32) * 2 + 0x10)"

definition IOAPIC_enable :: "u64 \<Rightarrow> 'm irqsys \<Rightarrow> 'm irqsys" where
  "IOAPIC_enable irq s =
     (let (v, s) = ioapic_rte_read (rte_index irq) s
      in ioapic_rte_write (rte_index irq) (v AND NOT 0x10000) s)"

definition IOAPIC_disable :: "u64 \<Rightarrow> 'm irqsys \<Rightarrow> 'm irqsys" where
  "IOAPIC_disable irq s =
     (let (v, s) = ioapic_rte_read (rte_index irq) s
      in ioapic_rte_write (rte_index irq) (v OR 0x10000) s)"

text \<open>\<open>arg\<close> is the word the argument points to.\<close>

definition IOAPIC_install :: "u64 \<Rightarrow> u64 \<Rightarrow> 'm irqsys \<Rightarrow> 'm irqsys" where
  "IOAPIC_install irq arg s = ioapic_rte_write (rte_index irq) arg s"

definition IOAPIC_uninstall :: "u64 \<Rightarrow> 'm irqsys \<Rightarrow> 'm irqsys" where
  "IOAPIC_uninstall irq s = ioapic_rte_write (rte_index irq) 0x10000 s"

definition IOAPIC_edge_ack :: "u64 \<Rightarrow> 'm irqsys \<Rightarrow> 'm irqsys" where
  "IOAPIC_edge_ack irq s = event Eoi s"

definition IOAPIC_level_ack :: "u64 \<Rightarrow> 'm irqsys \<Rightarrow> 'm irqsys" where
  "IOAPIC_level_ack irq s = event (Eoi_io (ucast irq)) (event Eoi s)"

text \<open>A call through a controller table; a null pointer faults.\<close>

definition call_hw :: "hw_fn \<Rightarrow> u64 \<Rightarrow> u64 \<Rightarrow> 'm irqsys \<Rightarrow> 'm irqsys option" where
  "call_hw f irq arg s =
     (case f of
        Null_fn \<Rightarrow> None
      | Fn_enable \<Rightarrow> Some (IOAPIC_enable irq s)
      | Fn_disable \<Rightarrow> Some (IOAPIC_disable irq s)
      | Fn_install \<Rightarrow> Some (IOAPIC_install irq arg s)
      | Fn_uninstall \<Rightarrow> Some (IOAPIC_uninstall irq s)
      | Fn_edge_ack \<Rightarrow> Some (IOAPIC_edge_ack irq s)
      | Fn_level_ack \<Rightarrow> Some (IOAPIC_level_ack irq s))"

text \<open>The register writes of \<open>IOAPIC_init\<close>: all entries masked, with consecutive vectors.\<close>

definition IOAPIC_init :: "'m irqsys \<Rightarrow> 'm irqsys" where
  "IOAPIC_init s =
     (let s = write_index 0 s; s = write_data 0x0f000000 s; s = write_index 1 s
      in fold (\<lambda>k. ioapic_rte_write (word_of_nat (0x10 + 2 * k)) (0x10020 + word_of_nat k)) [0..<24] s)"

section \<open>Registering handlers\<close>

text \<open>\<open>&interrupt_desc[irq - 32]\<close> and \<open>&SMP_IPI_desc[irq - 200]\<close>; an index outside the array is
  undefined.\<close>

definition irq_slot :: "u64 \<Rightarrow> nat option" where
  "irq_slot irq = (let n = unat (irq - 32) in if n < NR_IRQS then Some n else None)"

definition ipi_slot :: "u64 \<Rightarrow> nat option" where
  "ipi_slot irq = (let n = unat (irq - 200) in if n < 10 then Some n else None)"

definition register_irq :: "u64 \<Rightarrow> u64 \<Rightarrow> addr \<Rightarrow> u64 \<Rightarrow> addr \<Rightarrow> addr \<Rightarrow> 'm irqsys \<Rightarrow> (u64 \<times> 'm irqsys) option" where
  "register_irq irq arg handler parameter controller name s = do {
     p \<leftarrow> irq_slot irq;
     let s = s\<lparr>interrupt_desc := (interrupt_desc s)(p := \<lparr>irq_controller = controller, irq_name = name,
       irq_parameter = parameter, irq_handler = handler, irq_flags = 0\<rparr>)\<rparr>;
     s \<leftarrow> (if controller = NULL then None else call_hw (hc_install (controllers s controller)) irq arg s);
     s \<leftarrow> call_hw (hc_enable (controllers s controller)) irq 0 s;
     Some (1, s)
   }"

definition unregister_irq :: "u64 \<Rightarrow> 'm irqsys \<Rightarrow> (u64 \<times> 'm irqsys) option" where
  "unregister_irq irq s = do {
     p \<leftarrow> irq_slot irq;
     let c = irq_controller (interrupt_desc s p);
     s \<leftarrow> (if c = NULL then None else call_hw (hc_disable (controllers s c)) irq 0 s);
     s \<leftarrow> call_hw (hc_uninstall (controllers s c)) irq 0 s;
     Some (1, s\<lparr>interrupt_desc := (interrupt_desc s)(p := no_desc)\<rparr>)
   }"

definition register_IPI :: "u64 \<Rightarrow> u64 \<Rightarrow> addr \<Rightarrow> u64 \<Rightarrow> addr \<Rightarrow> addr \<Rightarrow> 'm irqsys \<Rightarrow> (u64 \<times> 'm irqsys) option" where
  "register_IPI irq arg handler parameter controller name s = do {
     p \<leftarrow> ipi_slot irq;
     Some (1, s\<lparr>SMP_IPI_desc := (SMP_IPI_desc s)(p := \<lparr>irq_controller = NULL, irq_name = name,
       irq_parameter = parameter, irq_handler = handler, irq_flags = 0\<rparr>)\<rparr>)
   }"

definition unregister_IPI :: "u64 \<Rightarrow> 'm irqsys \<Rightarrow> (u64 \<times> 'm irqsys) option" where
  "unregister_IPI irq s = do {
     p \<leftarrow> ipi_slot irq;
     Some (1, s\<lparr>SMP_IPI_desc := (SMP_IPI_desc s)(p := no_desc)\<rparr>)
   }"

section \<open>Dispatch\<close>

type_synonym 'm handlers = "addr \<Rightarrow> u64 \<Rightarrow> u64 \<Rightarrow> 'm \<Rightarrow> 'm option"

definition run_handler :: "'m handlers \<Rightarrow> u64 \<Rightarrow> irq_desc_T \<Rightarrow> 'm irqsys \<Rightarrow> 'm irqsys option" where
  "run_handler run nr d s =
     (if irq_handler d = NULL then Some s
      else do {
        m \<leftarrow> run (irq_handler d) nr (irq_parameter d) (machine s);
        Some (event (Handled (irq_handler d) nr (irq_parameter d)) (s\<lparr>machine := m\<rparr>))
      })"

definition Local_APIC_edge_level_ack :: "u64 \<Rightarrow> 'm irqsys \<Rightarrow> 'm irqsys" where
  "Local_APIC_edge_level_ack nr s = event Eoi s"

text \<open>The two cases of the switch over \<open>nr & 0x80\<close>; there is no other value.\<close>

definition do_IRQ :: "'m handlers \<Rightarrow> u64 \<Rightarrow> 'm irqsys \<Rightarrow> 'm irqsys option" where
  "do_IRQ run nr s =
     (if nr AND 0x80 = 0 then do {
        p \<leftarrow> irq_slot nr;
        let d = interrupt_desc s p;
        s \<leftarrow> run_handler run nr d s;
        let ack = hc_ack (controllers s (irq_controller d));
        s \<leftarrow> (if irq_controller d \<noteq> NULL \<and> ack \<noteq> Null_fn then call_hw ack nr 0 s else Some s);
        Some (event Eoi s)
      }
      else do {
        let s = Local_APIC_edge_level_ack nr s;
        p \<leftarrow> ipi_slot nr;
        run_handler run nr (SMP_IPI_desc s p) s
      })"

section \<open>Setting up\<close>

text \<open>The page of the I/O APIC registers is mapped uncached.  Unlike the other places that add a page
  table this one does not clear the new table.\<close>

definition PAGE_PWT :: u64 where "PAGE_PWT = 8"
definition PAGE_PCD :: u64 where "PAGE_PCD = 0x10"

definition IOAPIC_physical_address :: u64 where "IOAPIC_physical_address = 0xfec00000"

definition add_table :: "addr \<Rightarrow> u64 \<Rightarrow> vmem \<Rightarrow> vmem option" where
  "add_table slot attr s =
     (if ptm s slot \<noteq> 0 then Some s
      else do {
        (v, m) \<leftarrow> kmalloc 2 0x1000 (sm s);
        Some (s\<lparr>sm := m, ptm := (ptm s)(slot := Virt_To_Phy v OR attr)\<rparr>)
      })"

definition IOAPIC_pagetable_remap :: "u64 \<Rightarrow> vmem \<Rightarrow> vmem option" where
  "IOAPIC_pagetable_remap cr3 s = do {
     let va = Phy_To_Virt IOAPIC_physical_address;
     let t1 = Phy_To_Virt (cr3 + (drop_bit 39 va AND 0x1ff) * 8);
     s \<leftarrow> add_table t1 PAGE_KERNEL_GDT s;
     let t2 = pt_slot (ptm s t1) 30 va;
     s \<leftarrow> add_table t2 PAGE_KERNEL_Dir s;
     let t3 = pt_slot (ptm s t2) 21 va;
     Some (s\<lparr>ptm := (ptm s)(t3 := IOAPIC_physical_address OR (PAGE_KERNEL_Page OR PAGE_PWT OR PAGE_PCD))\<rparr>)
   }"

text \<open>The vectors of \<open>APIC_IOAPIC_init\<close> and \<open>SMP_init\<close>; \<open>stub\<close> and \<open>ipi_stub\<close> are the tables
  \<open>interrupt\<close> and \<open>SMP_interrupt\<close> of assembly entry points.\<close>

definition set_irq_gates :: "(nat \<Rightarrow> addr) \<Rightarrow> (nat \<Rightarrow> gate) \<Rightarrow> nat \<Rightarrow> gate" where
  "set_irq_gates stub idt = fold (\<lambda>i. set_intr_gate i 0 (stub (i - 32))) [32..<56] idt"

definition set_ipi_gates :: "(nat \<Rightarrow> addr) \<Rightarrow> (nat \<Rightarrow> gate) \<Rightarrow> nat \<Rightarrow> gate" where
  "set_ipi_gates ipi_stub idt = fold (\<lambda>i. set_intr_gate i 0 (ipi_stub (i - 200))) [200..<210] idt"

text \<open>The whole of \<open>APIC_IOAPIC_init\<close> but the model specific registers of \<open>Local_APIC_init\<close>; the
  list are the bytes sent to ports (the old controller is masked, the IMCR switched).\<close>

definition APIC_IOAPIC_init ::
    "(nat \<Rightarrow> addr) \<Rightarrow> u64 \<Rightarrow> vmem \<Rightarrow> (nat \<Rightarrow> gate) \<Rightarrow> 'm irqsys \<Rightarrow>
     (vmem \<times> (nat \<Rightarrow> gate) \<times> (u16 \<times> u8) list \<times> 'm irqsys) option" where
  "APIC_IOAPIC_init stub cr3 v idt s = do {
     v \<leftarrow> IOAPIC_pagetable_remap cr3 v;
     let idt = set_irq_gates stub idt;
     let ports = [(0x21, 0xff), (0xa1, 0xff), (0x22, 0x70), (0x23, 0x01)];
     let s = IOAPIC_init s;
     Some (v, idt, ports, s\<lparr>interrupt_desc := (\<lambda>p. if p < NR_IRQS then no_desc else interrupt_desc s p)\<rparr>)
   }"

text \<open>A redirection entry as the drivers fill it in; the word is the layout of its bit fields.\<close>

record IO_APIC_RET_entry =
  rte_vector :: u8
  rte_deliver_mode :: u64
  rte_dest_mode :: u64
  rte_deliver_status :: u64
  rte_polarity :: u64
  rte_irr :: u64
  rte_trigger :: u64
  rte_mask :: u64
  rte_reserved :: u64
  rte_reserved1 :: u64
  rte_phy_dest :: u64
  rte_reserved2 :: u64

definition rte_word :: "IO_APIC_RET_entry \<Rightarrow> u64" where
  "rte_word e =
     ucast (rte_vector e) OR push_bit 8 (take_bit 3 (rte_deliver_mode e)) OR
     push_bit 11 (take_bit 1 (rte_dest_mode e)) OR push_bit 12 (take_bit 1 (rte_deliver_status e)) OR
     push_bit 13 (take_bit 1 (rte_polarity e)) OR push_bit 14 (take_bit 1 (rte_irr e)) OR
     push_bit 15 (take_bit 1 (rte_trigger e)) OR push_bit 16 (take_bit 1 (rte_mask e)) OR
     push_bit 17 (take_bit 15 (rte_reserved e)) OR push_bit 32 (take_bit 24 (rte_reserved1 e)) OR
     push_bit 56 (take_bit 4 (rte_phy_dest e)) OR push_bit 60 (take_bit 4 (rte_reserved2 e))"

section \<open>Redirection entries\<close>

definition rte :: "'m irqsys \<Rightarrow> u8 \<Rightarrow> u64" where
  "rte s i = ucast (ioapic_regs s i) OR push_bit 32 (ucast (ioapic_regs s (i + 1)))"

definition rte_ro :: "'m irqsys \<Rightarrow> u8 \<Rightarrow> u64" where
  "rte_ro s i = ucast (ioapic_ro s i) OR push_bit 32 (ucast (ioapic_ro s (i + 1)))"

lemma rte_read: "ioapic_rte_read i s = (rte s i, s\<lparr>ioapic_index := i\<rparr>)"
  by (simp add: ioapic_rte_read_def rte_def write_index_def read_data_def Let_def or.commute)

lemma rte_write_regs:
  "ioapic_regs (ioapic_rte_write i v s) j =
     (if j = i then (ucast v AND NOT (ioapic_ro s i)) OR (ioapic_regs s i AND ioapic_ro s i)
      else if j = i + 1 then (ucast (drop_bit 32 v) AND NOT (ioapic_ro s j)) OR (ioapic_regs s j AND ioapic_ro s j)
      else ioapic_regs s j)"
proof -
  have "(ucast (w AND 0xffffffff) :: u32) = ucast w" for w :: u64
    by (rule bit_word_eqI) (auto simp: mask_32 bit_simps)
  then show ?thesis
    by (simp add: ioapic_rte_write_def write_index_def write_data_def Let_def)
qed

lemma rte_write_frame [simp]:
  "interrupt_desc (ioapic_rte_write i v s) = interrupt_desc s"
  "SMP_IPI_desc (ioapic_rte_write i v s) = SMP_IPI_desc s"
  "controllers (ioapic_rte_write i v s) = controllers s"
  "ioapic_ro (ioapic_rte_write i v s) = ioapic_ro s"
  "eoi_log (ioapic_rte_write i v s) = eoi_log s"
  "machine (ioapic_rte_write i v s) = machine s"
  by (simp_all add: ioapic_rte_write_def write_index_def write_data_def Let_def)

lemma bit_lt_32: "bit (w :: u32) n \<Longrightarrow> n < 32"
  using bit_imp_le_length [of w n] by simp

lemma rte_write:
  "rte (ioapic_rte_write i v s) i = (v AND NOT (rte_ro s i)) OR (rte s i AND rte_ro s i)"
proof (rule bit_word_eqI)
  fix k assume "k < LENGTH(64)"
  moreover have "i + 1 \<noteq> i" by simp
  ultimately show "bit (rte (ioapic_rte_write i v s) i) k = bit ((v AND NOT (rte_ro s i)) OR (rte s i AND rte_ro s i)) k"
    by (cases "k < 32") (auto simp: rte_def rte_ro_def rte_write_regs bit_simps dest: bit_lt_32)
qed

lemma rte_write_other:
  "j \<noteq> i \<Longrightarrow> j \<noteq> i + 1 \<Longrightarrow> j + 1 \<noteq> i \<Longrightarrow> rte (ioapic_rte_write i v s) j = rte s j"
  by (simp add: rte_def rte_write_regs)

text \<open>The bits software may change: the mask bit and the vector of an entry.\<close>

definition rte_writable :: "'m irqsys \<Rightarrow> u8 \<Rightarrow> bool" where
  "rte_writable s i \<longleftrightarrow> rte_ro s i AND 0x100ff = 0"

abbreviation rte_masked :: "u64 \<Rightarrow> bool" where
  "rte_masked w \<equiv> bit w 16"

abbreviation rte_vec :: "u64 \<Rightarrow> u64" where
  "rte_vec w \<equiv> take_bit 8 w"

lemma bit_0x100ff: "bit (0x100ff :: int) n \<longleftrightarrow> n < 8 \<or> n = 16"
proof -
  have "(0x100ff :: int) = 2 ^ 16 OR mask 8" by (simp add: mask_eq_exp_minus_1)
  then show ?thesis by (simp only: bit_or_iff bit_exp_iff bit_mask_iff) auto
qed

lemma bit_0x10000: "bit (0x10000 :: int) n \<longleftrightarrow> n = 16"
proof -
  have "(0x10000 :: int) = 2 ^ 16" by simp
  then show ?thesis by (simp only: bit_exp_iff) simp
qed

lemma bit_0xff: "bit (0xff :: int) n \<longleftrightarrow> n < 8"
proof -
  have "(0xff :: int) = mask 8" by (simp add: mask_eq_exp_minus_1)
  then show ?thesis by (simp only: bit_mask_iff) simp
qed

lemma rte_writableD:
  assumes "rte_writable s i" "n < 8 \<or> n = 16"
  shows "\<not> bit (rte_ro s i) n"
proof
  assume "bit (rte_ro s i) n"
  with assms(2) have "bit (rte_ro s i AND 0x100ff) n" by (auto simp: bit_simps bit_0x100ff)
  with assms(1) show False by (simp add: rte_writable_def)
qed

lemma rte_write_control:
  assumes "rte_writable s i"
  shows "rte_masked (rte (ioapic_rte_write i v s) i) \<longleftrightarrow> rte_masked v"
    and "rte_vec (rte (ioapic_rte_write i v s) i) = rte_vec v"
proof -
  show "rte_masked (rte (ioapic_rte_write i v s) i) \<longleftrightarrow> rte_masked v"
    using rte_writableD [OF assms, of 16] by (simp add: rte_write bit_simps)
  show "rte_vec (rte (ioapic_rte_write i v s) i) = rte_vec v"
    by (rule bit_word_eqI) (use rte_writableD [OF assms] in \<open>auto simp: rte_write bit_simps\<close>)
qed

lemma IOAPIC_enable_eq:
  "IOAPIC_enable irq s =
     ioapic_rte_write (rte_index irq) (rte s (rte_index irq) AND NOT 0x10000) (s\<lparr>ioapic_index := rte_index irq\<rparr>)"
  by (simp add: IOAPIC_enable_def rte_read)

lemma IOAPIC_disable_eq:
  "IOAPIC_disable irq s =
     ioapic_rte_write (rte_index irq) (rte s (rte_index irq) OR 0x10000) (s\<lparr>ioapic_index := rte_index irq\<rparr>)"
  by (simp add: IOAPIC_disable_def rte_read)

lemma rte_index_upd [simp]:
  "rte (s\<lparr>ioapic_index := i\<rparr>) j = rte s j" "rte_ro (s\<lparr>ioapic_index := i\<rparr>) j = rte_ro s j"
  "rte_writable (s\<lparr>ioapic_index := i\<rparr>) j = rte_writable s j"
  "rte_ro (ioapic_rte_write k v s) j = rte_ro s j"
  "rte_writable (ioapic_rte_write k v s) j = rte_writable s j"
  by (simp_all add: rte_def rte_ro_def rte_writable_def)

lemma IOAPIC_enable_control:
  assumes "rte_writable s (rte_index irq)"
  shows "\<not> rte_masked (rte (IOAPIC_enable irq s) (rte_index irq))"
    and "rte_vec (rte (IOAPIC_enable irq s) (rte_index irq)) = rte_vec (rte s (rte_index irq))"
proof -
  have "rte_vec (w AND NOT 0x10000) = rte_vec w" for w :: u64
    by (rule bit_word_eqI) (auto simp: bit_simps bit_0x10000 bit_0xff)
  moreover have "\<not> rte_masked (w AND NOT 0x10000)" for w :: u64
    by (simp add: bit_simps bit_0x10000)
  ultimately show "\<not> rte_masked (rte (IOAPIC_enable irq s) (rte_index irq))"
    and "rte_vec (rte (IOAPIC_enable irq s) (rte_index irq)) = rte_vec (rte s (rte_index irq))"
    using assms by (simp_all add: IOAPIC_enable_eq rte_write_control)
qed

lemma IOAPIC_enable_frame [simp]:
  "interrupt_desc (IOAPIC_enable irq s) = interrupt_desc s" "SMP_IPI_desc (IOAPIC_enable irq s) = SMP_IPI_desc s"
  "controllers (IOAPIC_enable irq s) = controllers s" "eoi_log (IOAPIC_enable irq s) = eoi_log s"
  "machine (IOAPIC_enable irq s) = machine s" "rte_writable (IOAPIC_enable irq s) i = rte_writable s i"
  by (simp_all add: IOAPIC_enable_eq)

lemma IOAPIC_disable_frame [simp]:
  "interrupt_desc (IOAPIC_disable irq s) = interrupt_desc s" "SMP_IPI_desc (IOAPIC_disable irq s) = SMP_IPI_desc s"
  "controllers (IOAPIC_disable irq s) = controllers s" "eoi_log (IOAPIC_disable irq s) = eoi_log s"
  "machine (IOAPIC_disable irq s) = machine s" "rte_writable (IOAPIC_disable irq s) i = rte_writable s i"
  by (simp_all add: IOAPIC_disable_eq)

section \<open>From registration to delivery\<close>

text \<open>The table all four drivers register with.\<close>

definition ioapic_controller :: hw_int_controller where
  "ioapic_controller = \<lparr>hc_enable = Fn_enable, hc_disable = Fn_disable, hc_install = Fn_install,
     hc_uninstall = Fn_uninstall, hc_ack = Fn_edge_ack\<rparr>"

lemma irq_slot_unat:
  assumes "irq_slot irq = Some p"
  shows "p < 24" "irq = 32 + word_of_nat p" "unat irq = 32 + p"
proof -
  from assms have p: "p = unat (irq - 32)" "p < 24"
    by (auto simp: irq_slot_def NR_IRQS_def Let_def split: if_splits)
  then show "p < 24" by simp
  show i: "irq = 32 + word_of_nat p" by (simp add: p(1))
  have "unat (32 + word_of_nat p :: u64) = 32 + p"
    using p(2) by (subst unat_plus_if') (simp add: unat_of_nat_small)
  then show "unat irq = 32 + p" by (simp flip: i)
qed

lemma irq_slot_vector:
  assumes "irq_slot irq = Some p"
  shows "irq AND 0x80 = 0"
proof -
  have "\<not> bit (unat irq) 7" using irq_slot_unat [OF assms] by (simp add: bit_iff_odd)
  then have "\<not> bit irq 7" by (simp add: bit_unsigned_iff)
  then show ?thesis using and_bit64_eq_0_iff [of 7 irq] by simp
qed

definition installed_irq :: "u64 \<Rightarrow> nat \<Rightarrow> addr \<Rightarrow> 'm irqsys \<Rightarrow> bool" where
  "installed_irq irq p c s \<longleftrightarrow> irq_slot irq = Some p \<and> c \<noteq> NULL \<and>
     controllers s c = ioapic_controller \<and> rte_writable s (rte_index irq)"

text \<open>C33.  A driver that registers a handler for an I/O interrupt gets it: the redirection entry
  holds the vector the driver chose and is unmasked, only the descriptor of that vector changes, and
  when the interrupt arrives the dispatcher runs exactly this handler with the registered
  parameter.  The interrupt is acknowledged afterwards, and twice: once by the acknowledge function
  of the controller and once by the dispatcher itself.\<close>

theorem registered_irq_delivered:
  assumes "installed_irq irq p c s" and "h \<noteq> NULL"
    and "run h irq param (machine s) = Some m"
  shows "\<exists>s' s''. register_irq irq arg h param c name s = Some (1, s') \<and>
     \<not> rte_masked (rte s' (rte_index irq)) \<and> rte_vec (rte s' (rte_index irq)) = rte_vec arg \<and>
     (\<forall>q. q \<noteq> p \<longrightarrow> interrupt_desc s' q = interrupt_desc s q) \<and>
     do_IRQ run irq s' = Some s'' \<and> machine s'' = m \<and>
     eoi_log s'' = eoi_log s @ [Handled h irq param, Eoi, Eoi]"
proof -
  let ?i = "rte_index irq"
  let ?d = "\<lparr>irq_controller = c, irq_name = name, irq_parameter = param, irq_handler = h, irq_flags = 0\<rparr>"
  define s0 where "s0 = s\<lparr>interrupt_desc := (interrupt_desc s)(p := ?d)\<rparr>"
  define s1 where "s1 = IOAPIC_install irq arg s0"
  define s2 where "s2 = IOAPIC_enable irq s1"
  from assms(1) have slot: "irq_slot irq = Some p" and c: "c \<noteq> NULL" "controllers s c = ioapic_controller"
    and w: "rte_writable s ?i" by (auto simp: installed_irq_def)
  have w0: "rte_writable s0 ?i" using w by (simp add: s0_def rte_writable_def rte_ro_def)
  then have w1: "rte_writable s1 ?i" by (simp add: s1_def IOAPIC_install_def)
  have "register_irq irq arg h param c name s = Some (1, s2)"
    using slot c by (simp add: register_irq_def Let_def call_hw_def ioapic_controller_def s2_def s1_def s0_def
        IOAPIC_install_def)
  moreover have "\<not> rte_masked (rte s2 ?i)"
    unfolding s2_def by (rule IOAPIC_enable_control [OF w1])
  moreover have "rte_vec (rte s2 ?i) = rte_vec arg"
    unfolding s2_def IOAPIC_enable_control(2) [OF w1]
    unfolding s1_def IOAPIC_install_def by (rule rte_write_control [OF w0])
  moreover have s2: "interrupt_desc s2 = (interrupt_desc s)(p := ?d)" "controllers s2 = controllers s"
    "machine s2 = machine s" "eoi_log s2 = eoi_log s"
    by (simp_all add: s2_def s1_def s0_def IOAPIC_install_def)
  moreover have "do_IRQ run irq s2 =
      Some (event Eoi (event Eoi (event (Handled h irq param) (s2\<lparr>machine := m\<rparr>))))"
    using slot irq_slot_vector [OF slot] c assms(2,3)
    by (simp add: do_IRQ_def run_handler_def s2 call_hw_def ioapic_controller_def IOAPIC_edge_ack_def event_def)
  ultimately show ?thesis by (auto simp: event_def)
qed

text \<open>Taking a handler away is complete: the entry is masked with vector 0, and an interrupt that
  still arrives at that vector runs no handler, leaves the machine as it is and is acknowledged
  once.  The other descriptors stay.\<close>

theorem unregistered_irq_silent:
  assumes "installed_irq irq p c s" and "irq_controller (interrupt_desc s p) = c"
  shows "\<exists>s' s''. unregister_irq irq s = Some (1, s') \<and>
     rte_masked (rte s' (rte_index irq)) \<and> rte_vec (rte s' (rte_index irq)) = 0 \<and>
     interrupt_desc s' = (interrupt_desc s)(p := no_desc) \<and>
     do_IRQ run irq s' = Some s'' \<and> machine s'' = machine s \<and> eoi_log s'' = eoi_log s @ [Eoi]"
proof -
  let ?i = "rte_index irq"
  from assms(1) have slot: "irq_slot irq = Some p" and c: "c \<noteq> NULL" "controllers s c = ioapic_controller"
    and w: "rte_writable s ?i" by (auto simp: installed_irq_def)
  define s1 where "s1 = IOAPIC_uninstall irq (IOAPIC_disable irq s)"
  define s2 where "s2 = s1\<lparr>interrupt_desc := (interrupt_desc s)(p := no_desc)\<rparr>"
  have u: "unregister_irq irq s = Some (1, s2)"
    using slot c assms(2)
    by (simp add: unregister_irq_def Let_def call_hw_def ioapic_controller_def s2_def s1_def IOAPIC_uninstall_def)
  have "rte_writable (IOAPIC_disable irq s) ?i" using w by simp
  note rte_write_control [OF this, of "0x10000"]
  then have m: "rte_masked (rte s2 ?i)" "rte_vec (rte s2 ?i) = 0"
    by (simp_all add: s2_def s1_def IOAPIC_uninstall_def rte_def bit_0x10000)
  have s2: "interrupt_desc s2 = (interrupt_desc s)(p := no_desc)" "machine s2 = machine s" "eoi_log s2 = eoi_log s"
    by (simp_all add: s2_def s1_def IOAPIC_uninstall_def)
  have "do_IRQ run irq s2 = Some (event Eoi s2)"
    using slot irq_slot_vector [OF slot] by (simp add: do_IRQ_def run_handler_def s2 no_desc_def Let_def)
  with u m s2 show ?thesis by (auto simp: event_def)
qed

text \<open>A chip whose status bits are read only, a controller table at \<open>0xc000\<close>, and a machine that
  remembers the parameter of the last handler.\<close>

definition demo_irqs :: "u64 irqsys" where
  "demo_irqs = \<lparr>interrupt_desc = (\<lambda>_. no_desc), SMP_IPI_desc = (\<lambda>_. no_desc),
     controllers = (\<lambda>_. ioapic_controller), ioapic_index = 0, ioapic_regs = (\<lambda>_. 0),
     ioapic_ro = (\<lambda>i. if i AND 1 = 0 then 0x5000 else 0), eoi_log = [], machine = 0\<rparr>"

theorem registered_irq_delivered_witness:
  "\<exists>s' s''. register_irq 0x21 0x10021 0xd000 7 0xc000 0 demo_irqs = Some (1, s') \<and>
     \<not> rte_masked (rte s' 0x12) \<and> do_IRQ (\<lambda>h nr q m. Some q) 0x21 s' = Some s'' \<and> machine s'' = 7 \<and>
     eoi_log s'' = [Handled 0xd000 0x21 7, Eoi, Eoi]"
proof -
  have "installed_irq 0x21 1 0xc000 demo_irqs"
    by (simp add: installed_irq_def irq_slot_def NR_IRQS_def demo_irqs_def rte_index_def rte_writable_def rte_ro_def)
  from registered_irq_delivered [OF this, of "0xd000" "\<lambda>h nr q m. Some q" 7 7 "0x10021" 0]
  have "\<exists>s' s''. register_irq 0x21 0x10021 0xd000 7 0xc000 0 demo_irqs = Some (1, s') \<and>
     \<not> rte_masked (rte s' (rte_index 0x21)) \<and> do_IRQ (\<lambda>h nr q m. Some q) 0x21 s' = Some s'' \<and> machine s'' = 7 \<and>
     eoi_log s'' = eoi_log demo_irqs @ [Handled 0xd000 0x21 7, Eoi, Eoi]"
    by auto
  moreover have "rte_index 0x21 = 0x12" "eoi_log demo_irqs = []" by (simp_all add: rte_index_def demo_irqs_def)
  ultimately show ?thesis by simp
qed

theorem unregistered_irq_silent_witness:
  "\<exists>s' s''. unregister_irq 0x21 (demo_irqs\<lparr>interrupt_desc := (\<lambda>_. no_desc\<lparr>irq_controller := 0xc000, irq_handler := 0xd000\<rparr>)\<rparr>) = Some (1, s') \<and>
     rte_masked (rte s' 0x12) \<and> do_IRQ (\<lambda>h nr q m. Some (m + 1)) 0x21 s' = Some s'' \<and> machine s'' = 0 \<and> eoi_log s'' = [Eoi]"
proof -
  let ?s = "demo_irqs\<lparr>interrupt_desc := (\<lambda>_. no_desc\<lparr>irq_controller := 0xc000, irq_handler := 0xd000\<rparr>)\<rparr>"
  have "installed_irq 0x21 1 0xc000 ?s"
    by (simp add: installed_irq_def irq_slot_def NR_IRQS_def demo_irqs_def rte_index_def rte_writable_def rte_ro_def)
  from unregistered_irq_silent [OF this, of "\<lambda>h nr q m. Some (m + 1)"]
  show ?thesis by (auto simp: demo_irqs_def rte_index_def)
qed

text \<open>An interrupt between processors is acknowledged before its handler runs.\<close>

lemma ipi_delivered:
  assumes "ipi_slot nr = Some p" "nr AND 0x80 \<noteq> 0" "h \<noteq> NULL"
    and "run h nr param (machine s) = Some m"
  shows "\<exists>s' s''. register_IPI nr arg h param c name s = Some (1, s') \<and> do_IRQ run nr s' = Some s'' \<and>
     machine s'' = m \<and> eoi_log s'' = eoi_log s @ [Eoi, Handled h nr param]"
  using assms
  by (simp add: register_IPI_def do_IRQ_def run_handler_def Local_APIC_edge_level_ack_def event_def)

section \<open>The initial redirection table\<close>

abbreviation (input) init_rte :: "nat \<Rightarrow> 'm irqsys \<Rightarrow> 'm irqsys" where
  "init_rte k \<equiv> ioapic_rte_write (word_of_nat (0x10 + 2 * k)) (0x10020 + word_of_nat k)"

lemma init_rte_word:
  assumes "k < 24"
  shows "rte_masked (0x10020 + word_of_nat k)" "rte_vec (0x10020 + word_of_nat k) = 0x20 + word_of_nat k"
proof -
  have "\<forall>k \<in> set [0..<24]. rte_masked (0x10020 + word_of_nat k) \<and>
      rte_vec (0x10020 + word_of_nat k) = 0x20 + word_of_nat k"
    by code_simp
  with assms show "rte_masked (0x10020 + word_of_nat k)" "rte_vec (0x10020 + word_of_nat k) = 0x20 + word_of_nat k"
    by auto
qed

lemma init_rte_apart:
  assumes "k < n" "n < 24"
  shows "(word_of_nat (0x10 + 2 * k) :: u8) \<noteq> word_of_nat (0x10 + 2 * n)"
    "(word_of_nat (0x10 + 2 * k) :: u8) \<noteq> word_of_nat (0x10 + 2 * n) + 1"
    "(word_of_nat (0x10 + 2 * k) :: u8) + 1 \<noteq> word_of_nat (0x10 + 2 * n)"
proof -
  have "\<forall>n \<in> set [0..<24]. \<forall>k \<in> set [0..<n].
      (word_of_nat (0x10 + 2 * k) :: u8) \<noteq> word_of_nat (0x10 + 2 * n) \<and>
      (word_of_nat (0x10 + 2 * k) :: u8) \<noteq> word_of_nat (0x10 + 2 * n) + 1 \<and>
      (word_of_nat (0x10 + 2 * k) :: u8) + 1 \<noteq> word_of_nat (0x10 + 2 * n)"
    by code_simp
  with assms show "(word_of_nat (0x10 + 2 * k) :: u8) \<noteq> word_of_nat (0x10 + 2 * n)"
    "(word_of_nat (0x10 + 2 * k) :: u8) \<noteq> word_of_nat (0x10 + 2 * n) + 1"
    "(word_of_nat (0x10 + 2 * k) :: u8) + 1 \<noteq> word_of_nat (0x10 + 2 * n)"
    by auto
qed

lemma init_rte_writable: "rte_writable (fold init_rte ks s) i = rte_writable s i"
  by (induction ks arbitrary: s) simp_all

lemma init_rte_all:
  fixes s :: "'m irqsys"
  assumes "\<forall>k < n. rte_writable s (word_of_nat (0x10 + 2 * k))" "k < n" "n \<le> 24"
  shows "rte_masked (rte (fold init_rte [0..<n] s) (word_of_nat (0x10 + 2 * k))) \<and>
     rte_vec (rte (fold init_rte [0..<n] s) (word_of_nat (0x10 + 2 * k))) = 0x20 + word_of_nat k"
  using assms
proof (induction n)
  case (Suc n)
  show ?case
  proof (cases "k = n")
    case True
    have w: "rte_writable (fold init_rte [0..<n] s) (word_of_nat (0x10 + 2 * n))"
      using Suc.prems by (simp only: init_rte_writable)
    show ?thesis
      using rte_write_control [OF w] init_rte_word [of n] Suc.prems True by simp
  next
    case False
    with Suc.prems have k: "k < n" "n < 24" by simp_all
    have "rte (init_rte n t) (word_of_nat (0x10 + 2 * k)) = rte t (word_of_nat (0x10 + 2 * k))" for t :: "'m irqsys"
      by (rule rte_write_other [OF init_rte_apart [OF k]])
    moreover have "fold init_rte [0..<Suc n] s = init_rte n (fold init_rte [0..<n] s)" by simp
    ultimately show ?thesis using Suc.IH k Suc.prems by (simp only:) simp
  qed
qed simp

text \<open>\<open>IOAPIC_init\<close> leaves no interrupt source open: each of the 24 redirection entries is
  masked, and entry \<open>k\<close> has vector \<open>0x20 + k\<close>, the slot of the interrupt table that
  \<open>interrupt_desc[k]\<close> describes.\<close>

theorem IOAPIC_init_masks:
  assumes "\<forall>k < 24. rte_writable s (word_of_nat (0x10 + 2 * k))" and "k < 24"
  shows "rte_masked (rte (IOAPIC_init s) (word_of_nat (0x10 + 2 * k))) \<and>
     rte_vec (rte (IOAPIC_init s) (word_of_nat (0x10 + 2 * k))) = 0x20 + word_of_nat k"
proof -
  define s0 where "s0 = write_index 1 (write_data 0x0f000000 (write_index 0 s))"
  have "\<forall>k < 24. rte_writable s0 (word_of_nat (0x10 + 2 * k))"
    using assms(1) by (simp add: s0_def write_index_def write_data_def rte_writable_def rte_ro_def Let_def)
  from init_rte_all [OF this assms(2)] show ?thesis by (simp add: IOAPIC_init_def s0_def Let_def)
qed

theorem IOAPIC_init_masks_witness:
  "rte_masked (rte (IOAPIC_init demo_irqs) 0x14) \<and> rte_vec (rte (IOAPIC_init demo_irqs) 0x14) = 0x22"
proof -
  have "\<forall>k \<in> set [0..<24]. rte_writable demo_irqs (word_of_nat (0x10 + 2 * k))" by code_simp
  then have "\<forall>k < 24. rte_writable demo_irqs (word_of_nat (0x10 + 2 * k))" by auto
  from IOAPIC_init_masks [OF this, of 2] show ?thesis by simp
qed

end
