(* ===== verification/Devices.thy ===== *)
theory Devices
  imports Interrupt Keyboard Disk Timer
begin

unbundle bit_operations_syntax

text \<open>
  The drivers attached to their interrupts: \<open>keyboard_init\<close>, \<open>mouse_init\<close>, \<open>disk_init\<close> and
  \<open>HPET_init\<close>, the functions that undo them, and the handlers of theories \<open>Keyboard\<close>, \<open>Disk\<close> and
  \<open>Timer\<close> as the code the dispatcher of theory \<open>Interrupt\<close> calls.  \<open>sy\<close> gives the addresses of
  functions, controller tables and names.  The scheduler, the slab allocator and the port log are
  those of the disk driver's state.  Delay loops are left out.
\<close>

section \<open>State\<close>

record mach =
  kbd :: kbuf
  p_kb :: addr
  keyboard_wait_queue :: addr
  mouse_buf :: kbuf
  p_mouse :: addr
  packet :: mouse_packet
  dsk :: disk
  tmrs :: timers
  hpet_log :: "(addr \<times> u64) list"
  port60 :: u8                      \<comment> \<open>what the next read of port 0x60 returns\<close>
  disk_error :: bool                \<comment> \<open>the error bit and the data the disk offers\<close>
  disk_data :: "nat \<Rightarrow> u8"

definition upd_mach :: "(mach \<Rightarrow> mach) \<Rightarrow> mach irqsys \<Rightarrow> mach irqsys" where
  "upd_mach f s = s\<lparr>machine := f (machine s)\<rparr>"

definition port_io :: "pio list \<Rightarrow> mach irqsys \<Rightarrow> mach irqsys" where
  "port_io es = upd_mach (\<lambda>m. m\<lparr>dsk := log es (dsk m)\<rparr>)"

definition PORT_KB_DATA :: nat where "PORT_KB_DATA = 0x60"
definition PORT_KB_STATUS :: nat where "PORT_KB_STATUS = 0x64"
definition PORT_KB_CMD :: nat where "PORT_KB_CMD = 0x64"
definition KBSTATUS_IBF :: u8 where "KBSTATUS_IBF = 2"
definition KBCMD_WRITE_CMD :: u8 where "KBCMD_WRITE_CMD = 0x60"
definition KB_INIT_MODE :: u8 where "KB_INIT_MODE = 0x47"
definition KBCMD_SENDTO_MOUSE :: u8 where "KBCMD_SENDTO_MOUSE = 0xd4"
definition MOUSE_ENABLE :: u8 where "MOUSE_ENABLE = 0xf4"
definition KBCMD_EN_MOUSE_INTFACE :: u8 where "KBCMD_EN_MOUSE_INTFACE = 0xa8"

definition wait_KB_write :: pio where
  "wait_KB_write = Wait_clear PORT_KB_STATUS KBSTATUS_IBF"

definition sizeof_kbuf :: u64 where "sizeof_kbuf = 120"

text \<open>The redirection entry all drivers build: fixed delivery to processor 0, edge triggered, masked.\<close>

definition edge_entry :: "u8 \<Rightarrow> IO_APIC_RET_entry" where
  "edge_entry v = \<lparr>rte_vector = v, rte_deliver_mode = 0, rte_dest_mode = 0, rte_deliver_status = 0,
     rte_polarity = 0, rte_irr = 0, rte_trigger = 0, rte_mask = 1, rte_reserved = 0,
     rte_reserved1 = 0, rte_phy_dest = 0, rte_reserved2 = 0\<rparr>"

section \<open>Keyboard and mouse\<close>

definition keyboard_init :: "(string \<Rightarrow> addr) \<Rightarrow> mach irqsys \<Rightarrow> mach irqsys option" where
  "keyboard_init sy s = do {
     let s = upd_mach (\<lambda>m. m\<lparr>dsk := (dsk m)\<lparr>dk := wait_queue_init (keyboard_wait_queue m) NULL (dk (dsk m))\<rparr>\<rparr>) s;
     (p, sl) \<leftarrow> kmalloc 2 sizeof_kbuf (dsm (dsk (machine s)));
     if p = NULL then None
     else do {
       let s = upd_mach (\<lambda>m. m\<lparr>dsk := (dsk m)\<lparr>dsm := sl\<rparr>, p_kb := p, kbd := kb_reset (kbd m)\<rparr>) s;
       let s = port_io [wait_KB_write, Out8 PORT_KB_CMD KBCMD_WRITE_CMD, wait_KB_write,
         Out8 PORT_KB_DATA KB_INIT_MODE] s;
       (r, s) \<leftarrow> register_irq 0x21 (rte_word (edge_entry 0x21)) (sy ''keyboard_handler'') p
         (sy ''keyboard_int_controller'') (sy ''ps/2 keyboard'') s;
       Some s
     }
   }"

definition keyboard_exit :: "mach irqsys \<Rightarrow> mach irqsys option" where
  "keyboard_exit s = do {
     (r, s) \<leftarrow> unregister_irq 0x21 s;
     (r, sl) \<leftarrow> kfree 2 (p_kb (machine s)) (dsm (dsk (machine s)));
     Some (upd_mach (\<lambda>m. m\<lparr>dsk := (dsk m)\<lparr>dsm := sl\<rparr>\<rparr>) s)
   }"

definition mouse_init :: "(string \<Rightarrow> addr) \<Rightarrow> mach irqsys \<Rightarrow> mach irqsys option" where
  "mouse_init sy s = do {
     (p, sl) \<leftarrow> kmalloc 2 sizeof_kbuf (dsm (dsk (machine s)));
     if p = NULL then None
     else do {
       let s = upd_mach (\<lambda>m. m\<lparr>dsk := (dsk m)\<lparr>dsm := sl\<rparr>, p_mouse := p, mouse_buf := kb_reset (mouse_buf m)\<rparr>) s;
       let s = upd_mach (\<lambda>m. m\<lparr>packet := (packet m)\<lparr>mouse_count := 0\<rparr>\<rparr>) s;
       (r, s) \<leftarrow> register_irq 0x2c (rte_word (edge_entry 0x2c)) (sy ''mouse_handler'') p
         (sy ''mouse_int_controller'') (sy ''ps/2 mouse'') s;
       Some (port_io [wait_KB_write, Out8 PORT_KB_CMD KBCMD_EN_MOUSE_INTFACE,
         wait_KB_write, Out8 PORT_KB_CMD KBCMD_SENDTO_MOUSE, wait_KB_write, Out8 PORT_KB_DATA MOUSE_ENABLE,
         wait_KB_write, Out8 PORT_KB_CMD KBCMD_WRITE_CMD, wait_KB_write, Out8 PORT_KB_DATA KB_INIT_MODE] s)
     }
   }"

definition mouse_exit :: "mach irqsys \<Rightarrow> mach irqsys option" where
  "mouse_exit s = do {
     (r, s) \<leftarrow> unregister_irq 0x2c s;
     (r, sl) \<leftarrow> kfree 2 (p_mouse (machine s)) (dsm (dsk (machine s)));
     Some (upd_mach (\<lambda>m. m\<lparr>dsk := (dsk m)\<lparr>dsm := sl\<rparr>\<rparr>) s)
   }"

section \<open>Disk and clock\<close>

definition disk_attach :: "(string \<Rightarrow> addr) \<Rightarrow> mach irqsys \<Rightarrow> mach irqsys option" where
  "disk_attach sy s = do {
     (r, s) \<leftarrow> register_irq 0x2f (rte_word (edge_entry 0x2f)) (sy ''disk_handler'')
       (disk_request (dsk (machine s))) (sy ''disk_int_controller'') (sy ''disk1'') s;
     Some (upd_mach (\<lambda>m. m\<lparr>dsk := disk_init (dsk m)\<rparr>) s)
   }"

definition disk_exit :: "mach irqsys \<Rightarrow> mach irqsys option" where
  "disk_exit s = map_option snd (unregister_irq 0x2f s)"

text \<open>The registers of the clock are at \<open>HPET_addr\<close>; the period is the one of the Bochs build.  The
  date that \<open>get_cmos_time\<close> reads is not part of the state.\<close>

definition HPET_addr :: addr where "HPET_addr = Phy_To_Virt 0xfed00000"

definition HPET_init :: "(string \<Rightarrow> addr) \<Rightarrow> mach irqsys \<Rightarrow> mach irqsys option" where
  "HPET_init sy s = do {
     (r, s) \<leftarrow> register_irq 34 (rte_word (edge_entry 34)) (sy ''HPET_handler'') NULL
       (sy ''HPET_int_controller'') (sy ''HPET'') s;
     Some (upd_mach (\<lambda>m. m\<lparr>hpet_log := hpet_log m @
       [(HPET_addr + 0x10, 3), (HPET_addr + 0x100, 0x4c), (HPET_addr + 0x108, 14318179), (HPET_addr + 0xf0, 0)]\<rparr>) s)
   }"

section \<open>The handlers\<close>

text \<open>The code at the address of a handler, run with the vector and the parameter.\<close>

definition kernel_handlers :: "(string \<Rightarrow> addr) \<Rightarrow> mach handlers" where
  "kernel_handlers sy h nr parameter m =
     (if h = sy ''keyboard_handler'' then do {
        (b, k) \<leftarrow> keyboard_handler (keyboard_wait_queue m) (port60 m) (kbd m, dk (dsk m));
        Some (m\<lparr>kbd := b, dsk := (dsk m)\<lparr>dk := k\<rparr>\<rparr>)
      }
      else if h = sy ''mouse_handler'' then Some (m\<lparr>mouse_buf := mouse_handler (port60 m) (mouse_buf m)\<rparr>)
      else if h = sy ''disk_handler'' then do {
        d \<leftarrow> disk_handler (disk_error m) (disk_data m) (dsk m);
        Some (m\<lparr>dsk := d\<rparr>)
      }
      else if h = sy ''HPET_handler'' then
        let (t, k) = HPET_handler (tmrs m, dk (dsk m)) in Some (m\<lparr>tmrs := t, dsk := (dsk m)\<lparr>dk := k\<rparr>\<rparr>)
      else None)"

text \<open>Keystrokes: each puts its scan code at the port and raises the interrupt.\<close>

fun key_irqs :: "(string \<Rightarrow> addr) \<Rightarrow> u8 list \<Rightarrow> mach irqsys \<Rightarrow> mach irqsys option" where
  "key_irqs sy [] s = Some s"
| "key_irqs sy (x # xs) s = do {
     s \<leftarrow> do_IRQ (kernel_handlers sy) 0x21 (upd_mach (\<lambda>m. m\<lparr>port60 := x\<rparr>) s);
     key_irqs sy xs s
   }"

section \<open>The keyboard from its port to its ring\<close>

text \<open>What \<open>keyboard_init\<close> sets up for its interrupt.\<close>

definition keyboard_ready :: "(string \<Rightarrow> addr) \<Rightarrow> mach irqsys \<Rightarrow> bool" where
  "keyboard_ready sy s \<longleftrightarrow>
     irq_handler (interrupt_desc s 1) = sy ''keyboard_handler'' \<and>
     irq_controller (interrupt_desc s 1) = sy ''keyboard_int_controller'' \<and>
     controllers s (sy ''keyboard_int_controller'') = ioapic_controller \<and>
     list_is_empty (lnk (dk (dsk (machine s)))) (keyboard_wait_queue (machine s)) \<and>
     ring_ok (kbd (machine s))"

lemma list_init_empty: "list_is_empty (list_init l q) q"
  by (simp add: list_is_empty_def list_init_def)

lemma irq_0x21: "irq_slot 0x21 = Some 1" "rte_index 0x21 = 0x12"
  by (simp_all add: irq_slot_def NR_IRQS_def rte_index_def)

lemma reset_ok: "ring_ok (kb_reset b)" "ring_items (kb_reset b) = []"
  by (simp_all add: kb_reset_def ring_ok_def ring_items_def)

lemma rte_vec_edge: "rte_vec (rte_word (edge_entry v)) = ucast v"
  by (rule bit_word_eqI) (auto simp: rte_word_def edge_entry_def bit_simps dest: bit_lt_8)

lemma keyboard_init_ready:
  assumes "kmalloc 2 sizeof_kbuf (dsm (dsk (machine s))) = Some (p, sl)" "p \<noteq> NULL"
    and "sy ''keyboard_int_controller'' \<noteq> NULL" "controllers s (sy ''keyboard_int_controller'') = ioapic_controller"
    and "rte_writable s 0x12"
  shows "\<exists>s'. keyboard_init sy s = Some s' \<and> keyboard_ready sy s' \<and> ring_items (kbd (machine s')) = [] \<and>
     p_kb (machine s') = p \<and> eoi_log s' = eoi_log s \<and>
     \<not> rte_masked (rte s' 0x12) \<and> rte_vec (rte s' 0x12) = 0x21"
proof -
  let ?c = "sy ''keyboard_int_controller''" and ?h = "sy ''keyboard_handler''"
  define s1 where "s1 = port_io [wait_KB_write, Out8 PORT_KB_CMD KBCMD_WRITE_CMD, wait_KB_write,
      Out8 PORT_KB_DATA KB_INIT_MODE] (upd_mach (\<lambda>m. m\<lparr>dsk := (dsk m)\<lparr>dsm := sl\<rparr>, p_kb := p, kbd := kb_reset (kbd m)\<rparr>)
      (upd_mach (\<lambda>m. m\<lparr>dsk := (dsk m)\<lparr>dk := wait_queue_init (keyboard_wait_queue m) NULL (dk (dsk m))\<rparr>\<rparr>) s))"
  let ?d = "\<lparr>irq_controller = ?c, irq_name = sy ''ps/2 keyboard'', irq_parameter = p, irq_handler = ?h, irq_flags = 0\<rparr>"
  define s2 where "s2 = IOAPIC_enable 0x21 (IOAPIC_install 0x21 (rte_word (edge_entry 0x21))
      (s1\<lparr>interrupt_desc := (interrupt_desc s1)(1 := ?d)\<rparr>))"
  have s1: "controllers s1 = controllers s" "eoi_log s1 = eoi_log s" "kbd (machine s1) = kb_reset (kbd (machine s))"
    "p_kb (machine s1) = p" "ioapic_ro s1 = ioapic_ro s"
    "list_is_empty (lnk (dk (dsk (machine s1)))) (keyboard_wait_queue (machine s1))"
    by (simp_all add: s1_def port_io_def upd_mach_def log_def wait_queue_init_def list_init_empty)
  have "register_irq 0x21 (rte_word (edge_entry 0x21)) ?h p ?c (sy ''ps/2 keyboard'') s1 = Some (1, s2)"
    using assms(3,4) by (simp add: register_irq_def irq_0x21 call_hw_def s1 ioapic_controller_def s2_def IOAPIC_install_def)
  then have "keyboard_init sy s = Some s2"
    using assms(1,2) by (simp add: keyboard_init_def s1_def upd_mach_def Let_def)
  moreover have w: "rte_writable (s1\<lparr>interrupt_desc := (interrupt_desc s1)(1 := ?d)\<rparr>) (rte_index 0x21)"
    using assms(5) by (simp add: rte_writable_def rte_ro_def s1 irq_0x21)
  then have "rte_writable (IOAPIC_install 0x21 (rte_word (edge_entry 0x21))
      (s1\<lparr>interrupt_desc := (interrupt_desc s1)(1 := ?d)\<rparr>)) (rte_index 0x21)"
    by (simp add: IOAPIC_install_def)
  note IOAPIC_enable_control [OF this] rte_write_control(2) [OF w, of "rte_word (edge_entry 0x21)"]
  then have "\<not> rte_masked (rte s2 0x12)" "rte_vec (rte s2 0x12) = 0x21"
    by (simp_all add: s2_def irq_0x21 IOAPIC_install_def rte_vec_edge)
  moreover have "keyboard_ready sy s2" "ring_items (kbd (machine s2)) = []" "p_kb (machine s2) = p" "eoi_log s2 = eoi_log s"
    using assms(4) by (simp_all add: keyboard_ready_def s2_def IOAPIC_install_def s1 reset_ok)
  ultimately show ?thesis by blast
qed

lemma keyboard_irq:
  assumes "keyboard_ready sy s" "sy ''keyboard_handler'' \<noteq> NULL" "sy ''keyboard_int_controller'' \<noteq> NULL"
    and "length (ring_items (kbd (machine s))) < KB_BUF_SIZE"
  shows "\<exists>s'. do_IRQ (kernel_handlers sy) 0x21 (upd_mach (\<lambda>m. m\<lparr>port60 := x\<rparr>) s) = Some s' \<and>
     keyboard_ready sy s' \<and> ring_items (kbd (machine s')) = ring_items (kbd (machine s)) @ [x]"
proof -
  let ?m = "(machine s)\<lparr>port60 := x, kbd := kb_put x (kbd (machine s))\<rparr>"
  have "keyboard_handler (keyboard_wait_queue (machine s)) x (kbd (machine s), dk (dsk (machine s))) =
      Some (kb_put x (kbd (machine s)), dk (dsk (machine s)))"
    using assms(1) by (simp add: keyboard_handler_def wakeup_def keyboard_ready_def)
  then have run: "kernel_handlers sy (sy ''keyboard_handler'') nr q ((machine s)\<lparr>port60 := x\<rparr>) = Some ?m" for nr q
    by (simp add: kernel_handlers_def)
  have "\<exists>l. do_IRQ (kernel_handlers sy) 0x21 (upd_mach (\<lambda>m. m\<lparr>port60 := x\<rparr>) s) =
      Some (s\<lparr>machine := ?m, eoi_log := l\<rparr>)"
    using assms(1-3) run
    by (simp add: do_IRQ_def irq_0x21 run_handler_def upd_mach_def keyboard_ready_def call_hw_def
        ioapic_controller_def IOAPIC_edge_ack_def event_def) blast
  moreover have "keyboard_ready sy (s\<lparr>machine := ?m, eoi_log := l\<rparr>)" for l
    using assms(1) put_ok [OF _ assms(4), of x] by (simp add: keyboard_ready_def)
  moreover have "ring_items (kbd (machine (s\<lparr>machine := ?m, eoi_log := l\<rparr>))) = ring_items (kbd (machine s)) @ [x]" for l
    using assms(1) put_ok [OF _ assms(4), of x] by (simp add: keyboard_ready_def)
  ultimately show ?thesis by blast
qed

lemma key_irqs_ring:
  assumes "keyboard_ready sy s" "sy ''keyboard_handler'' \<noteq> NULL" "sy ''keyboard_int_controller'' \<noteq> NULL"
    and "length (ring_items (kbd (machine s))) + length xs \<le> KB_BUF_SIZE"
  shows "\<exists>s'. key_irqs sy xs s = Some s' \<and> ring_items (kbd (machine s')) = ring_items (kbd (machine s)) @ xs"
  using assms
proof (induction xs arbitrary: s)
  case (Cons x xs)
  from Cons.prems have "length (ring_items (kbd (machine s))) < KB_BUF_SIZE" by simp
  from keyboard_irq [OF Cons.prems(1-3) this, of x] obtain s1 where
    s1: "do_IRQ (kernel_handlers sy) 0x21 (upd_mach (\<lambda>m. m\<lparr>port60 := x\<rparr>) s) = Some s1"
      "keyboard_ready sy s1" "ring_items (kbd (machine s1)) = ring_items (kbd (machine s)) @ [x]"
    by blast
  have "length (ring_items (kbd (machine s1))) + length xs \<le> KB_BUF_SIZE"
    using Cons.prems(4) unfolding s1(3) by simp
  from Cons.IH [OF s1(2) Cons.prems(2,3) this] s1(1,3) show ?case by auto
qed simp

text \<open>C34.  From the port to the ring: once \<open>keyboard_init\<close> has run, the keyboard's entry of the
  I/O APIC is open with vector 0x21, and when up to a hundred keys raise that interrupt with nobody
  waiting, the dispatcher returns from each, and the ring that \<open>keyboard_read\<close> takes bytes from holds
  exactly their scan codes in order.\<close>

theorem keyboard_irqs_stored:
  assumes "kmalloc 2 sizeof_kbuf (dsm (dsk (machine s))) = Some (p, sl)" "p \<noteq> NULL"
    and "sy ''keyboard_handler'' \<noteq> NULL" "sy ''keyboard_int_controller'' \<noteq> NULL"
    and "controllers s (sy ''keyboard_int_controller'') = ioapic_controller" "rte_writable s 0x12"
    and "length xs \<le> KB_BUF_SIZE"
  shows "\<exists>s1 s2. keyboard_init sy s = Some s1 \<and> \<not> rte_masked (rte s1 0x12) \<and> rte_vec (rte s1 0x12) = 0x21 \<and>
     key_irqs sy xs s1 = Some s2 \<and> ring_items (kbd (machine s2)) = xs"
proof -
  from keyboard_init_ready [where sy = sy and s = s, OF assms(1,2,4-6)] obtain s1 where
    s1: "keyboard_init sy s = Some s1" "keyboard_ready sy s1" "ring_items (kbd (machine s1)) = []"
      "\<not> rte_masked (rte s1 0x12)" "rte_vec (rte s1 0x12) = 0x21"
    by blast
  have "length (ring_items (kbd (machine s1))) + length xs \<le> KB_BUF_SIZE"
    using assms(7) unfolding s1(3) by simp
  from key_irqs_ring [OF s1(2) assms(3,4) this] s1 show ?thesis by (simp only: s1(3)) simp
qed

definition demo_mach :: mach where
  "demo_mach = \<lparr>kbd = demo_kbuf, p_kb = NULL, keyboard_wait_queue = 0xd000, mouse_buf = demo_kbuf, p_mouse = NULL,
     packet = \<lparr>mouse_count = 0, Byte0 = 0, Byte1 = 0, Byte2 = 0\<rparr>, dsk = demo_disk,
     tmrs = \<lparr>tl_lnk = \<lparr>nxt = id, prv = id\<rparr>, tm = (\<lambda>_. \<lparr>expect_jiffies = 0, tl_func = NULL, tl_data = NULL\<rparr>),
       timer_list_head = 0, jiffies = 0, softirq_status = 0, softirq_vector = (\<lambda>_. \<lparr>action = NULL, sq_data = NULL\<rparr>), calls = []\<rparr>,
     hpet_log = [], port60 = 0, disk_error = False, disk_data = (\<lambda>_. 0)\<rparr>"

definition demo_kernel :: "mach irqsys" where
  "demo_kernel = \<lparr>interrupt_desc = (\<lambda>_. no_desc), SMP_IPI_desc = (\<lambda>_. no_desc),
     controllers = (\<lambda>_. ioapic_controller), ioapic_index = 0, ioapic_regs = (\<lambda>_. 0),
     ioapic_ro = (\<lambda>i. if i AND 1 = 0 then 0x5000 else 0), eoi_log = [], machine = demo_mach\<rparr>"

lemma demo_ring_block: "\<exists>m. kmalloc 2 sizeof_kbuf demo_smem = Some (0x1400080, m)"
proof -
  have i: "cache_index sizeof_kbuf demo_smem = 2" by code_simp
  have w: "free_slab_walk demo_smem 10 10 = Some 10" by (subst free_slab_walk.simps) (simp add: demo_smem_def)
  have "kmalloc (Suc 1) sizeof_kbuf demo_smem = Some (kmalloc_take 2 10 demo_smem)"
    using kmalloc_hit [of sizeof_kbuf demo_smem 10 1] w unfolding i by (simp add: sizeof_kbuf_def demo_smem_def)
  moreover have "fst (kmalloc_take 2 10 demo_smem) = 0x1400080" by code_simp
  ultimately show ?thesis by (cases "kmalloc_take 2 10 demo_smem") (simp add: numeral_2_eq_2)
qed

theorem keyboard_irqs_stored_witness:
  "\<exists>s1 s2. keyboard_init (\<lambda>_. 0xc000) demo_kernel = Some s1 \<and>
     key_irqs (\<lambda>_. 0xc000) [0x1e, 0x9e] s1 = Some s2 \<and> ring_items (kbd (machine s2)) = [0x1e, 0x9e]"
proof -
  have d: "dsm (dsk (machine demo_kernel)) = demo_smem"
    by (simp add: demo_kernel_def demo_mach_def demo_disk_def)
  from demo_ring_block obtain m where m: "kmalloc 2 sizeof_kbuf (dsm (dsk (machine demo_kernel))) = Some (0x1400080, m)"
    unfolding d by blast
  have "rte_writable demo_kernel 0x12" "controllers demo_kernel 0xc000 = ioapic_controller"
    by (simp_all add: rte_writable_def rte_ro_def demo_kernel_def)
  with keyboard_irqs_stored [where sy = "\<lambda>_. 0xc000", OF m, of "[0x1e, 0x9e]"] show ?thesis
    by (simp add: KB_BUF_SIZE_def) blast
qed

end
