(* ===== verification/Kallsyms.thy ===== *)
theory Kallsyms
  imports Prelude
begin

unbundle bit_operations_syntax

text \<open>
  Symbols and stack traces: \<open>src/kallsyms.c\<close>, a program of the build that turns the symbol list of
  the linked kernel into four tables, and \<open>src/backtrace.c\<close>, which looks addresses up in them.  The
  list is what \<open>nm -n\<close> prints, in the order of the addresses.  Kernel memory is read as 64-bit
  words.
\<close>

section \<open>Generating the tables\<close>

record symbol_entry =
  sym_address :: u64
  sym_name :: "u8 list"

text \<open>\<open>strlen(string)+1\<close>.\<close>

definition symbol_length :: "symbol_entry \<Rightarrow> nat" where
  "symbol_length e = length (sym_name e) + 1"

text \<open>The second loop of \<open>read_map\<close> for one of its two names: the last symbol of that name counts,
  and 0 when there is none.\<close>

definition find_bound :: "u8 list \<Rightarrow> symbol_entry list \<Rightarrow> u64" where
  "find_bound name table = fold (\<lambda>e b. if sym_name e = name then sym_address e else b) table 0"

definition symbol_valid :: "u64 \<Rightarrow> u64 \<Rightarrow> symbol_entry \<Rightarrow> bool" where
  "symbol_valid lo hi e \<longleftrightarrow> \<not> (sym_address e < lo \<or> sym_address e > hi)"

text \<open>The selection all three loops of \<open>write_src\<close> make.\<close>

fun kept :: "u64 \<Rightarrow> u64 \<Rightarrow> u64 \<Rightarrow> symbol_entry list \<Rightarrow> symbol_entry list" where
  "kept lo hi last_addr [] = []"
| "kept lo hi last_addr (e # es) =
     (if \<not> symbol_valid lo hi e then kept lo hi last_addr es
      else if sym_address e = last_addr then kept lo hi last_addr es
      else e # kept lo hi (sym_address e) es)"

text \<open>The values of \<open>position\<close> the loop prints.\<close>

fun positions :: "nat \<Rightarrow> symbol_entry list \<Rightarrow> nat list" where
  "positions pos [] = []"
| "positions pos (e # es) = pos # positions (pos + symbol_length e) es"

text \<open>The tables the kernel is linked with.\<close>

record kallsyms =
  kallsyms_addresses :: "nat \<Rightarrow> addr"
  kallsyms_syms_num :: nat
  kallsyms_index :: "nat \<Rightarrow> nat"
  kallsyms_names :: "u8 list"

text \<open>The word behind the last address is \<open>kallsyms_syms_num\<close>, which is assembled right after it.\<close>

definition write_src :: "u64 \<Rightarrow> u64 \<Rightarrow> symbol_entry list \<Rightarrow> kallsyms" where
  "write_src lo hi table =
     (let t = kept lo hi 0 table
      in \<lparr>kallsyms_addresses = (\<lambda>i. if i < length t then sym_address (t ! i) else word_of_nat (length t)),
          kallsyms_syms_num = length t,
          kallsyms_index = (\<lambda>i. positions 0 t ! i),
          kallsyms_names = concat (map (\<lambda>e. sym_name e @ [0]) t)\<rparr>)"

definition name_text :: "u8 list" where
  "name_text = [0x5f, 0x74, 0x65, 0x78, 0x74]"

definition name_etext :: "u8 list" where
  "name_etext = [0x5f, 0x65, 0x74, 0x65, 0x78, 0x74]"

definition kallsyms_main :: "symbol_entry list \<Rightarrow> kallsyms" where
  "kallsyms_main table = write_src (find_bound name_text table) (find_bound name_etext table) table"

section \<open>Looking up an address\<close>

text \<open>The loop looks for the first index; \<^const>\<open>None\<close> is the return of 1.\<close>

definition lookup_kallsyms :: "kallsyms \<Rightarrow> addr \<Rightarrow> nat option" where
  "lookup_kallsyms ksy a =
     find (\<lambda>i. a > kallsyms_addresses ksy i \<and> a \<le> kallsyms_addresses ksy (i + 1)) [0..<kallsyms_syms_num ksy]"

text \<open>\<open>&string[kallsyms_index[index]]\<close> up to its end.\<close>

definition symbol_text :: "kallsyms \<Rightarrow> nat \<Rightarrow> u8 list" where
  "symbol_text ksy i = takeWhile (\<lambda>c. c \<noteq> 0) (drop (kallsyms_index ksy i) (kallsyms_names ksy))"

section \<open>Stack traces\<close>

text \<open>A printed frame: the address and the index of the symbol found for it.\<close>

type_synonym frame = "addr \<times> nat"

text \<open>The loop over at most \<open>n\<close> return addresses.\<close>

fun backtrace_loop :: "nat \<Rightarrow> kallsyms \<Rightarrow> (addr \<Rightarrow> u64) \<Rightarrow> addr \<Rightarrow> addr \<Rightarrow> frame list" where
  "backtrace_loop 0 ksy m rbp ret_address = []"
| "backtrace_loop (Suc n) ksy m rbp ret_address =
     (case lookup_kallsyms ksy ret_address of
        None \<Rightarrow> []
      | Some i \<Rightarrow> (ret_address, i) # backtrace_loop n ksy m (m rbp) (m (m rbp + 8)))"

definition backtrace :: "kallsyms \<Rightarrow> (addr \<Rightarrow> u64) \<Rightarrow> addr \<Rightarrow> addr \<Rightarrow> frame list" where
  "backtrace ksy m rip rbp =
     (case lookup_kallsyms ksy rip of None \<Rightarrow> [] | Some i \<Rightarrow> [(rip, i)]) @
     backtrace_loop 10 ksy m rbp (m (rbp + 8))"

section \<open>The tables\<close>

lemma kept_above:
  assumes "sorted (map sym_address table)" "\<And>e. e \<in> set table \<Longrightarrow> l \<le> sym_address e"
  shows "sorted_wrt (<) (map sym_address (kept lo hi l table)) \<and>
     (\<forall>e \<in> set (kept lo hi l table). l < sym_address e)"
  using assms
proof (induction table arbitrary: l)
  case (Cons e es)
  have l: "sorted (map sym_address es)" "\<And>x. x \<in> set es \<Longrightarrow> l \<le> sym_address x"
    and e: "\<And>x. x \<in> set es \<Longrightarrow> sym_address e \<le> sym_address x" "l \<le> sym_address e"
    using Cons.prems by auto
  note IH = Cons.IH [OF l(1)]
  show ?case
  proof (cases "symbol_valid lo hi e \<and> sym_address e \<noteq> l")
    case True
    with e(2) have "l < sym_address e" by (auto simp: order_less_le)
    with IH [of "sym_address e"] e(1) True show ?thesis by (auto dest: less_trans)
  next
    case False
    with IH [of l] l(2) show ?thesis by auto
  qed
qed simp

lemma kept_sorted:
  assumes "sorted (map sym_address table)"
  shows "sorted_wrt (<) (map sym_address (kept lo hi 0 table))"
  using kept_above [OF assms, of 0 lo hi] by simp

lemma kept_subset: "set (kept lo hi l table) \<subseteq> {e \<in> set table. symbol_valid lo hi e}"
proof (induction table arbitrary: l)
  case (Cons e es)
  from Cons.IH [of l] Cons.IH [of "sym_address e"] show ?case by auto
qed simp

lemma sorted_wrt_less_nth:
  assumes "sorted_wrt (<) (map f xs)" "i < length xs" "j < length xs"
  shows "f (xs ! i) < f (xs ! j) \<longleftrightarrow> i < (j :: nat)" "f (xs ! i) \<le> (f (xs ! j) :: u64) \<longleftrightarrow> i \<le> j"
proof -
  have lt: "f (xs ! k) < f (xs ! m)" if "k < m" "m < length xs" for k m
    using sorted_wrt_nth_less [OF assms(1), of k m] that by simp
  show "f (xs ! i) < f (xs ! j) \<longleftrightarrow> i < j" "f (xs ! i) \<le> f (xs ! j) \<longleftrightarrow> i \<le> j"
    using lt [of i j] lt [of j i] assms by (cases i j rule: linorder_cases; auto)+
qed

text \<open>The string table.\<close>

lemma positions_nth:
  "i < length t \<Longrightarrow>
   length (positions p t) = length t \<and>
   drop (positions p t ! i - p) (concat (map (\<lambda>e. sym_name e @ [0]) t)) =
     sym_name (t ! i) @ 0 # concat (map (\<lambda>e. sym_name e @ [0]) (drop (Suc i) t)) \<and>
   p \<le> positions p t ! i"
proof (induction t arbitrary: p i)
  case (Cons e es)
  show ?case
  proof (cases i)
    case 0
    have "length (positions q es) = length es" for q by (induction es arbitrary: q) simp_all
    with 0 show ?thesis by simp
  next
    case (Suc j)
    with Cons.prems have j: "j < length es" by simp
    note IH = Cons.IH [OF j, of "p + symbol_length e"]
    define q where "q = positions (p + symbol_length e) es ! j"
    have q': "p + symbol_length e \<le> q" using IH by (simp add: q_def)
    moreover have "positions p (e # es) ! i = q" by (simp add: q_def Suc)
    ultimately have q: "positions p (e # es) ! i - p = length (sym_name e @ [0]) + (q - (p + symbol_length e))"
      and p: "p \<le> positions p (e # es) ! i"
      by (simp_all add: symbol_length_def)
    have "drop (positions p (e # es) ! i - p) (concat (map (\<lambda>e. sym_name e @ [0]) (e # es))) =
        drop (q - (p + symbol_length e)) (concat (map (\<lambda>e. sym_name e @ [0]) es))"
      unfolding q by (simp only: list.map concat.simps drop_append drop_drop) simp
    with IH Suc p show ?thesis by (simp add: q_def)
  qed
qed simp

lemma symbol_text_name:
  assumes "i < length (kept lo hi 0 table)" "\<forall>e \<in> set table. 0 \<notin> set (sym_name e)"
  shows "symbol_text (write_src lo hi table) i = sym_name (kept lo hi 0 table ! i)"
proof -
  let ?t = "kept lo hi 0 table"
  have "?t ! i \<in> set ?t" using assms(1) by (rule nth_mem)
  then have "0 \<notin> set (sym_name (?t ! i))" using assms(2) kept_subset by blast
  then have "takeWhile (\<lambda>c. c \<noteq> 0) (sym_name (?t ! i) @ 0 # r) = sym_name (?t ! i)" for r
    by (subst takeWhile_append2) auto
  with positions_nth [OF assms(1), of 0] show ?thesis
    by (simp add: symbol_text_def write_src_def Let_def)
qed

section \<open>Looking up an address\<close>

text \<open>The index the loop stops at: the last symbol below the address, unless that is the last of all.\<close>

lemma lookup_index:
  fixes table :: "symbol_entry list"
  assumes s: "sorted (map sym_address table)" and t: "t = kept lo hi 0 table"
    and n: "\<forall>e \<in> set t. word_of_nat (length t) < sym_address e"
  shows "lookup_kallsyms (write_src lo hi table) a = Some i \<longleftrightarrow>
     Suc i < length t \<and> sym_address (t ! i) < a \<and> a \<le> sym_address (t ! Suc i)"
proof -
  let ?w = "write_src lo hi table"
  let ?P = "\<lambda>i. a > kallsyms_addresses ?w i \<and> a \<le> kallsyms_addresses ?w (i + 1)"
  note lt = sorted_wrt_less_nth [OF kept_sorted [OF s, of lo hi], folded t]
  have P: "?P k \<longleftrightarrow> Suc k < length t \<and> sym_address (t ! k) < a \<and> a \<le> sym_address (t ! Suc k)" if "k < length t" for k
  proof (cases "Suc k < length t")
    case True
    with that show ?thesis by (simp add: write_src_def Let_def flip: t)
  next
    case False
    have "word_of_nat (length t) < sym_address (t ! k)" using n that by simp
    then have "\<not> (sym_address (t ! k) < a \<and> a \<le> word_of_nat (length t))" by auto
    with that False show ?thesis by (simp add: write_src_def Let_def flip: t)
  qed
  have num: "kallsyms_syms_num ?w = length t" by (simp add: write_src_def Let_def flip: t)
  have unique: "k = j" if "k < length t" "j < length t" "?P k" "?P j" for k j
  proof -
    have "sym_address (t ! k) < sym_address (t ! Suc j)" "sym_address (t ! j) < sym_address (t ! Suc k)"
      "Suc j < length t" "Suc k < length t"
      using that P by (meson less_le_trans)+
    with that(1,2) lt(1) [where i = k and j = "Suc j"] lt(1) [where i = j and j = "Suc k"] show ?thesis by simp
  qed
  have "lookup_kallsyms ?w a = Some i \<longleftrightarrow> i < length t \<and> ?P i"
  proof
    assume "lookup_kallsyms ?w a = Some i"
    then show "i < length t \<and> ?P i"
      unfolding lookup_kallsyms_def num by (auto simp: find_Some_iff)
  next
    assume i: "i < length t \<and> ?P i"
    then have "lookup_kallsyms ?w a \<noteq> None"
      unfolding lookup_kallsyms_def num by (auto simp: find_None_iff)
    then obtain k where k: "lookup_kallsyms ?w a = Some k" by blast
    then have "k < length t" "?P k"
      unfolding lookup_kallsyms_def num by (auto simp: find_Some_iff)
    with unique [of k i] i k show "lookup_kallsyms ?w a = Some i" by blast
  qed
  with P [of i] show ?thesis by (meson Suc_lessD)
qed

text \<open>C32.  The table generator and the lookup agree: for the sorted symbol list of the linked kernel,
  an address above the first and not above the last symbol of the text is found, and the index
  names the last symbol that starts below the address: its address is the greatest below, and the
  string the index table leads to in the generated string table is its name.  Every other address
  is reported as not found.\<close>

theorem kallsyms_lookup:
  assumes "sorted (map sym_address table)" "\<forall>e \<in> set table. 0 \<notin> set (sym_name e)"
    and "t = kept lo hi 0 table" "t \<noteq> []"
    and "\<forall>e \<in> set t. word_of_nat (length t) < sym_address e"
  shows "(case lookup_kallsyms (write_src lo hi table) a of
       None \<Rightarrow> a \<le> sym_address (hd t) \<or> sym_address (last t) < a
     | Some i \<Rightarrow> i < length t \<and> sym_address (hd t) < a \<and> a \<le> sym_address (last t) \<and> sym_address (t ! i) < a \<and>
         (\<forall>e \<in> set t. sym_address e < a \<longrightarrow> sym_address e \<le> sym_address (t ! i)) \<and>
         symbol_text (write_src lo hi table) i = sym_name (t ! i))"
proof -
  note ix = lookup_index [OF assms(1,3,5), of a]
  note le = sorted_wrt_less_nth(2) [OF kept_sorted [OF assms(1), of lo hi], folded assms(3)]
  have ends: "hd t = t ! 0" "last t = t ! (length t - 1)" using assms(4) by (simp_all add: hd_conv_nth last_conv_nth)
  show ?thesis
  proof (cases "lookup_kallsyms (write_src lo hi table) a")
    case None
    have "a \<le> sym_address (t ! 0) \<or> sym_address (t ! (length t - 1)) < a"
    proof (rule ccontr)
      assume "\<not> ?thesis"
      then have "\<exists>j < length t - 1. (\<forall>i \<le> j. \<not> a \<le> sym_address (t ! i)) \<and> a \<le> sym_address (t ! Suc j)"
        using ex_least_nat_less [of "\<lambda>j. a \<le> sym_address (t ! j)" "length t - 1"] by auto
      then obtain j where j: "j < length t - 1" "\<forall>i \<le> j. \<not> a \<le> sym_address (t ! i)" "a \<le> sym_address (t ! Suc j)"
        by blast
      from j(2) have "sym_address (t ! j) < a" by (auto simp: not_le)
      with j ix [of j] None show False by simp
    qed
    with None show ?thesis by (simp add: ends)
  next
    case (Some i)
    then have i: "Suc i < length t" "sym_address (t ! i) < a" "a \<le> sym_address (t ! Suc i)"
      using ix [of i] by blast+
    have "sym_address (t ! 0) \<le> sym_address (t ! i)" "sym_address (t ! Suc i) \<le> sym_address (t ! (length t - 1))"
      using le [of 0 i] le [of "Suc i" "length t - 1"] i(1) assms(4) by auto
    moreover have "sym_address e \<le> sym_address (t ! i)" if e: "e \<in> set t" "sym_address e < a" for e
    proof -
      from e(1) obtain k where k: "k < length t" "e = t ! k" by (auto simp: in_set_conv_nth)
      with e(2) i(3) have "\<not> sym_address (t ! Suc i) \<le> sym_address (t ! k)" by auto
      with le [OF i(1) k(1)] le [OF k(1), of i] i(1) k(2) show ?thesis by simp
    qed
    moreover have "symbol_text (write_src lo hi table) i = sym_name (t ! i)"
      using symbol_text_name [of i lo hi table] i(1) assms(2,3) by simp
    ultimately show ?thesis using Some i by (auto simp: ends)
  qed
qed

text \<open>A trace ends: it shows at most eleven frames, all of them in the text of the kernel.\<close>

lemma backtrace_loop_frames:
  "length (backtrace_loop n ksy m rbp ret) \<le> n \<and>
   (\<forall>(a, i) \<in> set (backtrace_loop n ksy m rbp ret). lookup_kallsyms ksy a = Some i)"
  by (induction n ksy m rbp ret rule: backtrace_loop.induct) (auto split: option.splits)

lemma backtrace_frames:
  "length (backtrace ksy m rip rbp) \<le> 11 \<and>
   (\<forall>(a, i) \<in> set (backtrace ksy m rip rbp). lookup_kallsyms ksy a = Some i)"
  using backtrace_loop_frames [of 10 ksy m rbp "m (rbp + 8)"]
  by (auto simp: backtrace_def split: option.splits)

text \<open>Three functions of a kernel, one with two names.\<close>

definition demo_symbols :: "symbol_entry list" where
  "demo_symbols =
     [\<lparr>sym_address = 0x1000, sym_name = name_text\<rparr>, \<lparr>sym_address = 0x1000, sym_name = [0x61]\<rparr>,
      \<lparr>sym_address = 0x1010, sym_name = [0x62, 0x63]\<rparr>, \<lparr>sym_address = 0x1020, sym_name = name_etext\<rparr>,
      \<lparr>sym_address = 0x2000, sym_name = [0x64]\<rparr>]"

theorem kallsyms_lookup_witness:
  "lookup_kallsyms (kallsyms_main demo_symbols) 0x1014 = Some 1 \<and>
   symbol_text (kallsyms_main demo_symbols) 1 = [0x62, 0x63]"
proof -
  have m: "kallsyms_main demo_symbols = write_src 0x1000 0x1020 demo_symbols"
  proof -
    have "find_bound name_text demo_symbols = 0x1000" "find_bound name_etext demo_symbols = 0x1020" by code_simp+
    then show ?thesis by (simp add: kallsyms_main_def)
  qed
  have l: "lookup_kallsyms (write_src 0x1000 0x1020 demo_symbols) 0x1014 = Some 1" by code_simp
  have t: "kept 0x1000 0x1020 0 demo_symbols ! 1 = \<lparr>sym_address = 0x1010, sym_name = [0x62, 0x63]\<rparr>" by code_simp
  have "sorted (map sym_address demo_symbols)" "\<forall>e \<in> set demo_symbols. 0 \<notin> set (sym_name e)"
    "kept 0x1000 0x1020 0 demo_symbols \<noteq> []"
    "\<forall>e \<in> set (kept 0x1000 0x1020 0 demo_symbols).
       word_of_nat (length (kept 0x1000 0x1020 0 demo_symbols)) < sym_address e"
    by code_simp+
  from kallsyms_lookup [OF this(1,2) refl this(3,4), of "0x1014"] l t show ?thesis by (simp add: m)
qed

end
