(* ===== verification/Trap.thy ===== *)
theory Trap
  imports Gate Kallsyms
begin

unbundle bit_operations_syntax

text \<open>
  The exception handlers of \<open>src/trap.c\<close> and \<open>display_regs\<close> of \<open>src/backtrace.c\<close>.  A handler
  prints a report and halts the processor; what it prints is a list of lines, texts with the values
  that fill them.
\<close>

section \<open>Reports\<close>

text \<open>The registers a report shows; the other registers only appear in \<open>display_regs\<close>.\<close>

record trap_regs =
  t_rip :: addr
  t_rsp :: addr
  t_rbp :: addr
  t_others :: "string \<Rightarrow> u64"

datatype line =
    Header string u64 addr addr nat   \<comment> \<open>name and vector, error code, RSP, RIP and CPU\<close>
  | Text string
  | Value string u64
  | Registers trap_regs
  | Trace "frame list"

record trap_env =
  te_sym :: kallsyms
  te_mem :: "addr \<Rightarrow> u64"
  te_cpu :: nat
  te_cr2 :: addr

definition display_regs :: "trap_env \<Rightarrow> trap_regs \<Rightarrow> line list" where
  "display_regs e r = [Registers r, Trace (backtrace (te_sym e) (te_mem e) (t_rip r) (t_rbp r))]"

text \<open>The shape of all handlers; the processor is halted after the report.\<close>

definition trap_report :: "string \<Rightarrow> line list \<Rightarrow> trap_env \<Rightarrow> trap_regs \<Rightarrow> u64 \<Rightarrow> line list" where
  "trap_report name detail e r error_code =
     Header name error_code (t_rsp r) (t_rip r) (te_cpu e) # detail @ display_regs e r"

text \<open>The handlers of exceptions whose error code is not explained.\<close>

definition do_divide_error :: "trap_env \<Rightarrow> trap_regs \<Rightarrow> u64 \<Rightarrow> line list" where
  "do_divide_error = trap_report ''do_divide_error(0)'' []"

definition do_debug :: "trap_env \<Rightarrow> trap_regs \<Rightarrow> u64 \<Rightarrow> line list" where
  "do_debug = trap_report ''do_debug(1)'' []"

definition do_nmi :: "trap_env \<Rightarrow> trap_regs \<Rightarrow> u64 \<Rightarrow> line list" where
  "do_nmi = trap_report ''do_nmi(2)'' []"

definition do_int3 :: "trap_env \<Rightarrow> trap_regs \<Rightarrow> u64 \<Rightarrow> line list" where
  "do_int3 = trap_report ''do_int3(3)'' []"

definition do_overflow :: "trap_env \<Rightarrow> trap_regs \<Rightarrow> u64 \<Rightarrow> line list" where
  "do_overflow = trap_report ''do_overflow(4)'' []"

definition do_bounds :: "trap_env \<Rightarrow> trap_regs \<Rightarrow> u64 \<Rightarrow> line list" where
  "do_bounds = trap_report ''do_bounds(5)'' []"

definition do_undefined_opcode :: "trap_env \<Rightarrow> trap_regs \<Rightarrow> u64 \<Rightarrow> line list" where
  "do_undefined_opcode = trap_report ''do_undefined_opcode(6)'' []"

definition do_dev_not_available :: "trap_env \<Rightarrow> trap_regs \<Rightarrow> u64 \<Rightarrow> line list" where
  "do_dev_not_available = trap_report ''do_dev_not_available(7)'' []"

definition do_double_fault :: "trap_env \<Rightarrow> trap_regs \<Rightarrow> u64 \<Rightarrow> line list" where
  "do_double_fault = trap_report ''do_double_fault(8)'' []"

definition do_coprocessor_segment_overrun :: "trap_env \<Rightarrow> trap_regs \<Rightarrow> u64 \<Rightarrow> line list" where
  "do_coprocessor_segment_overrun = trap_report ''do_coprocessor_segment_overrun(9)'' []"

definition do_x87_FPU_error :: "trap_env \<Rightarrow> trap_regs \<Rightarrow> u64 \<Rightarrow> line list" where
  "do_x87_FPU_error = trap_report ''do_x87_FPU_error(16)'' []"

definition do_alignment_check :: "trap_env \<Rightarrow> trap_regs \<Rightarrow> u64 \<Rightarrow> line list" where
  "do_alignment_check = trap_report ''do_alignment_check(17)'' []"

definition do_machine_check :: "trap_env \<Rightarrow> trap_regs \<Rightarrow> u64 \<Rightarrow> line list" where
  "do_machine_check = trap_report ''do_machine_check(18)'' []"

definition do_SIMD_exception :: "trap_env \<Rightarrow> trap_regs \<Rightarrow> u64 \<Rightarrow> line list" where
  "do_SIMD_exception = trap_report ''do_SIMD_exception(19)'' []"

definition do_virtualization_exception :: "trap_env \<Rightarrow> trap_regs \<Rightarrow> u64 \<Rightarrow> line list" where
  "do_virtualization_exception = trap_report ''do_virtualization_exception(20)'' []"

section \<open>Explained error codes\<close>

text \<open>The explanation of an error code that refers to a segment or gate, the same in four handlers.\<close>

definition selector_detail :: "u64 \<Rightarrow> line list" where
  "selector_detail error_code =
     (if error_code AND 1 \<noteq> 0 then
        [Text ''The exception occurred during delivery of an event external to the program,such as an interrupt or an earlier exception.'']
      else []) @
     (if error_code AND 2 \<noteq> 0 then [Text ''Refers to a gate descriptor in the IDT;'']
      else [Text ''Refers to a descriptor in the GDT or the current LDT;'']) @
     (if error_code AND 2 = 0 then
        if error_code AND 4 \<noteq> 0 then [Text ''Refers to a segment or gate descriptor in the LDT;'']
        else [Text ''Refers to a descriptor in the current GDT;'']
      else []) @
     [Value ''Segment Selector Index'' (error_code AND 0xfff8)]"

definition do_invalid_TSS :: "trap_env \<Rightarrow> trap_regs \<Rightarrow> u64 \<Rightarrow> line list" where
  "do_invalid_TSS e r error_code = trap_report ''do_invalid_TSS(10)'' (selector_detail error_code) e r error_code"

definition do_segment_not_present :: "trap_env \<Rightarrow> trap_regs \<Rightarrow> u64 \<Rightarrow> line list" where
  "do_segment_not_present e r error_code = trap_report ''do_segment_not_present(11)'' (selector_detail error_code) e r error_code"

definition do_stack_segment_fault :: "trap_env \<Rightarrow> trap_regs \<Rightarrow> u64 \<Rightarrow> line list" where
  "do_stack_segment_fault e r error_code = trap_report ''do_stack_segment_fault(12)'' (selector_detail error_code) e r error_code"

definition do_general_protection :: "trap_env \<Rightarrow> trap_regs \<Rightarrow> u64 \<Rightarrow> line list" where
  "do_general_protection e r error_code = trap_report ''do_general_protection(13)'' (selector_detail error_code) e r error_code"

definition page_fault_detail :: "addr \<Rightarrow> u64 \<Rightarrow> line list" where
  "page_fault_detail cr2 error_code =
     (if error_code AND 1 = 0 then [Text ''Page Not-Present,''] else []) @
     (if error_code AND 2 \<noteq> 0 then [Text ''Write Cause Fault,''] else [Text ''Read Cause Fault,'']) @
     (if error_code AND 4 \<noteq> 0 then [Text ''Fault in user(3)''] else [Text ''Fault in supervisor(0,1,2)'']) @
     (if error_code AND 8 \<noteq> 0 then [Text '',Reserved Bit Cause Fault''] else []) @
     (if error_code AND 0x10 \<noteq> 0 then [Text '',Instruction fetch Cause Fault''] else []) @
     [Value ''CR2'' cr2]"

definition do_page_fault :: "trap_env \<Rightarrow> trap_regs \<Rightarrow> u64 \<Rightarrow> line list" where
  "do_page_fault e r error_code =
     trap_report ''do_page_fault(14)'' (page_fault_detail (te_cr2 e) error_code) e r error_code"

end
