(* ===== verification/Shell.thy ===== *)
theory Shell
  imports KString "HOL-Library.Monad_Syntax"
begin

unbundle bit_operations_syntax

text \<open>
  The shell, a user program: \<open>src/user/shell.c\<close>, the loop of \<open>src/user/init.c\<close> that feeds it and the
  allocator of \<open>src/user/userlibs.c\<close>.  Memory is that of the process, byte by byte; the string
  functions of \<open>userlibs.c\<close> are the same code as the kernel's and are those of theory \<open>KString\<close>.
  Reading the keyboard device takes the next byte of a list of scan codes; \<^const>\<open>None\<close> stands for
  waiting for ever when there is none.  System calls are parameters.
\<close>

section \<open>Decoding the keyboard\<close>

record modifiers =
  shift_l :: int
  shift_r :: int
  ctrl_l :: int
  ctrl_r :: int
  alt_l :: int
  alt_r :: int

definition FLAG_BREAK :: u8 where "FLAG_BREAK = 0x80"
definition PAUSEBREAK :: u32 where "PAUSEBREAK = 1"
definition PRINTSCREEN :: u32 where "PRINTSCREEN = 2"
definition OTHERKEY :: u32 where "OTHERKEY = 4"
definition MAP_COLS :: nat where "MAP_COLS = 2"

definition pausebreak_scode :: "u8 list" where
  "pausebreak_scode = [0xE1, 0x1D, 0x45, 0xE1, 0x9D, 0xC5]"

text \<open>Two columns, without and with a shift key.  The rest of the table is 0.\<close>

definition keycode_table :: "u32 list" where
  "keycode_table =
     [0, 0, 0, 0, 49, 33, 50, 64, 51, 35, 52, 36, 53, 37, 54, 94,
      55, 38, 56, 42, 57, 40, 48, 41, 45, 95, 61, 43, 8, 0, 9, 0,
      113, 81, 119, 87, 101, 69, 114, 82, 116, 84, 121, 89, 117, 85, 105, 73,
      111, 79, 112, 80, 91, 123, 93, 125, 10, 0, 29, 29, 97, 65, 115, 83,
      100, 68, 102, 70, 103, 71, 104, 72, 106, 74, 107, 75, 108, 76, 59, 58,
      39, 34, 96, 126, 42, 42, 92, 124, 122, 90, 120, 88, 99, 67, 118, 86,
      98, 66, 110, 78, 109, 77, 44, 60, 46, 62, 47, 63, 54, 54, 42, 42,
      56, 56, 32, 32, 0, 0, 0, 0, 0, 0, 0, 0, 0, 0, 0, 0,
      0, 0, 0, 0, 0, 0, 0, 0, 0, 0, 0, 0, 0, 0, 55, 0,
      56, 0, 57, 0, 45, 0, 52, 0, 53, 0, 54, 0, 43, 0, 49, 0,
      50, 0, 51, 0, 48, 0, 46, 0, 0, 0, 0, 0, 0, 0, 0, 0]"

definition keycode_map_normal :: "nat \<Rightarrow> u32" where
  "keycode_map_normal i = (if i < length keycode_table then keycode_table ! i else 0)"

definition get_scancode :: "u8 list \<Rightarrow> (u8 \<times> u8 list) option" where
  "get_scancode codes = (case codes of [] \<Rightarrow> None | c # cs \<Rightarrow> Some (c, cs))"

text \<open>The loop over the rest of the pause sequence: whether all of it came.\<close>

fun pause_loop :: "u8 list \<Rightarrow> u8 list \<Rightarrow> (bool \<times> u8 list) option" where
  "pause_loop [] codes = Some (True, codes)"
| "pause_loop (e # es) codes = do {
     (c, codes) \<leftarrow> get_scancode codes;
     if c \<noteq> e then Some (False, codes) else pause_loop es codes
   }"

text \<open>The two bytes after \<open>E0 2A\<close> and \<open>E0 B7\<close>; the second is read only if the first is \<open>E0\<close>.\<close>

definition print_screen :: "u8 \<Rightarrow> u8 list \<Rightarrow> (u32 \<times> u8 list) option" where
  "print_screen e codes = do {
     (a, codes) \<leftarrow> get_scancode codes;
     if a = 0xE0
     then do { (b, codes) \<leftarrow> get_scancode codes; Some (if b = e then PRINTSCREEN else 0, codes) }
     else Some (0, codes)
   }"

text \<open>The codes that begin with \<open>E0\<close>, with the second byte in \<open>x\<close>.\<close>

definition extended_key :: "u8 \<Rightarrow> u8 list \<Rightarrow> modifiers \<Rightarrow> (u32 \<times> u8 list \<times> modifiers) option" where
  "extended_key x codes s =
     (if x = 0x2A then map_option (\<lambda>(k, codes). (k, codes, s)) (print_screen 0x37 codes)
      else if x = 0xB7 then map_option (\<lambda>(k, codes). (k, codes, s)) (print_screen 0xAA codes)
      else if x = 0x1d then Some (OTHERKEY, codes, s\<lparr>ctrl_r := 1\<rparr>)
      else if x = 0x9d then Some (OTHERKEY, codes, s\<lparr>ctrl_r := 0\<rparr>)
      else if x = 0x38 then Some (OTHERKEY, codes, s\<lparr>alt_r := 1\<rparr>)
      else if x = 0xb8 then Some (OTHERKEY, codes, s\<lparr>alt_r := 0\<rparr>)
      else Some (OTHERKEY, codes, s))"

text \<open>The last part: one code, after no prefix or after a sequence that was not recognised.\<close>

definition plain_key :: "u8 \<Rightarrow> modifiers \<Rightarrow> u32 \<times> modifiers" where
  "plain_key x s =
     (let make = (if x AND FLAG_BREAK \<noteq> 0 then 0 else 1);
          column = (if shift_l s \<noteq> 0 \<or> shift_r s \<noteq> 0 then 1 else 0);
          key = keycode_map_normal (unat (x AND 0x7F) * MAP_COLS + column);
          y = x AND 0x7F
      in if y = 0x2a then (0, s\<lparr>shift_l := make\<rparr>)
         else if y = 0x36 then (0, s\<lparr>shift_r := make\<rparr>)
         else if y = 0x1d then (0, s\<lparr>ctrl_l := make\<rparr>)
         else if y = 0x38 then (0, s\<lparr>alt_l := make\<rparr>)
         else (if make = 0 then 0 else key, s))"

text \<open>The first byte and what follows a prefix: the key so far, the byte in \<open>x\<close> and the modifiers.\<close>

definition key_prefix :: "u8 list \<Rightarrow> modifiers \<Rightarrow> (u32 \<times> u8 \<times> u8 list \<times> modifiers) option" where
  "key_prefix codes s = do {
     (x, codes) \<leftarrow> get_scancode codes;
     if x = 0xE1 then do {
       (ok, codes) \<leftarrow> pause_loop (tl pausebreak_scode) codes;
       Some (if ok then PAUSEBREAK else 0, x, codes, s)
     }
     else if x = 0xE0 then do {
       (x, codes) \<leftarrow> get_scancode codes;
       (key, codes, s) \<leftarrow> extended_key x codes s;
       Some (key, x, codes, s)
     }
     else Some (0, x, codes, s)
   }"

text \<open>Only the last part returns a key; a recognised sequence returns 0.\<close>

definition analysis_keycode :: "u8 list \<Rightarrow> modifiers \<Rightarrow> (u32 \<times> u8 list \<times> modifiers) option" where
  "analysis_keycode codes s = do {
     (key, x, codes, s) \<leftarrow> key_prefix codes s;
     if key = 0 then let (key, s) = plain_key x s in Some (key, codes, s)
     else Some (0, codes, s)
   }"

section \<open>Splitting a command line\<close>

text \<open>\<open>buf\<close> is the address of the line; the blanks before and behind a word.\<close>

partial_function (option) skip_blanks :: "addr \<Rightarrow> mem \<Rightarrow> nat \<Rightarrow> nat option" where
  "skip_blanks buf m j = (if m (buf + word_of_nat j) = 0x20 then skip_blanks buf m (j + 1) else Some j)"

partial_function (option) word_end :: "addr \<Rightarrow> mem \<Rightarrow> nat \<Rightarrow> nat option" where
  "word_end buf m j =
     (if m (buf + word_of_nat j) \<noteq> 0 \<and> m (buf + word_of_nat j) \<noteq> 0x20 then word_end buf m (j + 1) else Some j)"

function count_words :: "addr \<Rightarrow> mem \<Rightarrow> nat \<Rightarrow> nat \<Rightarrow> nat" where
  "count_words buf m i argc =
     (if i < 256 then
        let c = m (buf + word_of_nat i); d = m (buf + word_of_nat (i + 1))
        in if c = 0 then argc
           else count_words buf m (i + 1) (if c \<noteq> 0x20 \<and> (d = 0x20 \<or> d = 0) then argc + 1 else argc)
      else argc)"
  by pat_completeness auto
termination by (relation "measure (\<lambda>(_, _, i, _). 256 - i)") auto

declare count_words.simps [simp del]



text \<open>The loop that fills \<open>argv\<close> and terminates the words, \<open>k\<close> words to go.\<close>

fun split_loop :: "nat \<Rightarrow> addr \<Rightarrow> mem \<Rightarrow> nat \<Rightarrow> (addr list \<times> mem) option" where
  "split_loop 0 buf m j = Some ([], m)"
| "split_loop (Suc k) buf m j =
     (if j < 256 then do {
        e \<leftarrow> word_end buf m j;
        let m = m(buf + word_of_nat e := 0);
        j' \<leftarrow> skip_blanks buf m (e + 1);
        (argv, m) \<leftarrow> split_loop k buf m j';
        Some ((buf + word_of_nat j) # argv, m)
      }
      else Some ([], m))"

text \<open>\<open>names\<close>: the addresses of the names in \<open>shell_internal_cmd\<close>.\<close>

fun find_cmd :: "addr list \<Rightarrow> int \<Rightarrow> addr \<Rightarrow> mem \<Rightarrow> int option" where
  "find_cmd [] i cmd m = Some (- 1)"
| "find_cmd (n # ns) i cmd m = do {
     r \<leftarrow> strcmp cmd n m;
     if r = 0 then Some i else find_cmd ns (i + 1) cmd m
   }"

text \<open>The block that \<open>malloc\<close> returns for \<open>argv\<close> is kept as the list of its pointers, zeroed behind
  the words; \<open>argc\<close> counts from the value the caller passes.\<close>

definition parse_command :: "addr list \<Rightarrow> addr \<Rightarrow> nat \<Rightarrow> mem \<Rightarrow> (int \<times> nat \<times> addr list \<times> mem) option" where
  "parse_command names buf argc m = do {
     j \<leftarrow> skip_blanks buf m 0;
     let argc = count_words buf m j argc;
     if argc = 0 then Some (- 1, argc, [], m)
     else do {
       (argv, m) \<leftarrow> split_loop argc buf m j;
       let argv = argv @ replicate (argc + 1 - length argv) NULL;
       r \<leftarrow> find_cmd names 0 (hd argv) m;
       Some (r, argc, argv, m)
     }
   }"

text \<open>Filling the line in \<open>main\<close>: keys are stored without looking at the size of the buffer; the
  fuel is the number of scan codes.\<close>

fun read_line :: "nat \<Rightarrow> addr \<Rightarrow> u8 list \<Rightarrow> modifiers \<Rightarrow> nat \<Rightarrow> mem \<Rightarrow> (mem \<times> u8 list \<times> modifiers \<times> nat) option" where
  "read_line 0 buf codes s cnt m = None"
| "read_line (Suc n) buf codes s cnt m = do {
     (key, codes, s) \<leftarrow> analysis_keycode codes s;
     if key = 0xa then Some (m, codes, s, cnt)
     else if key \<noteq> 0 then read_line n buf codes s (cnt + 1) (m(buf + word_of_nat cnt := ucast key))
     else read_line n buf codes s cnt m
   }"

section \<open>Changing the directory\<close>

text \<open>\<open>strcmp\<close> of a literal with a string is 0.\<close>

abbreviation (input) equals_literal :: "u8 list \<Rightarrow> addr \<Rightarrow> mem \<Rightarrow> bool" where
  "equals_literal lit a m \<equiv> cstr m a lit"

text \<open>\<open>current_dir\<close>, a slash unless it is the root, and the argument; \<open>path\<close> is the block
  \<open>malloc\<close> returns.  The same lines are in \<open>cd_command\<close>, \<open>cat_command\<close> and \<open>exec_command\<close>.\<close>

definition join_path :: "addr \<Rightarrow> addr \<Rightarrow> addr \<Rightarrow> mem \<Rightarrow> mem option" where
  "join_path current_dir arg path m = do {
     let len = strlen current_dir m;
     let i = len + strlen arg m;
     let m = snd (memset path 0 (scast (i + 2)) m);
     (r, m) \<leftarrow> strcpy path current_dir m;
     let m = (if sint len > 1 then m(path + scast len := 0x2f) else m);
     (r, m) \<leftarrow> strcat path arg m;
     Some m
   }"

text \<open>\<open>for(i = len-1;i > 1;i--) if(current_dir[i] == '/') break;\<close>\<close>

function find_slash :: "addr \<Rightarrow> mem \<Rightarrow> int \<Rightarrow> int" where
  "find_slash cur m i =
     (if i > 1 then if m (cur + word_of_int i) = 0x2f then i else find_slash cur m (i - 1) else i)"
  by pat_completeness auto
termination by (relation "measure (\<lambda>(_, _, i). nat i)") auto

declare find_slash.simps [simp del]

text \<open>The new \<open>current_dir\<close> and the memory; \<open>chdir\<close> is the system call.\<close>

definition cd_command :: "(addr \<Rightarrow> mem \<Rightarrow> int) \<Rightarrow> addr \<Rightarrow> addr \<Rightarrow> addr \<Rightarrow> mem \<Rightarrow> (addr \<times> mem) option" where
  "cd_command chdir path current_dir arg m = do {
     let len = strlen current_dir m;
     if equals_literal [0x2e] arg m then Some (current_dir, m)
     else if equals_literal [0x2e, 0x2e] arg m then
       if equals_literal [0x2f] current_dir m then Some (current_dir, m)
       else
         let i = find_slash current_dir m (sint len - 1)
         in Some (current_dir, m(current_dir + word_of_int i := 0))
     else do {
       m \<leftarrow> join_path current_dir arg path m;
       if chdir path m = 0 then Some (path, m) else Some (current_dir, m)
     }
   }"

section \<open>The heap of a program\<close>

record heap =
  brk_start_address :: u64
  brk_used_address :: u64
  brk_end_address :: u64

definition SIZE_ALIGN :: u64 where "SIZE_ALIGN = 64"
definition PAGE_SIZE :: u64 where "PAGE_SIZE = 0x200000"

text \<open>\<open>brk\<close> is the system call, acting on the kernel state \<open>'k\<close>.\<close>

definition malloc :: "(u64 \<Rightarrow> 'k \<Rightarrow> u64 \<times> 'k) \<Rightarrow> u64 \<Rightarrow> heap \<times> 'k \<Rightarrow> addr \<times> heap \<times> 'k" where
  "malloc brk sz = (\<lambda>(h, k).
     if sint sz \<le> 0 then (NULL, h, k)
     else
       let (h, k) =
             (if brk_start_address h = 0
              then let (a, k) = brk 0 k
                   in (h\<lparr>brk_end_address := a, brk_used_address := a, brk_start_address := a\<rparr>, k)
              else (h, k));
           (h, k) =
             (if brk_end_address h \<le> brk_used_address h + SIZE_ALIGN + sz
              then let (a, k) = brk (brk_end_address h + ((sz + SIZE_ALIGN + PAGE_SIZE - 1) AND NOT (PAGE_SIZE - 1))) k
                   in (h\<lparr>brk_end_address := a\<rparr>, k)
              else (h, k));
           address = brk_used_address h
       in (address, h\<lparr>brk_used_address := brk_used_address h + (sz + SIZE_ALIGN)\<rparr>, k))"

definition free :: "addr \<Rightarrow> heap \<Rightarrow> heap" where
  "free address h = h"

section \<open>Strings in memory, cut and written\<close>

lemma cstr_cut:
  assumes "cstr m a (w @ r)" "length w < 2 ^ 64"
  shows "cstr (m(a + word_of_nat (length w) := 0)) a w"
  unfolding cstr_nth
proof (intro conjI allI impI)
  fix i assume i: "i < length w"
  with assms(1) have "m (a + word_of_nat i) = w ! i" by (auto simp: cstr_nth nth_append)
  with off_neq [OF i assms(2), of a] show "(m(a + word_of_nat (length w) := 0)) (a + word_of_nat i) = w ! i" by simp
next
  show "0 \<notin> set w" using assms(1) by (simp add: cstr_nth)
qed simp

lemma cstr_drop: "cstr m a (w @ r) \<Longrightarrow> cstr m (a + word_of_nat (length w)) r"
  by (induction w arbitrary: a) (auto simp: add.assoc [symmetric])

section \<open>Words of a line\<close>

abbreviation blank :: "u8 \<Rightarrow> bool" where
  "blank c \<equiv> c = 0x20"

text \<open>The specification: the maximal pieces without a blank.\<close>

function words :: "u8 list \<Rightarrow> u8 list list" where
  "words t =
     (let t = dropWhile blank t
      in if t = [] then [] else takeWhile (\<lambda>c. \<not> blank c) t # words (dropWhile (\<lambda>c. \<not> blank c) t))"
  by pat_completeness auto
termination
proof (relation "measure length")
  fix t x :: "u8 list"
  assume x: "x = dropWhile blank t" "x \<noteq> []"
  have h: "\<not> blank (hd x)" using x(2) unfolding x(1) by (rule hd_dropWhile)
  from x(2) obtain c cs where c: "x = c # cs" by (meson list.exhaust)
  with h have "length (dropWhile (\<lambda>c. \<not> blank c) x) \<le> length cs" by (simp add: length_dropWhile_le)
  moreover have "length x \<le> length t" unfolding x(1) by (rule length_dropWhile_le)
  ultimately show "(dropWhile (\<lambda>c. \<not> blank c) x, t) \<in> measure length" using c by simp
qed simp

declare words.simps [simp del]

lemma dropWhile_idem: "dropWhile P (dropWhile P t) = dropWhile P t"
  by (induction t) auto

lemma words_blank: "words (dropWhile blank t) = words t"
  by (subst (1 2) words.simps) (simp add: dropWhile_idem)

lemma words_Nil [simp]: "words [] = []"
  by (subst words.simps) simp

lemma words_word:
  "t \<noteq> [] \<Longrightarrow> \<not> blank (hd t) \<Longrightarrow>
   words t = takeWhile (\<lambda>c. \<not> blank c) t # words (dropWhile (\<lambda>c. \<not> blank c) t)"
  by (subst words.simps) (cases t; simp)

text \<open>What the counting loop counts: the last characters of words.\<close>

fun word_ends :: "u8 list \<Rightarrow> nat" where
  "word_ends [] = 0"
| "word_ends (c # t) = (if \<not> blank c \<and> (t = [] \<or> blank (hd t)) then 1 else 0) + word_ends t"

lemma word_ends_blank: "word_ends (dropWhile blank t) = word_ends t"
  by (induction t) auto

lemma word_ends_word:
  "t \<noteq> [] \<Longrightarrow> \<not> blank (hd t) \<Longrightarrow> word_ends t = Suc (word_ends (dropWhile (\<lambda>c. \<not> blank c) t))"
proof (induction t)
  case (Cons c t)
  then show ?case by (cases t) auto
qed simp

lemma word_ends_words: "word_ends t = length (words t)"
proof (induction t rule: words.induct)
  case (1 t)
  let ?t = "dropWhile blank t"
  show ?case
  proof (cases "?t = []")
    case True
    then have "word_ends t = 0" by (metis word_ends_blank word_ends.simps(1))
    moreover have "words t = []" by (subst words.simps) (simp add: True)
    ultimately show ?thesis by simp
  next
    case False
    then have h: "\<not> blank (hd ?t)" by (rule hd_dropWhile)
    from 1 [OF refl False] have "word_ends (dropWhile (\<lambda>c. \<not> blank c) ?t) = length (words (dropWhile (\<lambda>c. \<not> blank c) ?t))" .
    with word_ends_word [OF False h] words_word [OF False h] show ?thesis
      by (simp add: word_ends_blank words_blank)
  qed
qed

lemma count_words_ends:
  "cstr m (buf + word_of_nat i) t \<Longrightarrow> i + length t < 256 \<Longrightarrow> count_words buf m i n = n + word_ends t"
proof (induction t arbitrary: i n)
  case Nil
  then show ?case by (subst count_words.simps) simp
next
  case (Cons c t)
  then have c: "m (buf + word_of_nat i) = c" "c \<noteq> 0" and t: "cstr m (buf + word_of_nat (i + 1)) t"
    by (simp_all add: ac_simps)
  have d: "m (buf + word_of_nat (i + 1)) = 0x20 \<or> m (buf + word_of_nat (i + 1)) = 0 \<longleftrightarrow> t = [] \<or> blank (hd t)"
    using t by (cases t) auto
  have "count_words buf m i n = count_words buf m (i + 1) (if \<not> blank c \<and> (t = [] \<or> blank (hd t)) then n + 1 else n)"
    unfolding d [symmetric] using c Cons.prems(2) by (subst count_words.simps) (simp only: Let_def, simp)
  also have "\<dots> = (if \<not> blank c \<and> (t = [] \<or> blank (hd t)) then n + 1 else n) + word_ends t"
    using Cons.prems(2) by (intro Cons.IH [OF t]) simp
  finally show ?case by simp
qed

lemma skip_blanks_cstr:
  "cstr m (buf + word_of_nat j) t \<Longrightarrow> skip_blanks buf m j = Some (j + length (takeWhile blank t)) \<and>
     cstr m (buf + word_of_nat (j + length (takeWhile blank t))) (dropWhile blank t)"
proof (induction t arbitrary: j)
  case Nil
  then show ?case by (subst skip_blanks.simps) simp
next
  case (Cons c t)
  then have "m (buf + word_of_nat j) = c" "cstr m (buf + word_of_nat (j + 1)) t" by (simp_all add: ac_simps)
  with Cons.IH [of "j + 1"] Cons.prems show ?case by (subst skip_blanks.simps) (auto simp: algebra_simps)
qed

lemma word_end_cstr:
  "cstr m (buf + word_of_nat j) t \<Longrightarrow>
   word_end buf m j = Some (j + length (takeWhile (\<lambda>c. \<not> blank c) t))"
proof (induction t arbitrary: j)
  case Nil
  then show ?case by (subst word_end.simps) simp
next
  case (Cons c t)
  then have "m (buf + word_of_nat j) = c" "c \<noteq> 0" "cstr m (buf + word_of_nat (j + 1)) t" by (simp_all add: ac_simps)
  with Cons.IH [of "j + 1"] show ?case by (subst word_end.simps) auto
qed

text \<open>The bytes of the line from offset \<open>j\<close> to offset \<open>k\<close>.\<close>

definition span_of :: "addr \<Rightarrow> nat \<Rightarrow> nat \<Rightarrow> addr set" where
  "span_of buf j k = {buf + word_of_nat x | x. j \<le> x \<and> x \<le> k}"

lemma span_mono: "j \<le> j' \<Longrightarrow> k' \<le> k \<Longrightarrow> a \<notin> span_of buf j k \<Longrightarrow> a \<notin> span_of buf j' k'"
  unfolding span_of_def by fastforce

lemma not_in_span:
  assumes "x < j" "k < 2 ^ 64"
  shows "buf + word_of_nat x \<notin> span_of buf j k"
proof
  assume "buf + word_of_nat x \<in> span_of buf j k"
  then obtain y where "buf + word_of_nat x = buf + word_of_nat y" "j \<le> y" "y \<le> k" by (auto simp: span_of_def)
  with off_neq [of x y buf] assms show False by auto
qed

lemma split_loop_words:
  assumes "cstr m (buf + word_of_nat j) t" "t = [] \<or> \<not> blank (hd t)"
    and "\<not> blank (m (buf + word_of_nat (j + length t + 1)))" "j + length t \<le> 254"
  shows "\<exists>argv m'. split_loop (length (words t)) buf m j = Some (argv, m') \<and>
     list_all2 (cstr m') argv (words t) \<and> (\<forall>a. a \<notin> span_of buf j (j + length t) \<longrightarrow> m' a = m a)"
  using assms
proof (induction "length t" arbitrary: t m j rule: less_induct)
  case less
  show ?case
  proof (cases "t = []")
    case False
    with less.prems(2) have h: "\<not> blank (hd t)" by simp
    define w where "w = takeWhile (\<lambda>c. \<not> blank c) t"
    define r where "r = dropWhile (\<lambda>c. \<not> blank c) t"
    have t: "t = w @ r" by (simp add: w_def r_def)
    have "w \<noteq> []" using False h by (cases t) (simp_all add: w_def)
    then have lw: "0 < length w" by simp
    have words: "words t = w # words r" using words_word [OF False h] by (simp add: w_def r_def)
    define e where "e = j + length w"
    define m1 where "m1 = m(buf + word_of_nat e := 0)"
    have e: "word_end buf m j = Some e" using word_end_cstr [OF less.prems(1)] by (simp add: e_def w_def)
    have ea: "buf + word_of_nat j + word_of_nat (length w) = buf + word_of_nat e" by (simp add: e_def)
    have c0: "cstr m (buf + word_of_nat j) (w @ r)" using less.prems(1) t by simp
    have cw: "cstr m1 (buf + word_of_nat j) w"
      using cstr_cut [OF c0] less.prems(4) unfolding m1_def ea by (simp add: t)
    have cr: "cstr m (buf + word_of_nat e) r"
      using cstr_drop [OF c0] unfolding ea .
    have ne: "buf + word_of_nat x \<noteq> buf + word_of_nat e" if "e < x" "x \<le> 256" for x
      using off_neq [of e x buf] that by auto
    have j: "j < 256" "e \<le> 254" "j + length t = e + length r" using less.prems(4) by (simp_all add: t e_def)
    have rest: "\<exists>j' argv m'. skip_blanks buf m1 (e + 1) = Some j' \<and>
        split_loop (length (words r)) buf m1 j' = Some (argv, m') \<and> list_all2 (cstr m') argv (words r) \<and>
        (\<forall>a. a \<notin> span_of buf (e + 1) (e + length r) \<longrightarrow> m' a = m1 a)"
    proof (cases r)
      case Nil
      then have "\<not> blank (m1 (buf + word_of_nat (e + 1)))"
        using less.prems(3) ne [of "e + 1"] j by (simp add: m1_def)
      then have "skip_blanks buf m1 (e + 1) = Some (e + 1)" by (subst skip_blanks.simps) simp
      with Nil show ?thesis by simp
    next
      case (Cons b r1)
      then have b: "blank b" using hd_dropWhile [of "\<lambda>c. \<not> blank c" t] by (simp add: r_def)
      define r2 where "r2 = dropWhile blank r1"
      define j' where "j' = e + 1 + length (takeWhile blank r1)"
      have "cstr m (buf + word_of_nat (e + 1)) r1" using cr Cons by (simp add: ac_simps)
      then have "cstr m1 (buf + word_of_nat (e + 1)) r1"
      proof (rule cstr_frame)
        fix i assume "i \<le> length r1"
        then have "e < e + 1 + i" "e + 1 + i \<le> 256" using less.prems(4) j(3) Cons by simp_all
        from ne [OF this] show "m1 (buf + word_of_nat (e + 1) + word_of_nat i) = m (buf + word_of_nat (e + 1) + word_of_nat i)"
          by (simp add: m1_def ac_simps)
      qed
      from skip_blanks_cstr [OF this] have
        sk: "skip_blanks buf m1 (e + 1) = Some j'" and c2: "cstr m1 (buf + word_of_nat j') r2"
        by (simp_all only: j'_def r2_def)
      have "length (takeWhile blank r1) + length (dropWhile blank r1) = length r1"
        by (metis length_append takeWhile_dropWhile_id)
      then have len: "j' + length r2 = e + length r" by (simp add: j'_def r2_def Cons)
      have wr: "words r = words r2"
        using b words_blank [of r] words_blank [of r1] by (simp add: Cons r2_def)
      have "length r2 < length t" using len j(3) lw by (simp add: e_def j'_def t)
      moreover have "r2 = [] \<or> \<not> blank (hd r2)" unfolding r2_def using hd_dropWhile [of blank r1] by blast
      moreover have "\<not> blank (m1 (buf + word_of_nat (j' + length r2 + 1)))"
        using less.prems(3) ne [of "e + length r + 1"] less.prems(4) unfolding len by (simp add: m1_def j(3))
      moreover have "j' + length r2 \<le> 254" using len j(3) less.prems(4) by simp
      ultimately obtain argv m' where "split_loop (length (words r2)) buf m1 j' = Some (argv, m')"
        "list_all2 (cstr m') argv (words r2)" "\<forall>a. a \<notin> span_of buf j' (j' + length r2) \<longrightarrow> m' a = m1 a"
        using less.hyps [of r2 m1 j'] c2 by blast
      moreover have "e + 1 \<le> j'" by (simp add: j'_def)
      ultimately show ?thesis using sk span_mono [of "e + 1" j' "j' + length r2" "e + length r"] unfolding wr len by blast
    qed
    then obtain j' argv m' where
      sk: "skip_blanks buf m1 (e + 1) = Some j'" and sp: "split_loop (length (words r)) buf m1 j' = Some (argv, m')"
      and all: "list_all2 (cstr m') argv (words r)"
      and frame: "\<And>a. a \<notin> span_of buf (e + 1) (e + length r) \<Longrightarrow> m' a = m1 a"
      by blast
    have "cstr m' (buf + word_of_nat j) w"
    proof (rule cstr_frame [OF cw])
      fix i assume "i \<le> length w"
      then have "buf + word_of_nat (j + i) \<notin> span_of buf (e + 1) (e + length r)"
        using j less.prems(4) by (intro not_in_span) (simp_all add: e_def)
      from frame [OF this] show "m' (buf + word_of_nat j + word_of_nat i) = m1 (buf + word_of_nat j + word_of_nat i)"
        by (simp add: ac_simps)
    qed
    moreover have "m' a = m a" if "a \<notin> span_of buf j (j + length t)" for a
    proof -
      have "j \<le> e" "e \<le> j + length t" using j(3) by (simp_all add: e_def)
      then have "buf + word_of_nat e \<in> span_of buf j (j + length t)" unfolding span_of_def by blast
      with that have "a \<noteq> buf + word_of_nat e" by blast
      moreover have "a \<notin> span_of buf (e + 1) (e + length r)"
        by (rule span_mono [OF _ _ that]) (use j in \<open>simp_all add: e_def\<close>)
      ultimately show ?thesis using frame by (simp add: m1_def)
    qed
    moreover have "split_loop (length (words t)) buf m j = Some ((buf + word_of_nat j) # argv, m')"
      using j(1) e sk sp by (simp add: words m1_def)
    ultimately show ?thesis using all by (auto simp: words)
  qed simp
qed

lemma find_cmd_names:
  "list_all2 (cstr m) ns names \<Longrightarrow> cstr m cmd w \<Longrightarrow>
   find_cmd ns i cmd m = Some (case find (\<lambda>k. names ! k = w) [0..<length names] of None \<Rightarrow> - 1 | Some k \<Rightarrow> i + int k)"
proof (induction ns names arbitrary: i rule: list_all2_induct)
  case (Cons n ns name names)
  have r: "strcmp cmd n m = Some (str_order w name)"
    unfolding strcmp_def by (rule strcmp_loop_cstr) (use Cons in auto)
  have sh: "find (\<lambda>k. (name # names) ! k = w) [Suc 0..<Suc (length names)] =
      map_option Suc (find (\<lambda>k. names ! k = w) [0..<length names])"
  proof -
    have "find (\<lambda>k. (name # names) ! k = w) (map Suc ks) = map_option Suc (find (\<lambda>k. names ! k = w) ks)" for ks
      by (induction ks) auto
    from this [of "[0..<length names]"] show ?thesis unfolding map_Suc_upt .
  qed
  from Cons.IH [of "i + 1"] Cons.prems r show ?case
    by (auto simp: str_order_eq_0 upt_conv_Cons sh simp del: upt_Suc split: option.splits)
qed simp

text \<open>C35.  Parsing a command line: for a line of at most 254 characters in a buffer that was zeroed,
  \<open>argc\<close> is the number of its words, \<open>argv[i]\<close> is a terminated string that holds exactly the
  \<open>i\<close>-th word, the pointer behind the last is null, nothing outside the line is written, and the
  result is the index of the first command whose name is the first word, or -1 when there is none.
  For a line of blanks the result is -1 with no arguments.\<close>

theorem parse_command_words:
  assumes "cstr m buf t" "length t \<le> 254" "\<not> blank (m (buf + word_of_nat (length t + 1)))"
    and "list_all2 (cstr m) ns names"
    and "\<forall>n \<in> set ns. \<forall>nm \<in> set names. \<forall>i \<le> length nm. n + word_of_nat i \<notin> span_of buf 0 (length t)"
  shows "\<exists>argv m'. parse_command ns buf 0 m =
       Some (if words t = [] then - 1
             else case find (\<lambda>k. names ! k = hd (words t)) [0..<length names] of None \<Rightarrow> - 1 | Some k \<Rightarrow> int k,
             length (words t), argv, m') \<and>
     list_all2 (cstr m') (butlast argv) (words t) \<and> (words t \<noteq> [] \<longrightarrow> last argv = NULL) \<and>
     (\<forall>a. a \<notin> span_of buf 0 (length t) \<longrightarrow> m' a = m a)"
proof -
  define j where "j = length (takeWhile blank t)"
  define t' where "t' = dropWhile blank t"
  from assms(1) have "cstr m (buf + word_of_nat 0) t" by simp
  from skip_blanks_cstr [OF this] have sk: "skip_blanks buf m 0 = Some j" and c: "cstr m (buf + word_of_nat j) t'"
    by (simp_all add: j_def t'_def)
  have len: "j + length t' = length t"
    unfolding j_def t'_def by (metis length_append takeWhile_dropWhile_id)
  have w: "words t' = words t" unfolding t'_def by (rule words_blank)
  have cnt: "count_words buf m j 0 = length (words t)"
    using count_words_ends [OF c, of 0] len assms(2) by (simp add: word_ends_words w)
  show ?thesis
  proof (cases "words t = []")
    case True
    with sk cnt show ?thesis by (simp add: parse_command_def)
  next
    case False
    have "t' = [] \<or> \<not> blank (hd t')" unfolding t'_def using hd_dropWhile [of blank t] by blast
    then obtain argv m' where
      sp: "split_loop (length (words t)) buf m j = Some (argv, m')" and all: "list_all2 (cstr m') argv (words t)"
      and fr: "\<forall>a. a \<notin> span_of buf j (length t) \<longrightarrow> m' a = m a"
      using split_loop_words [OF c] assms(2,3) unfolding len w by blast
    have fr0: "\<forall>a. a \<notin> span_of buf 0 (length t) \<longrightarrow> m' a = m a"
      using fr span_mono [of 0 j "length t" "length t"] by blast
    have la: "length argv = length (words t)" using all by (rule list_all2_lengthD)
    have "list_all2 (cstr m') ns names"
    proof (rule list_all2_all_nthI)
      show l: "length ns = length names" using assms(4) by (rule list_all2_lengthD)
      fix i assume i: "i < length ns"
      show "cstr m' (ns ! i) (names ! i)"
      proof (rule cstr_frame)
        show "cstr m (ns ! i) (names ! i)" using assms(4) i by (rule list_all2_nthD)
        fix k assume k: "k \<le> length (names ! i)"
        have "ns ! i \<in> set ns" "names ! i \<in> set names" using i l by simp_all
        with k assms(5) have "ns ! i + word_of_nat k \<notin> span_of buf 0 (length t)" by blast
        then show "m' (ns ! i + word_of_nat k) = m (ns ! i + word_of_nat k)" using fr0 by blast
      qed
    qed
    moreover have "cstr m' (hd argv) (hd (words t))"
      using all False by (cases argv; cases "words t") auto
    ultimately have f: "find_cmd ns 0 (hd argv) m' =
        Some (case find (\<lambda>k. names ! k = hd (words t)) [0..<length names] of None \<Rightarrow> - 1 | Some k \<Rightarrow> int k)"
      by (simp add: find_cmd_names cong: option.case_cong)
    have "argv \<noteq> []" using la False by auto
    then have "parse_command ns buf 0 m = Some (case find (\<lambda>k. names ! k = hd (words t)) [0..<length names] of None \<Rightarrow> - 1 | Some k \<Rightarrow> int k,
        length (words t), argv @ [NULL], m')"
      using sk cnt sp f la False by (simp add: parse_command_def)
    with False all fr0 show ?thesis by auto
  qed
qed

lemma outside_span:
  assumes "k < unat (a - buf)"
  shows "a \<notin> span_of buf j k"
proof
  assume "a \<in> span_of buf j k"
  then obtain x where x: "a - buf = word_of_nat x" "x \<le> k" by (auto simp: span_of_def)
  have "unat (word_of_nat x :: u64) \<le> x" by (simp add: unat_of_nat take_bit_nat_less_eq_self)
  with x assms show False by simp
qed

text \<open>The line \<open>ls a\<close> behind a blank, with two of the command names.\<close>

definition demo_line :: mem where
  "demo_line = (\<lambda>_. 0)(0x1000 := 0x20, 0x1001 := 0x6c, 0x1002 := 0x73, 0x1003 := 0x20, 0x1004 := 0x61,
     0x2000 := 0x63, 0x2001 := 0x64, 0x2010 := 0x6c, 0x2011 := 0x73)"

theorem parse_command_words_witness:
  "\<exists>argv m'. parse_command [0x2000, 0x2010] 0x1000 0 demo_line = Some (1, 2, argv, m') \<and>
     list_all2 (cstr m') (butlast argv) [[0x6c, 0x73], [0x61]] \<and> last argv = NULL"
proof -
  let ?t = "[0x20, 0x6c, 0x73, 0x20, 0x61] :: u8 list" and ?n = "[[0x63, 0x64], [0x6c, 0x73]] :: u8 list list"
  have w: "words ?t = [[0x6c, 0x73], [0x61]]" by (simp add: words.simps)
  have n: "find (\<lambda>k. ?n ! k = [0x6c, 0x73]) [0..<Suc (Suc 0)] = Some 1" by code_simp
  have a: "cstr demo_line 0x1000 ?t" "length ?t \<le> 254" "\<not> blank (demo_line (0x1000 + word_of_nat (length ?t + 1)))"
    "list_all2 (cstr demo_line) [0x2000, 0x2010] ?n"
    by (simp_all add: demo_line_def)
  have "\<forall>n \<in> set [0x2000, 0x2010]. \<forall>nm \<in> set ?n. \<forall>i \<in> set [0..<Suc (length nm)].
      length ?t < unat (n + word_of_nat i - 0x1000 :: u64)"
    by code_simp
  then have "\<forall>n \<in> set [0x2000, 0x2010]. \<forall>nm \<in> set ?n. \<forall>i \<le> length nm. n + word_of_nat i \<notin> span_of 0x1000 0 (length ?t)"
    by (auto intro!: outside_span)
  from parse_command_words [OF a this] show ?thesis
    using n by (simp add: w numeral_2_eq_2) blast
qed

section \<open>The type of the decoder's state\<close>

definition flag :: "int \<Rightarrow> bool" where
  "flag b \<longleftrightarrow> b = 0 \<or> b = 1"

lemma flag_simps [simp]: "flag 0" "flag 1"
  by (simp_all add: flag_def)

definition modifiers_ok :: "modifiers \<Rightarrow> bool" where
  "modifiers_ok s \<longleftrightarrow> flag (shift_l s) \<and> flag (shift_r s) \<and> flag (ctrl_l s) \<and> flag (ctrl_r s) \<and>
     flag (alt_l s) \<and> flag (alt_r s)"

lemma get_scancode_Some: "get_scancode codes = Some (c, rest) \<longleftrightarrow> codes = c # rest"
  by (auto simp: get_scancode_def split: list.splits)

lemma pause_loop_suffix: "pause_loop es codes = Some (ok, rest) \<Longrightarrow> \<exists>xs. codes = xs @ rest"
proof (induction es arbitrary: codes)
  case (Cons e es)
  from Cons.prems obtain c cs where c: "codes = c # cs"
    and r: "(if c \<noteq> e then Some (False, cs) else pause_loop es cs) = Some (ok, rest)"
    by (auto simp: get_scancode_def split: list.splits bind_splits)
  then show ?case using Cons.IH [of cs] by (auto split: if_splits)
qed simp

lemma print_screen_suffix: "print_screen e codes = Some (k, rest) \<Longrightarrow> \<exists>xs. codes = xs @ rest"
  by (auto simp: print_screen_def get_scancode_Some split: bind_splits if_splits)

lemma extended_key_ok:
  assumes "extended_key x codes s = Some (k, rest, s')" "modifiers_ok s"
  shows "modifiers_ok s' \<and> (\<exists>xs. codes = xs @ rest) \<and> (k = 0 \<longrightarrow> x = 0x2A \<or> x = 0xB7)"
proof (cases "x = 0x2A \<or> x = 0xB7")
  case True
  with assms(1) have "s' = s" "\<exists>e. print_screen e codes = Some (k, rest)"
    by (auto simp: extended_key_def)
  with assms(2) True show ?thesis by (auto dest: print_screen_suffix)
next
  case False
  with assms show ?thesis by (auto simp: extended_key_def modifiers_ok_def OTHERKEY_def split: if_splits)
qed

lemma key_prefix_ok:
  assumes "key_prefix codes s = Some (k, x, rest, s')" "modifiers_ok s"
  shows "modifiers_ok s' \<and> (\<exists>xs. xs \<noteq> [] \<and> codes = xs @ rest) \<and>
     (k = 0 \<longrightarrow> x \<in> {0xE1, 0x2A, 0xB7} \<or> codes = x # rest \<and> s' = s)"
proof -
  from assms(1) obtain x0 cs where c: "codes = x0 # cs"
    by (auto simp: key_prefix_def get_scancode_def split: list.splits)
  show ?thesis
  proof (cases "x0 = 0xE1")
    case True
    with assms(1) obtain ok where "pause_loop (tl pausebreak_scode) cs = Some (ok, rest)" "x = 0xE1" "s' = s"
      unfolding c key_prefix_def by (auto simp: get_scancode_def split: bind_splits)
    with assms(2) show ?thesis using pause_loop_suffix [of _ cs ok rest] unfolding c by (metis append_Cons insertI1 list.distinct(1))
  next
    case n1: False
    show ?thesis
    proof (cases "x0 = 0xE0")
      case True
      with assms(1) obtain cs' where "cs = x # cs'" "extended_key x cs' s = Some (k, rest, s')"
        unfolding c key_prefix_def by (auto simp: get_scancode_Some split: bind_splits)
      with extended_key_ok [OF this(2) assms(2)] show ?thesis
        unfolding c by (metis append_Cons insertCI list.distinct(1))
    next
      case False
      with n1 assms show ?thesis unfolding c key_prefix_def by (auto simp: get_scancode_def)
    qed
  qed
qed

lemma make_code:
  assumes "(x :: u8) AND 0x80 = 0"
  shows "\<not> bit x 7" "x AND 0x7F = x"
proof -
  have e: "(0x80 :: u8) = 2 ^ 7" "(0x7F :: u8) = mask 7" by (simp_all add: mask_eq_exp_minus_1)
  show n: "\<not> bit x 7"
  proof
    assume "bit x 7"
    then have "bit (x AND 2 ^ 7) 7" by (simp add: bit_simps)
    with assms show False by (simp only: e bit_0_eq) simp
  qed
  show "x AND 0x7F = x"
  proof (rule bit_word_eqI)
    fix k assume "k < LENGTH(8)"
    then have "k < 7 \<or> k = 7" by auto
    with n show "bit (x AND 0x7F) k = bit x k" unfolding e by (auto simp: bit_simps)
  qed
qed

lemma plain_key_cases:
  fixes y :: u8 and key :: u32
  assumes "(if y = 0x2a then (0, s\<lparr>shift_l := mk\<rparr>) else if y = 0x36 then (0, s\<lparr>shift_r := mk\<rparr>)
     else if y = 0x1d then (0, s\<lparr>ctrl_l := mk\<rparr>) else if y = 0x38 then (0, s\<lparr>alt_l := mk\<rparr>)
     else (if mk = 0 then 0 else key, s)) = (k, s')"
    and "flag mk" "modifiers_ok s"
  shows "modifiers_ok s' \<and> (k \<noteq> 0 \<longrightarrow> mk \<noteq> 0 \<and> s' = s \<and> k = key)"
  using assms by (auto simp: modifiers_ok_def split: if_splits)

lemma plain_key_ok:
  assumes "plain_key x s = (k, s')" "modifiers_ok s"
  shows "modifiers_ok s' \<and> (k \<noteq> 0 \<longrightarrow> x AND 0x80 = 0 \<and> s' = s \<and>
      k = keycode_map_normal (2 * unat x + (if shift_l s = 0 \<and> shift_r s = 0 then 0 else 1)))"
proof -
  have "flag (if x AND FLAG_BREAK \<noteq> 0 then 0 else 1)" by simp
  from plain_key_cases [OF assms(1) [unfolded plain_key_def Let_def] this assms(2)]
  have m: "modifiers_ok s'" and k: "k \<noteq> 0 \<Longrightarrow> x AND FLAG_BREAK = 0 \<and> s' = s \<and>
      k = keycode_map_normal (unat (x AND 0x7F) * MAP_COLS + (if shift_l s \<noteq> 0 \<or> shift_r s \<noteq> 0 then 1 else 0))"
    by (auto split: if_splits)
  have "x AND 0x80 = 0 \<and> s' = s \<and>
      k = keycode_map_normal (2 * unat x + (if shift_l s = 0 \<and> shift_r s = 0 then 0 else 1))" if "k \<noteq> 0"
  proof -
    from k [OF that] have x: "x AND 0x80 = 0" by (simp add: FLAG_BREAK_def)
    show ?thesis using k [OF that] x unfolding make_code(2) [OF x] by (auto simp: MAP_COLS_def mult.commute)
  qed
  with m show ?thesis by blast
qed

lemma no_plain_key:
  assumes "x \<in> {0xE1, 0x2A, 0xB7}" "plain_key x s = (k, s')"
  shows "k = 0"
  using assms by (auto simp: plain_key_def Let_def FLAG_BREAK_def)

text \<open>C36.  The decoder keeps its state well typed: whatever bytes the keyboard sends, each call
  consumes at least one byte, the six modifier variables stay 0 or 1, and a key is only returned
  for a single byte that is the make code of that key, looked up in the column of the shift state;
  break codes, modifiers and the sequences that begin with \<open>E0\<close> and \<open>E1\<close> return none.\<close>

theorem analysis_keycode_type:
  assumes "analysis_keycode codes s = Some (key, rest, s')" "modifiers_ok s"
  shows "modifiers_ok s' \<and> (\<exists>xs. xs \<noteq> [] \<and> codes = xs @ rest) \<and>
     (key \<noteq> 0 \<longrightarrow> (\<exists>x. codes = x # rest \<and> x AND 0x80 = 0 \<and> s' = s \<and>
        key = keycode_map_normal (2 * unat x + (if shift_l s = 0 \<and> shift_r s = 0 then 0 else 1))))"
proof -
  from assms(1) obtain k x s1 where p: "key_prefix codes s = Some (k, x, rest, s1)"
    and r: "if k = 0 then plain_key x s1 = (key, s') else key = 0 \<and> s' = s1"
    by (auto simp: analysis_keycode_def split: bind_splits if_splits prod.splits)
  note pre = key_prefix_ok [OF p assms(2)]
  show ?thesis
  proof (cases "k = 0")
    case True
    with r have pl: "plain_key x s1 = (key, s')" by simp
    from pre plain_key_ok [OF pl] no_plain_key [OF _ pl] True show ?thesis by blast
  next
    case False
    with r pre show ?thesis by simp
  qed
qed

theorem analysis_keycode_type_witness:
  "\<exists>s'. analysis_keycode [0x1e, 0x9e] \<lparr>shift_l = 1, shift_r = 0, ctrl_l = 0, ctrl_r = 0, alt_l = 0, alt_r = 0\<rparr> =
     Some (0x41, [0x9e], s') \<and> modifiers_ok s'"
proof -
  let ?s = "\<lparr>shift_l = 1, shift_r = 0, ctrl_l = 0, ctrl_r = 0, alt_l = 0, alt_r = 0\<rparr>"
  have "map_option (\<lambda>(k, r, s). (k, r)) (analysis_keycode [0x1e, 0x9e] ?s) = Some (0x41, [0x9e])" by code_simp
  then obtain s' where a: "analysis_keycode [0x1e, 0x9e] ?s = Some (0x41, [0x9e], s')" by auto
  moreover have "modifiers_ok ?s" by (simp add: modifiers_ok_def)
  ultimately show ?thesis using analysis_keycode_type [OF a] by blast
qed

section \<open>Blocks of the heap\<close>

fun mallocs :: "(u64 \<Rightarrow> 'k \<Rightarrow> u64 \<times> 'k) \<Rightarrow> u64 list \<Rightarrow> heap \<times> 'k \<Rightarrow> (addr \<times> u64) list \<times> heap \<times> 'k" where
  "mallocs brk [] hk = ([], hk)"
| "mallocs brk (n # ns) hk =
     (let (a, hk) = malloc brk n hk; (bs, hk) = mallocs brk ns hk in ((a, n) # bs, hk))"

lemma and_not_mask_21: "(y :: u64) AND NOT 0x1fffff = y - take_bit 21 y"
proof -
  have m: "(0x1fffff :: u64) = mask 21" by (simp add: mask_eq_exp_minus_1)
  have "(y AND NOT (mask 21)) + take_bit 21 y = (y AND NOT (mask 21)) OR take_bit 21 y"
    by (rule disjunctive_add) (auto simp: bit_simps)
  also have "\<dots> = y" by (rule bit_word_eqI) (auto simp: bit_simps)
  finally show ?thesis unfolding m by (metis add_diff_cancel_right')
qed

lemma round_up_page:
  assumes "unat (x :: u64) + 2 ^ 21 < 2 ^ 64"
  shows "unat x \<le> unat ((x + 0x1fffff) AND NOT 0x1fffff)" "unat ((x + 0x1fffff) AND NOT 0x1fffff) < unat x + 2 ^ 21"
proof -
  let ?y = "x + 0x1fffff"
  have y: "unat ?y = unat x + 0x1fffff" using assms by (subst unat_plus_if') simp
  have "unat (take_bit 21 ?y) = take_bit 21 (unat ?y)" by (rule unsigned_take_bit_eq)
  then have "unat (take_bit 21 ?y) = unat ?y mod 2 ^ 21" by (simp only: take_bit_eq_mod)
  then have t: "unat (take_bit 21 ?y) \<le> 0x1fffff" "unat (take_bit 21 ?y) \<le> unat ?y" by simp_all
  then have "unat (?y AND NOT 0x1fffff) = unat ?y - unat (take_bit 21 ?y)"
    unfolding and_not_mask_21 by (intro unat_sub) (simp only: word_le_nat_alt)
  with y t show "unat x \<le> unat (?y AND NOT 0x1fffff)" "unat (?y AND NOT 0x1fffff) < unat x + 2 ^ 21" by simp_all
qed

lemma request_positive:
  assumes "0 < unat (n :: u64)" "unat n \<le> 2 ^ 40"
  shows "\<not> sint n \<le> 0"
proof -
  have "sint (word_of_int (int k) :: u64) = int k" if "k \<le> 2 ^ 40" for k :: nat
    using that by (intro sint_of_int_small) simp_all
  from this [OF assms(2)] have "sint n = int (unat n)" by simp
  with assms(1) show ?thesis by (simp only: of_nat_le_0_iff)
qed

text \<open>A heap with at most \<open>L\<close> as its end.\<close>

definition heap_ok :: "nat \<Rightarrow> heap \<Rightarrow> bool" where
  "heap_ok L h \<longleftrightarrow> brk_start_address h \<noteq> 0 \<and> unat (brk_used_address h) \<le> unat (brk_end_address h) \<and>
     unat (brk_end_address h) \<le> L"

lemma malloc_step:
  assumes "heap_ok L h" "0 < unat n" "unat n \<le> 2 ^ 40" "L + 2 ^ 41 \<le> 2 ^ 62"
    and brk: "\<And>a k. a \<noteq> 0 \<Longrightarrow> fst (brk a k) = a"
  shows "\<exists>h' k'. malloc brk n (h, k) = (brk_used_address h, h', k') \<and> heap_ok (L + 2 ^ 41) h' \<and>
     unat (brk_used_address h') = unat (brk_used_address h) + unat n + 64 \<and>
     unat (brk_end_address h) \<le> unat (brk_end_address h') \<and>
     unat (brk_used_address h) + unat n \<le> unat (brk_end_address h')"
proof -
  let ?u = "brk_used_address h" and ?e = "brk_end_address h"
  from assms(1) have h: "brk_start_address h \<noteq> 0" "unat ?u \<le> unat ?e" "unat ?e \<le> L" by (simp_all add: heap_ok_def)
  have n: "\<not> sint n \<le> 0" using assms(2,3) by (rule request_positive)
  have s: "unat (n + 64) = unat n + 64" using assms(3) by (subst unat_plus_if') simp
  define R where "R = ((n + 64) + 0x1fffff) AND NOT 0x1fffff"
  have R: "unat n + 64 \<le> unat R" "unat R < unat n + 64 + 2 ^ 21"
    using round_up_page [of "n + 64"] assms(3) unfolding s R_def by simp_all
  have eR: "unat (?e + R) = unat ?e + unat R"
    using R h(3) assms(3,4) by (subst unat_plus_if') simp
  have u: "unat (?u + (n + 64)) = unat ?u + unat n + 64"
    using h assms(3,4) s by (subst unat_plus_if') simp
  show ?thesis
  proof (cases "?e \<le> ?u + SIZE_ALIGN + n")
    case True
    have nz: "?e + R \<noteq> 0" using eR R by auto
    have "malloc brk n (h, k) = (?u, h\<lparr>brk_end_address := ?e + R, brk_used_address := ?u + (n + 64)\<rparr>, snd (brk (?e + R) k))"
    proof -
      obtain k' where "brk (?e + R) k = (?e + R, k')" using brk [OF nz, of k] by (metis fst_conv surj_pair)
      then show ?thesis using n h(1) True
        by (simp add: malloc_def SIZE_ALIGN_def PAGE_SIZE_def R_def algebra_simps)
    qed
    with eR u R h assms(3) show ?thesis by (simp add: heap_ok_def)
  next
    case False
    then have "unat (?u + (n + 64)) < unat ?e" by (simp add: SIZE_ALIGN_def word_le_nat_alt not_le ac_simps)
    moreover have "malloc brk n (h, k) = (?u, h\<lparr>brk_used_address := ?u + (n + 64)\<rparr>, k)"
      using n h(1) False by (simp add: malloc_def SIZE_ALIGN_def ac_simps)
    ultimately show ?thesis using u h by (simp add: heap_ok_def)
  qed
qed

lemma mallocs_blocks:
  assumes "heap_ok L h" "\<forall>n \<in> set ns. 0 < unat n \<and> unat n \<le> 2 ^ 40" "L + length ns * 2 ^ 41 \<le> 2 ^ 62"
    and "\<And>a k. a \<noteq> 0 \<Longrightarrow> fst (brk a k) = a"
  shows "\<exists>bs h' k'. mallocs brk ns (h, k) = (bs, h', k') \<and> map snd bs = ns \<and>
     sorted_wrt (\<lambda>(a, n) (b, _). unat a + unat n + 64 \<le> unat b) bs \<and>
     (\<forall>(a, n) \<in> set bs. unat (brk_used_address h) \<le> unat a \<and> unat a + unat n \<le> unat (brk_end_address h')) \<and>
     unat (brk_end_address h) \<le> unat (brk_end_address h')"
  using assms(1-3)
proof (induction ns arbitrary: L h k)
  case (Cons n ns)
  have n: "0 < unat n" "unat n \<le> 2 ^ 40" "L + 2 ^ 41 \<le> 2 ^ 62" using Cons.prems by simp_all
  from malloc_step [where brk = brk and k = k, OF Cons.prems(1) n assms(4)] obtain h1 k1 where
    m: "malloc brk n (h, k) = (brk_used_address h, h1, k1)" and ok: "heap_ok (L + 2 ^ 41) h1"
    and u: "unat (brk_used_address h1) = unat (brk_used_address h) + unat n + 64"
    and e: "unat (brk_end_address h) \<le> unat (brk_end_address h1)"
      "unat (brk_used_address h) + unat n \<le> unat (brk_end_address h1)"
    by blast
  have "L + 2 ^ 41 + length ns * 2 ^ 41 \<le> 2 ^ 62" using Cons.prems(3) by (simp add: algebra_simps)
  with Cons.IH [OF ok, of k1] Cons.prems(2) obtain bs h' k' where
    r: "mallocs brk ns (h1, k1) = (bs, h', k')" "map snd bs = ns"
      "sorted_wrt (\<lambda>(a, n) (b, _). unat a + unat n + 64 \<le> unat b) bs"
      "\<forall>(a, n) \<in> set bs. unat (brk_used_address h1) \<le> unat a \<and> unat a + unat n \<le> unat (brk_end_address h')"
      "unat (brk_end_address h1) \<le> unat (brk_end_address h')"
    by auto
  from r(4) u have "\<forall>(b, l) \<in> set bs. unat (brk_used_address h) + unat n + 64 \<le> unat b" by auto
  with m r u e show ?case by fastforce
qed simp

text \<open>C37.  Blocks of the user heap never overlap: on a kernel whose \<open>brk\<close> grants what it is asked
  for, a program that starts with an empty heap and makes any sequence of requests gets, for each, a
  block inside the heap between its start and the final break, and each block starts at least 64
  bytes behind the end of all earlier ones.\<close>

theorem malloc_blocks_disjoint:
  assumes "\<And>k. fst (brk 0 k) = base" "\<And>a k. a \<noteq> 0 \<Longrightarrow> fst (brk a k) = a"
    and "base \<noteq> 0" "unat base \<le> 2 ^ 47" "length ns \<le> 2 ^ 20"
    and "\<forall>n \<in> set ns. 0 < unat n \<and> unat n \<le> 2 ^ 40" "ns \<noteq> []"
  shows "\<exists>bs h' k'. mallocs brk ns (\<lparr>brk_start_address = 0, brk_used_address = 0, brk_end_address = 0\<rparr>, k) = (bs, h', k') \<and>
     map snd bs = ns \<and> sorted_wrt (\<lambda>(a, n) (b, _). unat a + unat n + 64 \<le> unat b) bs \<and>
     (\<forall>(a, n) \<in> set bs. unat base \<le> unat a \<and> unat a + unat n \<le> unat (brk_end_address h'))"
proof -
  let ?z = "\<lparr>brk_start_address = 0, brk_used_address = 0, brk_end_address = 0\<rparr>"
  let ?h = "\<lparr>brk_start_address = base, brk_used_address = base, brk_end_address = base\<rparr>"
  obtain n ns' where ns: "ns = n # ns'" using assms(7) by (cases ns) auto
  obtain k1 where b: "brk 0 k = (base, k1)" using assms(1) [of k] by (metis fst_conv surj_pair)
  have "\<not> sint n \<le> 0" using assms(6) ns by (intro request_positive) auto
  then have "malloc brk n (?z, k) = malloc brk n (?h, k1)" using assms(3) by (simp add: malloc_def b)
  then have "mallocs brk ns (?z, k) = mallocs brk ns (?h, k1)" by (simp add: ns)
  moreover have "heap_ok (2 ^ 47) ?h" using assms(3,4) by (simp add: heap_ok_def)
  moreover have "2 ^ 47 + length ns * 2 ^ 41 \<le> (2 :: nat) ^ 62" using assms(5) by simp
  ultimately show ?thesis using mallocs_blocks [where brk = brk and k = k1, OF _ assms(6) _ assms(2)] by fastforce
qed

theorem malloc_blocks_disjoint_witness:
  "\<exists>a b h' k'. mallocs (\<lambda>a k. (if a = 0 then 0xc00000 else a, k + (1 :: nat))) [100, 0x300000]
       (\<lparr>brk_start_address = 0, brk_used_address = 0, brk_end_address = 0\<rparr>, 0) = ([(a, 100), (b, 0x300000)], h', k') \<and>
     unat a + 164 \<le> unat b \<and> unat b + 0x300000 \<le> unat (brk_end_address h')"
proof -
  let ?brk = "\<lambda>a k. (if a = 0 then 0xc00000 else a, k + (1 :: nat))"
  from malloc_blocks_disjoint [of ?brk "0xc00000" "[100, 0x300000]" 0] obtain bs h' k' where
    m: "mallocs ?brk [100, 0x300000] (\<lparr>brk_start_address = 0, brk_used_address = 0, brk_end_address = 0\<rparr>, 0) = (bs, h', k')"
    and s: "map snd bs = [100, 0x300000]" "sorted_wrt (\<lambda>(a, n) (b, _). unat a + unat n + 64 \<le> unat b) bs"
      "\<forall>(a, n) \<in> set bs. unat (0xc00000 :: u64) \<le> unat a \<and> unat a + unat n \<le> unat (brk_end_address h')"
    by auto
  from s(1) obtain a b where "bs = [(a, 100), (b, 0x300000)]" by (auto simp: map_eq_Cons_conv)
  with m s show ?thesis by auto
qed

section \<open>Writing strings\<close>

lemma strcat_put:
  assumes "cstr m a xs" "cstr m b ys" "length xs + length ys < 2 ^ 31"
    and "\<And>i j. i \<le> length xs + length ys \<Longrightarrow> j \<le> length ys \<Longrightarrow> a + word_of_nat i \<noteq> b + word_of_nat j"
  shows "strcat a b m = Some (a, put_str (a + word_of_nat (length xs)) (ys @ [0]) m)"
    and "cstr (put_str (a + word_of_nat (length xs)) (ys @ [0]) m) a (xs @ ys)"
proof -
  let ?e = "a + word_of_nat (length xs)"
  have sc: "scas0 0xffffffff a m = (0xffffffff - 1 - word_of_nat (length xs), a + 1 + word_of_nat (length xs))"
    using assms(1,3) by (intro scas0_cstr) auto
  have "?e + word_of_nat i \<noteq> b + word_of_nat j" if "i \<le> length ys" "j \<le> length ys" for i j
    using assms(4) [of "length xs + i" j] that by (simp add: ac_simps)
  then have "strcpy_loop ?e b m = Some (put_str ?e (ys @ [0]) m)"
    using assms(2,3) by (intro strcpy_loop_put) simp_all
  then show "strcat a b m = Some (a, put_str ?e (ys @ [0]) m)"
    by (simp add: strcat_def sc)
  have tail: "put_str ?e (ys @ [0]) m (a + word_of_nat (length xs + i)) = (ys @ [0]) ! i" if "i \<le> length ys" for i
    using put_str_at [of i "ys @ [0]" ?e m] that assms(3) by (simp add: ac_simps)
  have head: "put_str ?e (ys @ [0]) m (a + word_of_nat i) = m (a + word_of_nat i)" if "i < length xs" for i
  proof (rule put_str_outside)
    fix j assume "j < length (ys @ [0])"
    with off_neq [of i "length xs + j" a] that assms(3) show "a + word_of_nat i \<noteq> ?e + word_of_nat j"
      by (simp add: ac_simps)
  qed
  show "cstr (put_str ?e (ys @ [0]) m) a (xs @ ys)"
    unfolding cstr_nth
  proof (intro conjI allI impI)
    fix i assume i: "i < length (xs @ ys)"
    show "put_str ?e (ys @ [0]) m (a + word_of_nat i) = (xs @ ys) ! i"
    proof (cases "i < length xs")
      case True
      with head assms(1) show ?thesis by (auto simp: cstr_nth nth_append)
    next
      case False
      with i have "i - length xs < length ys" by simp
      with False tail [of "i - length xs"] show ?thesis by (simp add: nth_append)
    qed
  next
    show "put_str ?e (ys @ [0]) m (a + word_of_nat (length (xs @ ys))) = 0"
      using tail [of "length ys"] by simp
    show "0 \<notin> set (xs @ ys)" using assms(1,2) by (auto simp: cstr_nth)
  qed
qed

section \<open>Going down and up\<close>

text \<open>The path of an entry of a directory.\<close>

definition child_path :: "u8 list \<Rightarrow> u8 list \<Rightarrow> u8 list" where
  "child_path d name = d @ (if length d > 1 then [0x2f] else []) @ name"

text \<open>The block at \<open>p\<close> of \<open>n\<close> bytes does not meet the \<open>k + 1\<close> bytes at \<open>a\<close>.\<close>

definition block_apart :: "addr \<Rightarrow> nat \<Rightarrow> addr \<Rightarrow> nat \<Rightarrow> bool" where
  "block_apart p n a k \<longleftrightarrow> (\<forall>i < n. \<forall>j \<le> k. p + word_of_nat i \<noteq> a + word_of_nat j)"

lemma cstr_block_frame:
  assumes "cstr m a xs" "block_apart p n a (length xs)"
    and "\<And>b. (\<And>i. i < n \<Longrightarrow> b \<noteq> p + word_of_nat i) \<Longrightarrow> m' b = m b"
  shows "cstr m' a xs"
  using assms(1)
proof (rule cstr_frame)
  fix i assume i: "i \<le> length xs"
  show "m' (a + word_of_nat i) = m (a + word_of_nat i)"
    by (rule assms(3)) (use assms(2) i in \<open>unfold block_apart_def, metis\<close>)
qed

lemma fill_put_str: "fill k c a m = put_str a (replicate k c) m"
  by (rule ext) (simp add: fill_def put_str_def)

lemma sint_len: "n < 2 ^ 31 \<Longrightarrow> sint (word_of_nat n :: u32) = int n"
  by transfer (simp add: signed_take_bit_int_eq_self)

lemma scast_len: "n < 2 ^ 31 \<Longrightarrow> (scast (word_of_nat n :: u32) :: u64) = word_of_nat n"
  by (simp add: scast_eq sint_len)

lemma join_path_spec:
  assumes d: "cstr m cur d" and nm: "cstr m arg name" and len: "length d + length name + 2 < 2 ^ 31"
    and "block_apart p (length d + length name + 2) cur (length d)"
    and "block_apart p (length d + length name + 2) arg (length name)"
  shows "\<exists>m'. join_path cur arg p m = Some m' \<and> cstr m' p (child_path d name) \<and>
     (\<forall>b. (\<forall>i < length d + length name + 2. b \<noteq> p + word_of_nat i) \<longrightarrow> m' b = m b)"
proof -
  let ?D = "length d" and ?N = "length name" and ?n = "length d + length name + 2"
  define out where "out = (\<lambda>b. \<forall>i < ?n. b \<noteq> p + word_of_nat i)"
  have l1: "strlen cur m = word_of_nat ?D" and l2: "strlen arg m = word_of_nat ?N"
    using strlen_cstr [OF d] strlen_cstr [OF nm] len by simp_all
  have sum: "(word_of_nat ?D :: u32) + word_of_nat ?N + 2 = word_of_nat ?n" by simp
  define m1 where "m1 = fill ?n 0 p m"
  have nz: "0 \<le> sint (word_of_nat ?n :: u64)"
    using len sint_of_int_small [of "int ?n"] by simp
  have "unat (word_of_nat ?n :: u64) = ?n" using len by (intro unat_of_nat_small) simp
  then have ms: "snd (memset p 0 (scast (word_of_nat ?n :: u32)) m) = m1"
    using memset_fill [OF nz, of p 0 m] len by (simp only: scast_len m1_def snd_conv)
  have o1: "m1 b = m b" if "out b" for b
    unfolding m1_def fill_put_str by (rule put_str_outside) (use that in \<open>simp add: out_def\<close>)
  have d1: "cstr m1 cur d" by (rule cstr_block_frame [OF d assms(4)]) (use o1 in \<open>auto simp: out_def\<close>)
  have a1: "cstr m1 arg name" by (rule cstr_block_frame [OF nm assms(5)]) (use o1 in \<open>auto simp: out_def\<close>)
  define m2 where "m2 = put_str p (d @ [0]) m1"
  have "strcpy_loop p cur m1 = Some m2"
    unfolding m2_def using d1 len assms(4) by (intro strcpy_loop_put) (auto simp: block_apart_def)
  then have cp: "strcpy p cur m1 = Some (p, m2)" by (simp add: strcpy_def)
  have o2: "m2 b = m b" if "out b" for b
    using o1 [OF that] that unfolding m2_def
    by (subst put_str_outside) (auto simp: out_def)
  have b2: "m2 (p + word_of_nat i) = d ! i" if "i < ?D" for i
    using put_str_at [of i "d @ [0]" p m1] that len by (simp add: m2_def nth_append)
  have b2z: "m2 (p + word_of_nat ?D) = 0"
    using put_str_at [of ?D "d @ [0]" p m1] len by (simp add: m2_def)
  have b2n: "m2 (p + word_of_nat (?D + 1)) = 0"
  proof -
    have "m2 (p + word_of_nat (?D + 1)) = m1 (p + word_of_nat (?D + 1))"
      unfolding m2_def
    proof (rule put_str_outside)
      fix i assume "i < length (d @ [0])"
      then have "i < ?D + 1" "?D + 1 < 2 ^ 64" using len by simp_all
      from off_neq [OF this] show "p + word_of_nat (?D + 1) \<noteq> p + word_of_nat i" by (rule not_sym)
    qed
    also have "\<dots> = replicate ?n 0 ! (?D + 1)"
      unfolding m1_def fill_put_str by (rule put_str_at) (use len in simp_all)
    also have "\<dots> = 0" by (rule nth_replicate) simp
    finally show ?thesis .
  qed
  let ?sl = "if ?D > 1 then [0x2f] else [] :: u8 list"
  define m3 where "m3 = (if ?D > 1 then m2(p + word_of_nat ?D := 0x2f) else m2)"
  have ne: "p + word_of_nat i \<noteq> p + word_of_nat j" if "i \<noteq> j" "i < ?n" "j < ?n" for i j
    using that len off_neq [of i j p] off_neq [of j i p] by (cases "i < j") auto
  have nz: "0 \<notin> set d" using d by (simp add: cstr_nth)
  have pre: "cstr m3 p (d @ ?sl)"
  proof (cases "?D > 1")
    case True
    have "m3 (p + word_of_nat i) = d ! i" if "i < ?D" for i
      using ne [of i ?D] b2 [OF that] that True by (simp add: m3_def)
    moreover have "m3 (p + word_of_nat ?D) = 0x2f" using True by (simp add: m3_def)
    moreover have "m3 (p + word_of_nat (?D + 1)) = 0"
      using b2n ne [of "?D + 1" ?D] by (simp add: m3_def)
    ultimately show ?thesis using True nz by (auto simp: cstr_nth nth_append less_Suc_eq)
  next
    case False
    then show ?thesis using b2 b2z nz by (simp add: m3_def cstr_nth)
  qed
  have o3: "m3 b = m b" if "out b" for b
    using o2 [OF that] that by (auto simp: m3_def out_def)
  have a3: "cstr m3 arg name" by (rule cstr_block_frame [OF nm assms(5)]) (use o3 in \<open>auto simp: out_def\<close>)
  define e where "e = length (d @ ?sl)"
  have e: "e \<le> ?D + 1" by (simp add: e_def)
  define m4 where "m4 = put_str (p + word_of_nat e) (name @ [0]) m3"
  have sl: "e + ?N < 2 ^ 31" using e len by simp
  have sep: "p + word_of_nat i \<noteq> arg + word_of_nat j" if "i \<le> e + ?N" "j \<le> ?N" for i j
    using assms(5) that e by (simp add: block_apart_def)
  have st: "strcat p arg m3 = Some (p, m4)" and c4: "cstr m4 p ((d @ ?sl) @ name)"
    unfolding m4_def e_def
    by (rule strcat_put [OF pre a3 sl [unfolded e_def] sep [unfolded e_def]]; assumption)+
  have o4: "m4 b = m b" if "out b" for b
  proof -
    have "m4 b = m3 b"
      unfolding m4_def
    proof (rule put_str_outside)
      fix j assume "j < length (name @ [0])"
      then have "e + j < ?n" using e by simp
      with that have "b \<noteq> p + word_of_nat (e + j)" unfolding out_def by blast
      then show "b \<noteq> p + word_of_nat e + word_of_nat j" by (simp add: add.assoc)
    qed
    with o3 [OF that] show ?thesis by simp
  qed
  have "sint (word_of_nat ?D :: u32) > 1 \<longleftrightarrow> ?D > 1" "(scast (word_of_nat ?D :: u32) :: u64) = word_of_nat ?D"
    using len by (simp_all add: sint_len scast_len)
  then have "join_path cur arg p m = Some m4"
    unfolding join_path_def l1 l2 Let_def sum ms using st by (simp add: cp m3_def split: if_splits)
  with c4 o4 show ?thesis by (auto simp: child_path_def out_def)
qed

text \<open>Going up stops at the last slash, which separates the name.\<close>

lemma cstr_char: "cstr m p xs \<Longrightarrow> i < length xs \<Longrightarrow> m (p + word_of_int (int i)) = xs ! i"
  by (simp add: cstr_nth)

lemma find_slash_name:
  assumes "cstr m p (d @ [0x2f] @ name)" "0x2f \<notin> set name" "k \<le> length name" "length d > 1"
  shows "find_slash p m (int (length d + k)) = int (length d)"
  using assms(3)
proof (induction k)
  case 0
  have "m (p + word_of_int (int (length d + 0))) = 0x2f"
    by (subst cstr_char [OF assms(1)]) (simp_all add: nth_append)
  with assms(4) show ?case by (subst find_slash.simps) simp
next
  case (Suc k)
  have "m (p + word_of_int (int (length d + Suc k))) = name ! k"
    using Suc.prems by (subst cstr_char [OF assms(1)]) (simp_all add: nth_append)
  moreover have "name ! k \<noteq> 0x2f" using assms(2) Suc.prems by (metis Suc_le_lessD nth_mem)
  moreover have "find_slash p m (int (length d + Suc k) - 1) = int (length d)" using Suc by simp
  ultimately show ?case using assms(4) by (subst find_slash.simps) simp
qed

lemma find_slash_root:
  assumes "cstr m p (x # name)" "0x2f \<notin> set name" "0 < k" "k \<le> length name"
  shows "find_slash p m (int k) = 1"
  using assms(3,4)
proof (induction k)
  case (Suc k)
  show ?case
  proof (cases "k = 0")
    case True
    then show ?thesis by (subst find_slash.simps) simp
  next
    case False
    have "m (p + word_of_int (int (Suc k))) = name ! k"
      using Suc.prems by (subst cstr_char [OF assms(1)]) simp_all
    moreover have "name ! k \<noteq> 0x2f" using assms(2) Suc.prems by (metis Suc_le_lessD nth_mem)
    moreover have "find_slash p m (int (Suc k) - 1) = 1" using Suc False by simp
    ultimately show ?thesis using False by (subst find_slash.simps) simp
  qed
qed simp

text \<open>Down and up again: \<open>cd name\<close> makes the path of the entry in the new block and, when
  \<open>chdir\<close> accepts it, the current directory; \<open>cd ..\<close> from there cuts the name off again and leaves
  exactly the directory the shell was in, in the root as well as below it.\<close>

theorem cd_down_up:
  assumes "cstr m cur d" "d = [0x2f] \<or> 1 < length d" "cstr m arg name" "name \<noteq> []" "0x2f \<notin> set name"
    and "name \<noteq> [0x2e]" "name \<noteq> [0x2e, 0x2e]" "cstr m up [0x2e, 0x2e]"
    and "length d + length name + 2 < 2 ^ 31"
    and "block_apart p (length d + length name + 2) cur (length d)"
    and "block_apart p (length d + length name + 2) arg (length name)"
    and "block_apart p (length d + length name + 2) up 2"
    and "\<And>a m. chdir a m = 0"
  shows "\<exists>m1 m2. cd_command chdir p cur arg m = Some (p, m1) \<and> cstr m1 p (child_path d name) \<and>
     cd_command chdir p' p up m1 = Some (p, m2) \<and> cstr m2 p d"
proof -
  let ?c = "child_path d name"
  obtain m1 where j: "join_path cur arg p m = Some m1" and c: "cstr m1 p ?c"
    and fr: "\<And>b. (\<And>i. i < length d + length name + 2 \<Longrightarrow> b \<noteq> p + word_of_nat i) \<Longrightarrow> m1 b = m b"
    using join_path_spec [OF assms(1,3,9-11)] by metis
  have "\<not> cstr m arg [0x2e]" "\<not> cstr m arg [0x2e, 0x2e]"
    using cstr_unique [OF assms(3)] assms(6,7) by blast+
  then have down: "cd_command chdir p cur arg m = Some (p, m1)"
    using j assms(13) by (simp add: cd_command_def del: cstr.simps)
  have "cstr m1 up [0x2e, 0x2e]"
    by (rule cstr_block_frame [OF assms(8)]) (use assms(12) fr in \<open>auto simp: numeral_2_eq_2\<close>)
  then have u: "cstr m1 up [0x2e, 0x2e]" "\<not> cstr m1 up [0x2e]" using cstr_unique [of m1 up] by blast+
  have "1 < length ?c" using assms(2,4) by (cases name) (auto simp: child_path_def)
  then have r: "\<not> cstr m1 p [0x2f]" using cstr_unique [OF c, of "[0x2f]"] by auto
  have lc: "length ?c < 2 ^ 31" using assms(9) by (simp add: child_path_def)
  have len: "sint (strlen p m1) = int (length ?c)"
    using strlen_cstr [OF c] lc by (simp add: sint_len)
  define k where "k = find_slash p m1 (int (length ?c) - 1)"
  have up: "cd_command chdir p' p up m1 = Some (p, m1(p + word_of_int k := 0))"
    using u r by (simp add: cd_command_def len k_def del: cstr.simps)
  have "cstr (m1(p + word_of_int k := 0)) p d"
  proof (cases "length d > 1")
    case True
    then have cc: "?c = d @ [0x2f] @ name" by (simp add: child_path_def)
    have "k = find_slash p m1 (int (length d + length name))" by (simp add: k_def cc)
    also have "\<dots> = int (length d)"
      by (rule find_slash_name [OF c [unfolded cc] assms(5) order_refl True])
    finally show ?thesis using cstr_cut [OF c [unfolded cc]] assms(9) by simp
  next
    case False
    with assms(2) have d: "d = [0x2f]" by auto
    then have cc: "?c = 0x2f # name" by (simp add: child_path_def)
    have "k = find_slash p m1 (int (length name))" by (simp add: k_def cc)
    also have "\<dots> = 1"
      using assms(4) by (intro find_slash_root [OF c [unfolded cc] assms(5)]) auto
    finally have "k = 1" .
    moreover have "cstr m1 p ([0x2f] @ name)" using c cc by simp
    from cstr_cut [OF this] have "cstr (m1(p + 1 := 0)) p [0x2f]" by (simp del: cstr.simps)
    ultimately show ?thesis by (simp add: d del: cstr.simps)
  qed
  with down c up show ?thesis by blast
qed

lemma block_apart_range:
  assumes "n \<le> unat (a - p)" "unat (a - p) + k < 2 ^ 64"
  shows "block_apart p n a k"
  unfolding block_apart_def
proof (intro allI impI notI)
  fix i j assume ij: "i < n" "j \<le> k" "p + word_of_nat i = a + word_of_nat j"
  have "p + word_of_nat i = p + word_of_nat (unat (a - p) + j)"
    unfolding ij(3) by simp
  moreover have "i < unat (a - p) + j" "unat (a - p) + j < 2 ^ 64" using ij assms by simp_all
  ultimately show False using off_neq by blast
qed

theorem cd_down_up_witness:
  "\<exists>m1 m2. cd_command (\<lambda>_ _. 0) 0x8000 0x9000 0x9100 ((\<lambda>_. 0)(0x9000 := 0x2f, 0x9001 := 0x61,
       0x9100 := 0x62, 0x9200 := 0x2e, 0x9201 := 0x2e)) = Some (0x8000, m1) \<and> cstr m1 0x8000 [0x2f, 0x61, 0x2f, 0x62] \<and>
     cd_command (\<lambda>_ _. 0) 0 0x8000 0x9200 m1 = Some (0x8000, m2) \<and> cstr m2 0x8000 [0x2f, 0x61]"
proof -
  let ?m = "(\<lambda>_. 0)(0x9000 := 0x2f, 0x9001 := 0x61, 0x9100 := 0x62, 0x9200 := 0x2e, 0x9201 := 0x2e) :: mem"
  have "cstr ?m 0x9000 [0x2f, 0x61]" "cstr ?m 0x9100 [0x62]" "cstr ?m 0x9200 [0x2e, 0x2e]" by simp_all
  moreover have "block_apart 0x8000 (length [0x2f, 0x61 :: u8] + length [0x62 :: u8] + 2) 0x9000 (length [0x2f, 0x61 :: u8])"
    "block_apart 0x8000 (length [0x2f, 0x61 :: u8] + length [0x62 :: u8] + 2) 0x9100 (length [0x62 :: u8])"
    "block_apart 0x8000 (length [0x2f, 0x61 :: u8] + length [0x62 :: u8] + 2) 0x9200 2"
    by (rule block_apart_range; simp)+
  ultimately have "\<exists>m1 m2. cd_command (\<lambda>_ _. 0) 0x8000 0x9000 0x9100 ?m = Some (0x8000, m1) \<and>
     cstr m1 0x8000 (child_path [0x2f, 0x61] [0x62]) \<and>
     cd_command (\<lambda>_ _. 0) 0 0x8000 0x9200 m1 = Some (0x8000, m2) \<and> cstr m2 0x8000 [0x2f, 0x61]"
    by (intro cd_down_up) (simp_all del: cstr.simps)
  then show ?thesis by (simp add: child_path_def del: cstr.simps)
qed

end
